(* ===== verification/Prelude.thy ===== *)
theory Prelude
  imports Main "HOL-Library.Word"
begin

text \<open>
  Shared vocabulary of the development: the machine types of the XMOS C/XC code, the
  index arithmetic of \<^verbatim>\<open>mii_buffering.h\<close>, and the generic facts on words, rotated lists and
  maps that the component theories share.

  Conventions. \<open>u8\<close>, \<open>u16\<close>, \<open>u32\<close> are the unsigned types of the source, kept at their width.
  An address (\<open>addr\<close>) is the byte address of an object on the tile, an \<open>int\<close> so that pointer
  differences are exact; tile memory is far below \<open>2 ^ 31\<close> bytes, so the 32-bit pointer
  arithmetic of the code and the integer arithmetic of the model agree. \<open>0\<close> is the null pointer.
\<close>

unbundle bit_operations_syntax

type_synonym u8 = "8 word"
type_synonym u16 = "16 word"
type_synonym u32 = "32 word"
type_synonym addr = int

text \<open>Facts that evaluate index arithmetic, collected for the ring proofs.\<close>

named_theorems ring_simps

text \<open>Facts that describe one bit of a filter result word.\<close>

named_theorems bit_facts

section \<open>Index arithmetic of mii_buffering.h\<close>

definition increment_and_wrap_to_zero :: "u32 \<Rightarrow> u32 \<Rightarrow> u32" where
  "increment_and_wrap_to_zero value limit =
     (let value = value + 1 in value * (if value \<noteq> limit then 1 else 0))"

definition increment_and_wrap_power_of_2 :: "u32 \<Rightarrow> u32 \<Rightarrow> u32" where
  "increment_and_wrap_power_of_2 value limit = (value + 1) mod limit"

lemma unat_add_one_below:
  fixes v m :: u32
  assumes "v < m"
  shows "unat (v + 1) = unat v + 1"
proof -
  have "unat v < unat m" using assms by (simp add: word_less_nat_alt)
  moreover have "unat m < 2 ^ 32" using unsigned_less [of m, where ?'a = nat] by simp
  ultimately show ?thesis by (simp add: unat_word_ariths)
qed

lemma wrap_to_zero_unat [ring_simps]:
  assumes "v < m"
  shows "unat (increment_and_wrap_to_zero v m) = (unat v + 1) mod unat m"
proof (cases "v + 1 = m")
  case True
  then have "unat m = unat v + 1" using unat_add_one_below [OF assms] by simp
  with True show ?thesis by (simp add: increment_and_wrap_to_zero_def)
next
  case False
  have *: "unat (v + 1) = unat v + 1" by (rule unat_add_one_below [OF assms])
  have "unat v < unat m" using assms by (simp add: word_less_nat_alt)
  moreover have "unat v + 1 \<noteq> unat m" using False * by (metis word_unat_eq_iff)
  ultimately have "unat v + 1 < unat m" by simp
  with False * show ?thesis by (simp add: increment_and_wrap_to_zero_def)
qed

lemma wrap_power_of_2_unat [ring_simps]:
  assumes "v < m"
  shows "unat (increment_and_wrap_power_of_2 v m) = (unat v + 1) mod unat m"
  using unat_add_one_below [OF assms]
  by (simp add: increment_and_wrap_power_of_2_def unat_mod)

text \<open>The two wrapping schemes of the source agree on every index inside the ring.\<close>

lemma wrap_schemes_agree:
  assumes "v < m"
  shows "increment_and_wrap_power_of_2 v m = increment_and_wrap_to_zero v m"
  by (simp add: word_unat_eq_iff wrap_to_zero_unat wrap_power_of_2_unat assms)

lemma wrap_to_zero_below [ring_simps]: "v < m \<Longrightarrow> increment_and_wrap_to_zero v m < m"
proof -
  assume a: "v < m"
  then have "0 < unat m" by (metis gr_implies_not0 gr0I word_less_nat_alt)
  then show ?thesis
    unfolding word_less_nat_alt wrap_to_zero_unat [OF a] by simp
qed

lemma wrap_power_of_2_below [ring_simps]: "v < m \<Longrightarrow> increment_and_wrap_power_of_2 v m < m"
  by (simp add: wrap_schemes_agree wrap_to_zero_below)

section \<open>Rotated lists\<close>

text \<open>
  The contents of a ring are read from the read index on: \<open>rotate r xs\<close>. Writing slot
  \<open>(r + k) mod n\<close> of the ring writes position \<open>k\<close> of the rotated list.
\<close>

lemma mod_below_twice: "x < 2 * n \<Longrightarrow> x mod n = (if x < n then x else x - n)" for x n :: nat
  by (simp add: le_mod_geq)

lemma ring_slot_inj:
  "r < n \<Longrightarrow> i < n \<Longrightarrow> k < n \<Longrightarrow> (r + i) mod n = (r + k) mod n \<longleftrightarrow> i = k" for r n i k :: nat
  by (simp add: mod_below_twice) arith

text \<open>The distance of slot \<open>i\<close> from the read index \<open>r\<close>, going forward round the ring.\<close>

definition ring_dist :: "nat \<Rightarrow> nat \<Rightarrow> nat \<Rightarrow> nat" where
  "ring_dist n r i = (i + n - r) mod n"

lemma ring_dist_below: "0 < n \<Longrightarrow> ring_dist n r i < n"
  by (simp add: ring_dist_def)

lemma ring_dist_slot: "r < n \<Longrightarrow> i < n \<Longrightarrow> (r + ring_dist n r i) mod n = i"
  by (simp add: ring_dist_def mod_add_right_eq)

lemma ring_dist_unique: "r < n \<Longrightarrow> k < n \<Longrightarrow> ring_dist n r ((r + k) mod n) = k"
  by (simp add: ring_dist_def mod_below_twice)

lemma ring_dist_self [simp]: "ring_dist n r r = 0"
  by (simp add: ring_dist_def)

lemma ring_dist_eq_0: "r < n \<Longrightarrow> i < n \<Longrightarrow> ring_dist n r i = 0 \<longleftrightarrow> i = r"
  by (metis add_cancel_right_right mod_less ring_dist_self ring_dist_slot)

text \<open>Moving the read index forward by \<open>m\<close> and shortening the contents by \<open>m\<close> ends at the same slot.\<close>

lemma ring_advance: "m \<le> u \<Longrightarrow> ((r + m) mod n + (u - m)) mod n = (r + u) mod n" for r m n u :: nat
proof -
  assume "m \<le> u"
  then have "r + u = (r + m) + (u - m)" by simp
  then show ?thesis by (metis mod_add_left_eq)
qed

lemma rotate_update:
  assumes "k < length xs" "r < length xs"
  shows "rotate r (xs[(r + k) mod length xs := v]) = (rotate r xs)[k := v]"
proof (rule nth_equalityI)
  fix i assume "i < length (rotate r (xs[(r + k) mod length xs := v]))"
  then have i: "i < length xs" by simp
  have "(r + k) mod length xs < length xs"
    using assms(1) by (intro mod_less_divisor) linarith
  then show "rotate r (xs[(r + k) mod length xs := v]) ! i = (rotate r xs)[k := v] ! i"
    using i assms ring_slot_inj [OF assms(2) i assms(1)]
    by (auto simp: nth_rotate nth_list_update)
qed simp

text \<open>Skipping leading entries that a filter drops does not change what it keeps.\<close>

lemma filter_rotate_skip:
  assumes "m \<le> length xs" "\<forall>k<m. \<not> P (xs ! k)"
  shows "filter P (rotate m xs) = filter P xs"
proof -
  have drop_first: "filter P (take m xs) = []"
    using assms by (auto simp: filter_empty_conv in_set_conv_nth)
  have split: "filter P xs = filter P (take m xs) @ filter P (drop m xs)"
    by (metis append_take_drop_id filter_append)
  show ?thesis
  proof (cases "m = length xs")
    case True
    then show ?thesis by simp
  next
    case False
    with assms have "rotate m xs = drop m xs @ take m xs" by (simp add: rotate_drop_take)
    then show ?thesis using drop_first split by simp
  qed
qed

text \<open>Clearing one kept entry removes exactly that entry.\<close>

lemma filter_clear_remove1:
  assumes "k < length xs" "P (xs ! k)" "\<not> P z" "distinct (filter P xs)"
  shows "filter P (xs[k := z]) = remove1 (xs ! k) (filter P xs)"
proof -
  have xs: "xs = take k xs @ xs ! k # drop (Suc k) xs"
    using assms(1) by (simp add: id_take_nth_drop)
  have "xs[k := z] = take k xs @ z # drop (Suc k) xs"
    using assms(1) by (simp add: upd_conv_take_nth_drop)
  then have lhs: "filter P (xs[k := z]) = filter P (take k xs) @ filter P (drop (Suc k) xs)"
    using assms(3) by simp
  have rhs: "filter P xs = filter P (take k xs) @ xs ! k # filter P (drop (Suc k) xs)"
    using assms(2) by (subst xs) simp
  then have "xs ! k \<notin> set (filter P (take k xs))" using assms(4) by auto
  then show ?thesis unfolding lhs rhs by (simp add: remove1_append del: set_filter)
qed

lemma filter_clear_other:
  assumes "k < length xs" "\<not> P (xs ! k)" "\<not> P z"
  shows "filter P (xs[k := z]) = filter P xs"
proof -
  have "filter P xs = filter P (take k xs) @ filter P (drop (Suc k) xs)"
    using assms by (subst id_take_nth_drop [OF assms(1)]) simp
  moreover have "filter P (xs[k := z]) = filter P (take k xs) @ filter P (drop (Suc k) xs)"
    using assms by (subst upd_conv_take_nth_drop [OF assms(1)]) simp
  ultimately show ?thesis by simp
qed

end
