(* ===== verification/Fifo.thy ===== *)
theory Fifo
  imports Prelude
begin

text \<open>
  The contract every ring of the program keeps towards its users: what is put in comes out
  once, in order, and nothing else comes out. The abstraction \<open>items\<close> reads a ring as the list
  of what it holds; \<open>room\<close> says that the producer's full test lets it add. The consequences
  that the users of a ring rely on are proved here once; every ring of the program interprets
  the locale in its own theory.
\<close>

text \<open>
  A schedule of a ring is a list of offers (\<open>Some x\<close>: the producer tests for room and adds
  \<open>x\<close>) and polls (\<open>None\<close>: the consumer looks at the front and takes it). \<open>fifo_run\<close> returns
  the final ring, what was accepted and what was delivered.
\<close>

fun fifo_run :: "('q \<Rightarrow> bool) \<Rightarrow> ('q \<Rightarrow> 'a \<Rightarrow> 'q) \<Rightarrow> ('q \<Rightarrow> 'q) \<Rightarrow> ('q \<Rightarrow> 'a option) \<Rightarrow>
    'q \<Rightarrow> 'a option list \<Rightarrow> 'q \<times> 'a list \<times> 'a list" where
  "fifo_run room enq deq front q [] = (q, [], [])"
| "fifo_run room enq deq front q (Some x # es) =
     (if room q then
        (let (q', acc, del) = fifo_run room enq deq front (enq q x) es in (q', x # acc, del))
      else fifo_run room enq deq front q es)"
| "fifo_run room enq deq front q (None # es) =
     (case front q of
        None \<Rightarrow> fifo_run room enq deq front q es
      | Some x \<Rightarrow>
        (let (q', acc, del) = fifo_run room enq deq front (deq q) es in (q', acc, x # del)))"

locale fifo =
  fixes items :: "'q \<Rightarrow> 'a list"
    and ok :: "'q \<Rightarrow> bool"
    and room :: "'q \<Rightarrow> bool"
    and valid :: "'a \<Rightarrow> bool"
    and enq :: "'q \<Rightarrow> 'a \<Rightarrow> 'q"
    and deq :: "'q \<Rightarrow> 'q"
    and front :: "'q \<Rightarrow> 'a option"
  assumes items_enq: "ok q \<Longrightarrow> room q \<Longrightarrow> valid x \<Longrightarrow> items (enq q x) = items q @ [x]"
    and ok_enq: "ok q \<Longrightarrow> room q \<Longrightarrow> valid x \<Longrightarrow> ok (enq q x)"
    and items_deq: "ok q \<Longrightarrow> items q \<noteq> [] \<Longrightarrow> items (deq q) = tl (items q)"
    and ok_deq: "ok q \<Longrightarrow> items q \<noteq> [] \<Longrightarrow> ok (deq q)"
    and front_items: "ok q \<Longrightarrow> front q = (case items q of [] \<Rightarrow> None | x # _ \<Rightarrow> Some x)"
begin

lemma front_None: "ok q \<Longrightarrow> front q = None \<Longrightarrow> items q = []"
  by (simp add: front_items split: list.splits)

lemma front_Some: "ok q \<Longrightarrow> front q = Some x \<Longrightarrow> items q = x # items (deq q) \<and> ok (deq q)"
  using items_deq [of q] ok_deq [of q] by (simp add: front_items split: list.splits)

theorem run_fifo:
  assumes "ok q" and "\<And>x. Some x \<in> set es \<Longrightarrow> valid x"
    and "fifo_run room enq deq front q es = (q', acc, del)"
  shows "ok q' \<and> items q @ acc = del @ items q'"
  using assms
proof (induction es arbitrary: q q' acc del)
  case Nil
  then show ?case by simp
next
  case (Cons e es)
  have valid_es: "\<And>x. Some x \<in> set es \<Longrightarrow> valid x" using Cons.prems(2) by simp
  note IH = Cons.IH [OF _ valid_es]
  show ?case
  proof (cases e)
    case None
    show ?thesis
    proof (cases "front q")
      case None
      with \<open>e = None\<close> Cons.prems IH [of q q' acc del] show ?thesis by simp
    next
      case (Some x)
      obtain q2 a d where r: "fifo_run room enq deq front (deq q) es = (q2, a, d)"
        by (cases "fifo_run room enq deq front (deq q) es")
      from front_Some [OF Cons.prems(1) Some] IH [OF _ _ r]
      show ?thesis using \<open>e = None\<close> Some r Cons.prems(3) by auto
    qed
  next
    case (Some x)
    show ?thesis
    proof (cases "room q")
      case True
      obtain q2 a d where r: "fifo_run room enq deq front (enq q x) es = (q2, a, d)"
        by (cases "fifo_run room enq deq front (enq q x) es")
      have v: "valid x" using Cons.prems(2) Some by simp
      from IH [OF ok_enq _ r] True Cons.prems(1) v
      show ?thesis using Some r Cons.prems(3) by (auto simp: items_enq)
    next
      case False
      with Some Cons.prems IH [of q q' acc del] show ?thesis by simp
    qed
  qed
qed

end

end
