(* ===== verification/Ts_Queue.thy ===== *)
theory Ts_Queue
  imports Fifo
begin

text \<open>
  The transmit timestamp queue of \<^verbatim>\<open>lib_ethernet/src/mii_ts_queue.c\<close>: the transmit pins thread
  adds the egress time of a packet under the number of the client that asked for it, the client
  server takes the entries out. Both operations run under the hardware lock
  (\<^verbatim>\<open>ETHERNET_USE_HARDWARE_LOCKS\<close> is 1), so each is one atomic step. There is no full test:
  \<open>ts_room\<close> states what the users of the queue have to keep, and \<open>ts_queue_overflow\<close> what happens
  when they do not.
\<close>

section \<open>State and operations\<close>

record mii_ts_queue_entry_t =
  ts_timestamp_id :: u32
  ts_timestamp :: u32

record mii_ts_queue_info_t =
  ts_rd_index :: u32
  ts_wr_index :: u32
  ts_num_entries :: u32
  ts_fifo :: "mii_ts_queue_entry_t list"

definition mii_ts_queue_init :: "mii_ts_queue_entry_t list \<Rightarrow> u32 \<Rightarrow> mii_ts_queue_info_t" where
  "mii_ts_queue_init buf n =
     \<lparr>ts_rd_index = 0, ts_wr_index = 0, ts_num_entries = n, ts_fifo = buf\<rparr>"

definition mii_ts_queue_add_entry ::
    "mii_ts_queue_info_t \<Rightarrow> u32 \<Rightarrow> u32 \<Rightarrow> mii_ts_queue_info_t" where
  "mii_ts_queue_add_entry q ident timestamp =
     (let wr_index = ts_wr_index q;
          q = q\<lparr>ts_fifo := (ts_fifo q)[unat wr_index :=
                 \<lparr>ts_timestamp_id = ident, ts_timestamp = timestamp\<rparr>]\<rparr>;
          wr_index = increment_and_wrap_to_zero wr_index (ts_num_entries q)
      in q\<lparr>ts_wr_index := wr_index\<rparr>)"

text \<open>The result pairs the new queue with the entry found (the out parameters), if any.\<close>

definition mii_ts_queue_get_entry ::
    "mii_ts_queue_info_t \<Rightarrow> mii_ts_queue_info_t \<times> (u32 \<times> u32) option" where
  "mii_ts_queue_get_entry q =
     (let rd_index = ts_rd_index q
      in if rd_index \<noteq> ts_wr_index q then
           (let e = ts_fifo q ! unat rd_index;
                rd_index = increment_and_wrap_to_zero rd_index (ts_num_entries q)
            in (q\<lparr>ts_rd_index := rd_index\<rparr>, Some (ts_timestamp_id e, ts_timestamp e)))
         else (q, None))"

section \<open>Abstraction and invariant\<close>

definition ts_len :: "mii_ts_queue_info_t \<Rightarrow> nat" where
  "ts_len q = ring_dist (unat (ts_num_entries q)) (unat (ts_rd_index q)) (unat (ts_wr_index q))"

definition ts_items :: "mii_ts_queue_info_t \<Rightarrow> (u32 \<times> u32) list" where
  "ts_items q = map (\<lambda>k.
     let e = ts_fifo q ! ((unat (ts_rd_index q) + k) mod unat (ts_num_entries q))
     in (ts_timestamp_id e, ts_timestamp e)) [0..<ts_len q]"

definition ts_ok :: "mii_ts_queue_info_t \<Rightarrow> bool" where
  "ts_ok q \<longleftrightarrow> ts_rd_index q < ts_num_entries q \<and> ts_wr_index q < ts_num_entries q \<and>
     unat (ts_num_entries q) \<le> length (ts_fifo q)"

definition ts_room :: "mii_ts_queue_info_t \<Rightarrow> bool" where
  "ts_room q \<longleftrightarrow> length (ts_items q) + 1 < unat (ts_num_entries q)"

lemma ts_okD:
  assumes "ts_ok q"
  shows "unat (ts_rd_index q) < unat (ts_num_entries q)"
    "unat (ts_wr_index q) < unat (ts_num_entries q)" "0 < unat (ts_num_entries q)"
    "unat (ts_num_entries q) \<le> length (ts_fifo q)"
  using assms by (auto simp: ts_ok_def word_less_nat_alt)

lemma length_ts_items: "length (ts_items q) = ts_len q"
  by (simp add: ts_items_def)

lemma ts_items_nth:
  "k < ts_len q \<Longrightarrow> ts_items q ! k =
     (let e = ts_fifo q ! ((unat (ts_rd_index q) + k) mod unat (ts_num_entries q))
      in (ts_timestamp_id e, ts_timestamp e))"
  by (simp add: ts_items_def)

lemma ts_wr_slot:
  assumes "ts_ok q"
  shows "(unat (ts_rd_index q) + ts_len q) mod unat (ts_num_entries q) = unat (ts_wr_index q)"
  using ts_okD [OF assms] by (simp add: ts_len_def ring_dist_slot)

lemma ts_items_empty: "ts_ok q \<Longrightarrow> ts_items q = [] \<longleftrightarrow> ts_rd_index q = ts_wr_index q"
  using ts_okD [of q] ring_dist_eq_0 [of "unat (ts_rd_index q)" "unat (ts_num_entries q)"
      "unat (ts_wr_index q)"]
  by (auto simp: ts_items_def ts_len_def word_unat_eq_iff)

lemma ts_add_wr:
  assumes "ts_ok q"
  shows "unat (ts_wr_index (mii_ts_queue_add_entry q i t)) =
    (unat (ts_rd_index q) + (ts_len q + 1)) mod unat (ts_num_entries q)"
proof -
  have "unat (ts_wr_index (mii_ts_queue_add_entry q i t)) =
      (unat (ts_wr_index q) + 1) mod unat (ts_num_entries q)"
    using assms by (simp add: mii_ts_queue_add_entry_def Let_def wrap_to_zero_unat ts_ok_def)
  then show ?thesis by (simp add: mod_Suc_eq flip: ts_wr_slot [OF assms])
qed

lemma ts_add_fields [simp]:
  "ts_rd_index (mii_ts_queue_add_entry q i t) = ts_rd_index q"
  "ts_num_entries (mii_ts_queue_add_entry q i t) = ts_num_entries q"
  "length (ts_fifo (mii_ts_queue_add_entry q i t)) = length (ts_fifo q)"
  by (simp_all add: mii_ts_queue_add_entry_def Let_def)

lemma ts_add_ok: "ts_ok q \<Longrightarrow> ts_ok (mii_ts_queue_add_entry q i t)"
  using wrap_to_zero_below [of "ts_wr_index q" "ts_num_entries q"]
  by (auto simp: ts_ok_def) (simp add: mii_ts_queue_add_entry_def Let_def)

lemma ts_add_items:
  assumes ok: "ts_ok q" and room: "ts_room q"
  shows "ts_items (mii_ts_queue_add_entry q i t) = ts_items q @ [(i, t)]"
proof -
  let ?n = "unat (ts_num_entries q)" and ?r = "unat (ts_rd_index q)" and ?q = "mii_ts_queue_add_entry q i t"
  have len: "ts_len ?q = ts_len q + 1"
    using room ts_okD [OF ok] ring_dist_unique [of ?r ?n "ts_len q + 1"]
    by (simp add: ts_len_def [of ?q] ts_add_wr [OF ok] ts_room_def length_ts_items)
  have fifo: "ts_fifo ?q = (ts_fifo q)[(?r + ts_len q) mod ?n := \<lparr>ts_timestamp_id = i, ts_timestamp = t\<rparr>]"
    by (simp add: mii_ts_queue_add_entry_def Let_def ts_wr_slot [OF ok])
  have old: "ts_fifo ?q ! ((?r + k) mod ?n) = ts_fifo q ! ((?r + k) mod ?n)" if "k < ts_len q" for k
    using that room ring_slot_inj [of ?r ?n k "ts_len q"] ts_okD [OF ok]
    by (simp add: fifo ts_room_def length_ts_items)
  have "(?r + ts_len q) mod ?n < length (ts_fifo q)"
    using ts_okD [OF ok] mod_less_divisor [of ?n] by (meson order_less_le_trans)
  then show ?thesis
    using old by (auto simp: ts_items_def len fifo [symmetric]) (simp add: fifo)
qed

lemma ts_get_spec:
  assumes ok: "ts_ok q"
  shows "snd (mii_ts_queue_get_entry q) = (case ts_items q of [] \<Rightarrow> None | e # _ \<Rightarrow> Some e) \<and>
    ts_ok (fst (mii_ts_queue_get_entry q)) \<and>
    ts_items (fst (mii_ts_queue_get_entry q)) = tl (ts_items q)"
proof (cases "ts_rd_index q = ts_wr_index q")
  case True
  then have "ts_items q = []" using ts_items_empty [OF ok] by simp
  with True ok show ?thesis by (simp add: mii_ts_queue_get_entry_def)
next
  case False
  let ?n = "unat (ts_num_entries q)" and ?r = "unat (ts_rd_index q)" and ?q = "fst (mii_ts_queue_get_entry q)"
  have q: "?q = q\<lparr>ts_rd_index := increment_and_wrap_to_zero (ts_rd_index q) (ts_num_entries q)\<rparr>"
    using False by (simp add: mii_ts_queue_get_entry_def Let_def)
  have r': "unat (ts_rd_index ?q) = (?r + 1) mod ?n"
    using ok by (simp add: q wrap_to_zero_unat ts_ok_def)
  have ok': "ts_ok ?q" using ok by (simp add: q ts_ok_def wrap_to_zero_below)
  have pos: "0 < ts_len q" using False ts_items_empty [OF ok] by (simp flip: length_ts_items)
  have lt: "ts_len q < ?n" using ts_okD [OF ok] by (simp add: ts_len_def ring_dist_below)
  have "(unat (ts_rd_index ?q) + (ts_len q - 1)) mod ?n = unat (ts_wr_index q)"
  proof -
    have "((?r + 1) mod ?n + (ts_len q - 1)) mod ?n = (?r + ts_len q) mod ?n"
      using pos by (intro ring_advance) simp
    then show ?thesis by (simp add: r' ts_wr_slot [OF ok])
  qed
  then have "ring_dist ?n (unat (ts_rd_index ?q)) (unat (ts_wr_index q)) = ts_len q - 1"
    using ring_dist_unique [of "unat (ts_rd_index ?q)" ?n "ts_len q - 1"] lt ts_okD [OF ok'] q by simp
  then have len: "ts_len ?q = ts_len q - 1"
    unfolding ts_len_def [of ?q] by (simp add: q)
  have "ts_items ?q = tl (ts_items q)"
  proof (rule nth_equalityI)
    fix k assume "k < length (ts_items ?q)"
    then have k: "Suc k < ts_len q" using len by (simp add: length_ts_items)
    have "((?r + 1) mod ?n + k) mod ?n = (?r + Suc k) mod ?n"
      by (simp add: mod_add_left_eq)
    moreover have "ts_fifo ?q = ts_fifo q" "ts_num_entries ?q = ts_num_entries q"
      by (simp_all add: q)
    ultimately show "ts_items ?q ! k = tl (ts_items q) ! k"
      using k len by (simp add: ts_items_nth r' nth_tl length_ts_items)
  qed (simp add: length_ts_items len)
  moreover have "ts_items q = (ts_timestamp_id (ts_fifo q ! ?r), ts_timestamp (ts_fifo q ! ?r)) # tl (ts_items q)"
    using pos ts_okD [OF ok] by (simp add: ts_items_def upt_conv_Cons map_tl [symmetric] Let_def)
  moreover have "snd (mii_ts_queue_get_entry q) =
      Some (ts_timestamp_id (ts_fifo q ! ?r), ts_timestamp (ts_fifo q ! ?r))"
    using False by (simp add: mii_ts_queue_get_entry_def Let_def)
  ultimately show ?thesis using ok' by (metis list.simps(5))
qed

section \<open>The queue as a FIFO\<close>

definition ts_put :: "mii_ts_queue_info_t \<Rightarrow> u32 \<times> u32 \<Rightarrow> mii_ts_queue_info_t" where
  "ts_put q e = mii_ts_queue_add_entry q (fst e) (snd e)"

definition ts_take :: "mii_ts_queue_info_t \<Rightarrow> mii_ts_queue_info_t" where
  "ts_take q = fst (mii_ts_queue_get_entry q)"

definition ts_front :: "mii_ts_queue_info_t \<Rightarrow> (u32 \<times> u32) option" where
  "ts_front q = snd (mii_ts_queue_get_entry q)"

interpretation ts_fifo: fifo ts_items ts_ok ts_room "\<lambda>_. True" ts_put ts_take ts_front
  by unfold_locales
    (simp_all add: ts_put_def ts_take_def ts_front_def ts_add_items ts_add_ok ts_get_spec)

lemma ts_init:
  assumes "0 < n" "unat n \<le> length buf"
  shows "ts_ok (mii_ts_queue_init buf n) \<and> ts_items (mii_ts_queue_init buf n) = []"
  using assms by (simp add: ts_ok_def mii_ts_queue_init_def ts_items_def ts_len_def)

section \<open>Properties\<close>

text \<open>
  The timestamp queue delivers every entry once and in order, as long as it holds fewer than
  \<open>num_entries - 1\<close> entries when one is added (the rings are created with one slot more than
  there are transmit clients).
\<close>

theorem ts_queue_is_fifo:
  assumes "0 < n" and "unat n \<le> length buf"
    and "fifo_run ts_room ts_put ts_take ts_front (mii_ts_queue_init buf n) es = (q, accepted, delivered)"
  shows "ts_ok q \<and> accepted = delivered @ ts_items q"
  using ts_fifo.run_fifo [OF _ _ assms(3)] ts_init [OF assms(1,2)] by simp

theorem ts_queue_is_fifo_witness:
  "\<exists>q. fifo_run ts_room ts_put ts_take ts_front
       (mii_ts_queue_init (replicate 3 \<lparr>ts_timestamp_id = 0, ts_timestamp = 0\<rparr>) 3)
       [Some (1, 100), None, Some (2, 250), Some (1, 300), Some (9, 9)] =
       (q, [(1, 100), (2, 250), (1, 300)], [(1, 100)]) \<and>
     ts_ok q \<and> [(1, 100), (2, 250), (1, 300)] = [(1, 100)] @ ts_items q"
proof -
  let ?es = "[Some (1, 100), None, Some (2, 250), Some (1, 300), Some (9, 9)] :: (u32 \<times> u32) option list"
  let ?q = "mii_ts_queue_init (replicate 3 \<lparr>ts_timestamp_id = 0, ts_timestamp = 0\<rparr>) 3"
  let ?run = "fifo_run ts_room ts_put ts_take ts_front ?q"
  obtain q acc del where r: "?run ?es = (q, acc, del)" by (cases "?run ?es")
  have "snd (?run ?es) = ([(1, 100), (2, 250), (1, 300)], [(1, 100)])" by code_simp
  then have "acc = [(1, 100), (2, 250), (1, 300)] \<and> del = [(1, 100)]" unfolding r by simp
  with r ts_queue_is_fifo [OF _ _ r] show ?thesis by auto
qed

text \<open>
  C29. The queue has no full test. Adding an entry when \<open>num_entries - 1\<close> are waiting makes the
  write index meet the read index, and every waiting entry is lost: a capacity of one entry per
  transmit client is enough only because a client has one timestamp outstanding at a time.
\<close>

theorem ts_queue_overflow:
  assumes ok: "ts_ok q" and full: "length (ts_items q) + 1 = unat (ts_num_entries q)"
  shows "ts_items (mii_ts_queue_add_entry q i t) = [] \<and>
    snd (mii_ts_queue_get_entry (mii_ts_queue_add_entry q i t)) = None"
proof -
  have "unat (ts_wr_index (mii_ts_queue_add_entry q i t)) = unat (ts_rd_index q)"
    using full ts_okD [OF ok] by (simp add: ts_add_wr [OF ok] length_ts_items)
  then have "ts_items (mii_ts_queue_add_entry q i t) = []"
    by (simp add: ts_items_empty [OF ts_add_ok [OF ok]] word_unat_eq_iff)
  then show ?thesis using ts_get_spec [OF ts_add_ok [OF ok]] by simp
qed

theorem ts_queue_overflow_witness:
  "\<exists>q. ts_items q = [(1, 100)] \<and> ts_items (mii_ts_queue_add_entry q 2 250) = [] \<and>
     snd (mii_ts_queue_get_entry (mii_ts_queue_add_entry q 2 250)) = None"
proof -
  let ?q = "mii_ts_queue_add_entry
    (mii_ts_queue_init (replicate 2 \<lparr>ts_timestamp_id = 0, ts_timestamp = 0\<rparr>) 2) 1 100"
  have items: "ts_items ?q = [(1, 100)]" by code_simp
  have "ts_ok ?q" by (rule ts_add_ok) (simp add: ts_init)
  with ts_queue_overflow [of ?q 2 250] items show ?thesis
    by (intro exI [of _ ?q]) (simp add: mii_ts_queue_init_def)
qed

end
