(* ===== verification/Memory.thy ===== *)
theory Memory
  imports Prelude
begin

text \<open>
  The memory of the tile: 32-bit words at byte addresses that are multiples of 4, with the
  little-endian byte access of the xCORE, and the layout of a packet (\<open>mii_packet_t\<close> of
  \<^verbatim>\<open>lib_ethernet/src/mii_buffering.h\<close>): ten header words, then the data. Every access of the code
  to a packet goes through these words, so two objects alias exactly when their addresses say so.
\<close>

type_synonym mem = "addr \<Rightarrow> u32"

section \<open>Bytes\<close>

definition ldb :: "mem \<Rightarrow> addr \<Rightarrow> u8" where
  "ldb m a = ucast (drop_bit (8 * nat (a mod 4)) (m (a - a mod 4)))"

definition stb :: "mem \<Rightarrow> addr \<Rightarrow> u8 \<Rightarrow> mem" where
  "stb m a b =
     (let w = a - a mod 4; s = 8 * nat (a mod 4)
      in m(w := (m w AND NOT (push_bit s 255)) OR push_bit s (ucast b)))"

text \<open>\<^verbatim>\<open>memcpy\<close> from memory into an array of bytes and from an array of bytes into memory.\<close>

definition ldbs :: "mem \<Rightarrow> addr \<Rightarrow> nat \<Rightarrow> u8 list" where
  "ldbs m a n = map (\<lambda>i. ldb m (a + int i)) [0..<n]"

fun stbs :: "mem \<Rightarrow> addr \<Rightarrow> u8 list \<Rightarrow> mem" where
  "stbs m a [] = m"
| "stbs m a (b # bs) = stbs (stb m a b) (a + 1) bs"

lemma bit_255: "bit (255 :: int) n \<longleftrightarrow> n < 8"
proof -
  have m: "(mask 8 :: int) = 255" by (simp add: mask_eq_exp_minus_1)
  have "bit (mask 8 :: int) n \<longleftrightarrow> n < 8" by (simp only: bit_mask_iff) simp
  then show ?thesis by (simp only: m)
qed

lemma ldb_stb: "ldb (stb m a b) a' = (if a = a' then b else ldb m a')"
proof (cases "a - a mod 4 = a' - a' mod 4")
  case False
  then show ?thesis by (auto simp: ldb_def stb_def Let_def)
next
  case True
  define j where "j = nat (a mod 4)"
  define k where "k = nat (a' mod 4)"
  have jk: "j < 4" "k < 4" by (simp_all add: j_def k_def)
  have eq: "a = a' \<longleftrightarrow> j = k" using True by (auto simp: j_def k_def)
  have "ldb (stb m a b) a' = ucast (drop_bit (8 * k)
      ((m (a' - a' mod 4) AND NOT (push_bit (8 * j) 255)) OR push_bit (8 * j) (ucast b)) :: u32)"
    using True by (simp add: ldb_def stb_def Let_def j_def k_def)
  also have "\<dots> = (if j = k then b else ucast (drop_bit (8 * k) (m (a' - a' mod 4))))"
  proof (rule bit_word_eqI)
    fix n assume "n < LENGTH(8)"
    then have n: "n < 8" by simp
    have lt: "8 * k + n < 32" using jk n by simp
    have "(8 * j \<le> 8 * k + n \<and> 8 * k + n - 8 * j < 8) = (j = k)" using jk n by arith
    then show "bit (ucast (drop_bit (8 * k) ((m (a' - a' mod 4) AND NOT (push_bit (8 * j) 255)) OR
        push_bit (8 * j) (ucast b)) :: u32) :: u8) n \<longleftrightarrow>
      bit (if j = k then b else ucast (drop_bit (8 * k) (m (a' - a' mod 4)))) n"
      using n lt by (auto simp: bit_simps bit_255 dest: bit_imp_le_length)
  qed
  finally show ?thesis by (simp add: eq ldb_def k_def)
qed

lemma ldb_stbs:
  "ldb (stbs m a bs) a' = (if a \<le> a' \<and> a' < a + int (length bs) then bs ! nat (a' - a) else ldb m a')"
proof (induction bs arbitrary: m a)
  case Nil
  show ?case by auto
next
  case (Cons b bs)
  have "nat (a' - a) = Suc (nat (a' - (a + 1)))" if "a < a'" using that by simp
  then show ?case by (auto simp: Cons.IH ldb_stb)
qed

lemma length_ldbs [simp]: "length (ldbs m a n) = n"
  by (simp add: ldbs_def)

lemma ldbs_nth [simp]: "i < n \<Longrightarrow> ldbs m a n ! i = ldb m (a + int i)"
  by (simp add: ldbs_def)

lemma ldbs_stbs_same: "ldbs (stbs m a bs) a (length bs) = bs"
  by (rule nth_equalityI) (simp_all add: ldb_stbs)

lemma ldbs_stbs_apart:
  "a + int (length bs) \<le> a' \<or> a' + int n \<le> a \<Longrightarrow> ldbs (stbs m a bs) a' n = ldbs m a' n"
  by (rule nth_equalityI) (auto simp: ldb_stbs)

text \<open>A byte write changes the word it lies in and no other.\<close>

lemma stb_word: "w \<noteq> a - a mod 4 \<Longrightarrow> stb m a b w = m w"
  by (simp add: stb_def Let_def)

lemma stbs_word:
  "(\<And>i. i < int (length bs) \<Longrightarrow> 0 \<le> i \<Longrightarrow> w \<noteq> (a + i) - (a + i) mod 4) \<Longrightarrow> stbs m a bs w = m w"
proof (induction bs arbitrary: m a)
  case Nil
  then show ?case by simp
next
  case (Cons b bs)
  have "stbs (stb m a b) (a + 1) bs w = stb m a b w"
  proof (rule Cons.IH)
    fix i assume "i < int (length bs)" "0 \<le> i"
    then show "w \<noteq> (a + 1 + i) - (a + 1 + i) mod 4" using Cons.prems [of "i + 1"] by (simp add: ac_simps)
  qed
  also have "\<dots> = m w" using Cons.prems [of 0] by (intro stb_word) simp
  finally show ?case by simp
qed

lemma stbs_outside:
  assumes "w mod 4 = 0" "w + 4 \<le> a \<or> a + int (length bs) \<le> w"
  shows "stbs m a bs w = m w"
proof (rule stbs_word)
  fix i assume i: "i < int (length bs)" "0 \<le> i"
  have "0 \<le> (a + i) mod 4" "(a + i) mod 4 < 4" by simp_all
  then show "w \<noteq> (a + i) - (a + i) mod 4" using assms i by arith
qed

section \<open>Packets in memory\<close>

text \<open>
  \<^verbatim>\<open>MII_PACKET_HEADER_BYTES\<close> and \<^verbatim>\<open>sizeof(mii_packet_t)\<close>: the data array is
  \<^verbatim>\<open>(MII_PACKET_DATA_BYTES+3)/4\<close> words for \<^verbatim>\<open>MII_PACKET_DATA_BYTES\<close> = 1518 + 8.
\<close>

abbreviation ETHERNET_MAX_PACKET_SIZE :: int where "ETHERNET_MAX_PACKET_SIZE \<equiv> 1518"
abbreviation MII_PACKET_HEADER_BYTES :: int where "MII_PACKET_HEADER_BYTES \<equiv> 40"

definition MII_PACKET_DATA_BYTES :: int where
  "MII_PACKET_DATA_BYTES = ETHERNET_MAX_PACKET_SIZE + 8"

definition sizeof_mii_packet_t :: int where
  "sizeof_mii_packet_t = MII_PACKET_HEADER_BYTES + ((MII_PACKET_DATA_BYTES + 3) div 4) * 4"

text \<open>The addresses of the fields of the packet at address \<open>p\<close>.\<close>

datatype pkt_field = length_f | timestamp_f | filter_result_f | src_port_f | timestamp_id_f |
  tcount_f | crc_f | forwarding_f | vlan_tagged_f | filter_data_f

fun fld_off :: "pkt_field \<Rightarrow> int" where
  "fld_off length_f = 0"
| "fld_off timestamp_f = 4"
| "fld_off filter_result_f = 8"
| "fld_off src_port_f = 12"
| "fld_off timestamp_id_f = 16"
| "fld_off tcount_f = 20"
| "fld_off crc_f = 24"
| "fld_off forwarding_f = 28"
| "fld_off vlan_tagged_f = 32"
| "fld_off filter_data_f = 36"

definition getf :: "mem \<Rightarrow> addr \<Rightarrow> pkt_field \<Rightarrow> u32" where
  "getf m p f = m (p + fld_off f)"

definition setf :: "mem \<Rightarrow> addr \<Rightarrow> pkt_field \<Rightarrow> u32 \<Rightarrow> mem" where
  "setf m p f v = m(p + fld_off f := v)"

definition pkt_data :: "addr \<Rightarrow> addr" where
  "pkt_data p = p + MII_PACKET_HEADER_BYTES"

lemma fld_off_range: "0 \<le> fld_off f \<and> fld_off f \<le> 36"
  by (cases f) simp_all

lemma fld_off_inj [simp]: "fld_off f = fld_off g \<longleftrightarrow> f = g"
  by (cases f; cases g) simp_all

lemma getf_setf_same [simp]: "getf (setf m p f v) p g = (if f = g then v else getf m p g)"
  by (simp add: getf_def setf_def)

lemma setf_other: "a < p \<or> p + 40 \<le> a \<Longrightarrow> setf m p f v a = m a"
  using fld_off_range [of f] by (auto simp: setf_def)

lemma getf_setf_apart: "p + 40 \<le> q \<or> q + 40 \<le> p \<Longrightarrow> getf (setf m p f v) q g = getf m q g"
  using fld_off_range [of f] fld_off_range [of g] by (auto simp: getf_def setf_def)

text \<open>
  \<open>mii_get_and_dec_transmit_count\<close>: under the lock, return the count and, when it is not zero,
  store one less.
\<close>

definition mii_get_and_dec_transmit_count :: "mem \<Rightarrow> addr \<Rightarrow> u32 \<times> mem" where
  "mii_get_and_dec_transmit_count m buf =
     (let count = getf m buf tcount_f
      in (count, if count \<noteq> 0 then setf m buf tcount_f (count - 1) else m))"

end
