(* ===== verification/Mempool.thy ===== *)
theory Mempool
  imports Memory
begin

text \<open>
  The packet memory of \<^verbatim>\<open>lib_ethernet/src/mii_buffering.c\<close> (\<open>mempool_info_t\<close>): a circular block
  of words. The producer reserves at the write pointer and commits; the live packets lie between
  the oldest packet still queued (\<open>rdptr\<close>, null when there is none) and the write pointer. The
  word at \<open>end\<close> holds the address of \<open>start\<close>, so wrapping is one load. The size of
  \<open>mempool_info_t\<close> depends on \<open>swlock_t\<close> of lib_locks and is the parameter \<open>sz\<close>.

  The invariant \<open>mp_ok\<close> numbers the words of the block (\<open>mp_slot\<close>); free and live words are
  intervals of slot numbers round the ring.
\<close>

section \<open>State and operations\<close>

record mempool_info_t =
  mp_wrptr :: addr
  mp_start :: addr
  mp_end :: addr
  mp_last_safe_wrptr :: addr

text \<open>The packet header, one word for the pre-incremented address, three words of data.\<close>

definition MIN_USAGE :: int where
  "MIN_USAGE = MII_PACKET_HEADER_BYTES + 4 + 12"

definition mempool_layout :: "int \<Rightarrow> addr \<Rightarrow> int \<Rightarrow> mempool_info_t" where
  "mempool_layout sz buf bytes =
     (let start = buf + sz; limit = buf + bytes - 4
      in \<lparr>mp_wrptr = start, mp_start = start, mp_end = limit,
          mp_last_safe_wrptr = limit - 4 * ((MIN_USAGE + 3) div 4)\<rparr>)"

text \<open>
  The dummy buffer (\<open>dummy_buf\<close>, at address \<open>d\<close>): room for one header; a packet that finds no
  space is received into it and dropped. The result is the memory, \<open>dummy_packet\<close> and
  \<open>dummy_end_ptr\<close>.
\<close>

definition init_dummy_buf :: "int \<Rightarrow> addr \<Rightarrow> mem \<Rightarrow> mem \<times> addr \<times> addr" where
  "init_dummy_buf sz d m =
     (let info = mempool_layout sz d (4 * ((sz + MIN_USAGE + 4) div 4))
      in (m(mp_start info := 0, mp_end info := word_of_int (mp_start info)),
          mp_wrptr info, mp_wrptr info + MII_PACKET_HEADER_BYTES))"

text \<open>
  Setting up a memory also sets up the dummy buffer, the first time: \<open>dummy\<close> stands for the two
  static pointers, \<open>None\<close> while \<^verbatim>\<open>dummy_buf[0]\<close> is zero.
\<close>

definition mii_init_mempool ::
    "int \<Rightarrow> addr \<Rightarrow> (addr \<times> addr) option \<Rightarrow> mem \<Rightarrow> addr \<Rightarrow> int \<Rightarrow>
     (mempool_info_t \<times> (addr \<times> addr) option \<times> mem) option" where
  "mii_init_mempool sz d dummy m buf bytes =
     (if bytes < 4 then None
      else (let (m, dummy) = (case dummy of
                  None \<Rightarrow> (let (m, dp) = init_dummy_buf sz d m in (m, Some dp))
                | Some dp \<Rightarrow> (m, Some dp));
                info = mempool_layout sz buf bytes
            in Some (info, dummy,
                 m(mp_start info := 0, mp_end info := word_of_int (mp_start info)))))"

definition mii_get_wrap_ptr :: "mempool_info_t \<Rightarrow> addr" where
  "mii_get_wrap_ptr info = mp_end info"

definition mii_reserve_at_least :: "mempool_info_t \<Rightarrow> addr \<Rightarrow> int \<Rightarrow> addr" where
  "mii_reserve_at_least info rdptr min_size =
     (let wrptr = mp_wrptr info
      in if rdptr = 0 then wrptr
         else (let space_left = rdptr - wrptr;
                   space_left = (if space_left \<le> 0 then space_left + (mp_end info - mp_start info)
                                 else space_left)
               in if space_left < min_size then 0 else wrptr))"

text \<open>The result is the packet address and the \<open>end_ptr\<close> out parameter.\<close>

definition mii_reserve :: "addr \<times> addr \<Rightarrow> mempool_info_t \<Rightarrow> addr \<Rightarrow> addr \<times> addr" where
  "mii_reserve dummy info rdptr =
     (let wrptr = mp_wrptr info
      in if rdptr > wrptr \<and> rdptr - wrptr < MIN_USAGE then dummy
         else (wrptr, rdptr))"

definition mii_commit :: "mempool_info_t \<Rightarrow> addr \<Rightarrow> mempool_info_t" where
  "mii_commit info end_ptr =
     info\<lparr>mp_wrptr := (if end_ptr > mp_last_safe_wrptr info then mp_start info else end_ptr)\<rparr>"

text \<open>
  The pointer step shared by every loop over packet data: move one word on and, at the wrap
  pointer, load the start address from there (\<open>dptr++; if (dptr == wrap_ptr) dptr = *dptr;\<close>).
\<close>

definition next_ptr :: "mem \<Rightarrow> addr \<Rightarrow> addr \<Rightarrow> addr" where
  "next_ptr m wrap_ptr dptr =
     (let dptr = dptr + 4 in if dptr = wrap_ptr then uint (m dptr) else dptr)"

section \<open>Slots of the ring and the invariant\<close>

definition mp_words :: "mempool_info_t \<Rightarrow> nat" where
  "mp_words p = nat ((mp_end p - mp_start p) div 4)"

definition mp_slot :: "mempool_info_t \<Rightarrow> nat \<Rightarrow> addr" where
  "mp_slot p i = mp_start p + 4 * int (i mod mp_words p)"

definition mp_index :: "mempool_info_t \<Rightarrow> addr \<Rightarrow> nat" where
  "mp_index p a = nat ((a - mp_start p) div 4)"

text \<open>An address of the block: word aligned to the start, before the end.\<close>

definition in_pool :: "mempool_info_t \<Rightarrow> addr \<Rightarrow> bool" where
  "in_pool p a \<longleftrightarrow> mp_start p \<le> a \<and> a < mp_end p \<and> 4 dvd (a - mp_start p)"

definition mp_ok :: "mempool_info_t \<Rightarrow> mem \<Rightarrow> bool" where
  "mp_ok p m \<longleftrightarrow> 0 < mp_start p \<and> mp_start p mod 4 = 0 \<and> mp_end p < 2 ^ 32 \<and>
     4 dvd (mp_end p - mp_start p) \<and>
     mp_last_safe_wrptr p = mp_end p - MIN_USAGE \<and>
     mp_wrptr p \<le> mp_last_safe_wrptr p \<and> in_pool p (mp_wrptr p) \<and>
     m (mp_end p) = word_of_int (mp_start p)"

lemma MIN_USAGE_56: "MIN_USAGE = 56"
  by (simp add: MIN_USAGE_def)

lemma mp_end_words:
  assumes "mp_ok p m"
  shows "mp_end p = mp_start p + 4 * int (mp_words p)" "14 \<le> mp_words p"
  using assms by (auto simp: mp_ok_def mp_words_def in_pool_def MIN_USAGE_56 elim!: dvdE)

lemma in_pool_slot:
  assumes "mp_ok p m" "in_pool p a"
  shows "mp_slot p (mp_index p a) = a" "mp_index p a < mp_words p"
proof -
  obtain k where k: "a - mp_start p = 4 * k" using assms(2) by (auto simp: in_pool_def)
  have "a < mp_start p + 4 * int (mp_words p)" "mp_start p \<le> a"
    using assms mp_end_words [OF assms(1)] by (auto simp: in_pool_def)
  with k show lt: "mp_index p a < mp_words p" by (simp add: mp_index_def nat_less_iff)
  then show "mp_slot p (mp_index p a) = a"
    using k \<open>mp_start p \<le> a\<close> by (simp add: mp_slot_def) (simp add: mp_index_def)
qed

lemma slot_in_pool:
  assumes "mp_ok p m"
  shows "in_pool p (mp_slot p i)"
proof -
  have "i mod mp_words p < mp_words p" using mp_end_words(2) [OF assms] by simp
  then show ?thesis using mp_end_words(1) [OF assms] by (simp add: in_pool_def mp_slot_def)
qed

lemma slot_inj:
  assumes "mp_ok p m"
  shows "mp_slot p i = mp_slot p j \<longleftrightarrow> i mod mp_words p = j mod mp_words p"
  by (simp add: mp_slot_def)

lemma mp_index_slot:
  assumes "mp_ok p m"
  shows "mp_index p (mp_slot p i) = i mod mp_words p"
  by (simp add: mp_index_def mp_slot_def)

lemma next_ptr_slot:
  assumes ok: "mp_ok p m" and wrap: "m' (mp_end p) = word_of_int (mp_start p)"
  shows "next_ptr m' (mp_end p) (mp_slot p i) = mp_slot p (Suc i)"
proof -
  have N: "14 \<le> mp_words p" and e: "mp_end p = mp_start p + 4 * int (mp_words p)"
    using mp_end_words [OF ok] by auto
  have "0 < mp_start p" "mp_start p < 2 ^ 32" using ok e N by (auto simp: mp_ok_def)
  then have u: "uint (m' (mp_end p)) = mp_start p" unfolding wrap by (simp add: uint_word_of_int)
  show ?thesis
  proof (cases "Suc (i mod mp_words p) = mp_words p")
    case True
    then have "mp_slot p i + 4 = mp_end p" "mp_slot p (Suc i) = mp_start p"
      using e by (simp_all add: mp_slot_def mod_Suc)
    then show ?thesis using u by (simp add: next_ptr_def)
  next
    case False
    then have "mp_slot p (Suc i) = mp_slot p i + 4" by (simp add: mp_slot_def mod_Suc)
    moreover have "mp_slot p (Suc i) < mp_end p"
      using slot_in_pool [OF ok, of "Suc i"] by (simp add: in_pool_def)
    ultimately show ?thesis by (simp add: next_ptr_def)
  qed
qed

text \<open>A packet header and the first four data words never wrap: this is what \<open>MIN_USAGE\<close> is for.\<close>

lemma wrptr_slot:
  assumes "mp_ok p m" "k \<le> 14"
  shows "mp_wrptr p + 4 * int k = mp_start p + 4 * int (mp_index p (mp_wrptr p) + k)"
    "mp_index p (mp_wrptr p) + 14 \<le> mp_words p"
proof -
  have "in_pool p (mp_wrptr p)" using assms by (simp add: mp_ok_def)
  then obtain j where j: "mp_wrptr p - mp_start p = 4 * j" "0 \<le> j"
    by (auto simp: in_pool_def)
  then have idx: "mp_index p (mp_wrptr p) = nat j" by (simp add: mp_index_def)
  show "mp_wrptr p + 4 * int k = mp_start p + 4 * int (mp_index p (mp_wrptr p) + k)"
    using j idx by simp
  have "mp_wrptr p + 56 \<le> mp_end p" using assms by (simp add: mp_ok_def MIN_USAGE_56)
  then show "mp_index p (mp_wrptr p) + 14 \<le> mp_words p"
    using j idx mp_end_words(1) [OF assms(1)] by simp
qed

section \<open>Initialisation and commit\<close>

text \<open>
  Setting up a packet memory in a block with room for one packet establishes the memory
  invariant (word-aligned layout, start address in the wrap word, the write pointer below the last
  safe address) with the write pointer at the start, and leaves the dummy packet allocated. The
  alignment hypotheses describe the buffers the tasks declare.
\<close>

lemma mii_init_mempool_ok:
  assumes "0 \<le> sz" "0 < buf + sz" "(buf + sz) mod 4 = 0" "sz + 60 \<le> bytes" "4 dvd (bytes - sz)"
    "buf + bytes \<le> 2 ^ 32"
  shows "\<exists>p dp m'. mii_init_mempool sz d dummy m buf bytes = Some (p, Some dp, m') \<and> mp_ok p m' \<and>
    mp_wrptr p = mp_start p \<and> mii_get_wrap_ptr p = buf + bytes - 4 \<and>
    dp = (case dummy of None \<Rightarrow> (d + sz, d + sz + MII_PACKET_HEADER_BYTES) | Some dp \<Rightarrow> dp)"
proof -
  let ?p = "mempool_layout sz buf bytes"
  have p: "mp_start ?p = buf + sz" "mp_wrptr ?p = buf + sz" "mp_end ?p = buf + bytes - 4"
    "mp_last_safe_wrptr ?p = buf + bytes - 60"
    by (simp_all add: mempool_layout_def Let_def MIN_USAGE_56)
  have d: "4 dvd (buf + bytes - 4 - (buf + sz))" using assms(5) by presburger
  have ok: "mp_ok ?p (m(mp_start ?p := 0, mp_end ?p := word_of_int (mp_start ?p)))" for m
    unfolding mp_ok_def in_pool_def p using assms d by (simp add: MIN_USAGE_56)
  show ?thesis
    using assms ok p
    by (cases dummy) (auto simp: mii_init_mempool_def Let_def init_dummy_buf_def mempool_layout_def
        mii_get_wrap_ptr_def)
qed

lemma mii_init_mempool_ok_witness:
  "\<exists>p dp m'. mii_init_mempool 20 0x8000 None (\<lambda>_. 0) 0x1000 1024 = Some (p, Some dp, m') \<and> mp_ok p m' \<and>
    mp_wrptr p = mp_start p \<and> mii_get_wrap_ptr p = 0x1000 + 1024 - 4 \<and>
    dp = (0x8000 + 20, 0x8000 + 20 + MII_PACKET_HEADER_BYTES)"
  using mii_init_mempool_ok [of 20 "0x1000" 1024 "0x8000" None "\<lambda>_. 0"] by simp

lemma mii_commit_ok:
  assumes ok: "mp_ok p m" and a: "in_pool p a"
  shows "mp_ok (mii_commit p a) m"
proof -
  have "mp_start p + 56 \<le> mp_end p" using mp_end_words [OF ok] by linarith
  then show ?thesis
    using assms by (auto simp: mp_ok_def mii_commit_def in_pool_def MIN_USAGE_56)
qed

lemma mii_commit_layout [simp]:
  "mp_start (mii_commit p a) = mp_start p" "mp_end (mii_commit p a) = mp_end p"
  "mp_words (mii_commit p a) = mp_words p" "mp_slot (mii_commit p a) i = mp_slot p i"
  "mp_index (mii_commit p a) b = mp_index p b" "in_pool (mii_commit p a) b = in_pool p b"
  by (simp_all add: mii_commit_def mp_words_def mp_slot_def mp_index_def in_pool_def)

text \<open>
  Committing makes the write pointer meet the read pointer in one case only: the packet ends in
  the last \<open>MIN_USAGE\<close> bytes, so that the write pointer wraps, and the oldest live packet is at
  the very start of the block.
\<close>

lemma mii_commit_meets:
  assumes "a \<noteq> r"
  shows "mp_wrptr (mii_commit p a) = r \<longleftrightarrow> a > mp_last_safe_wrptr p \<and> r = mp_start p"
  using assms by (auto simp: mii_commit_def)

section \<open>Free space\<close>

text \<open>
  The words free for the producer are those from the write pointer up to the oldest live packet
  at \<open>rdptr\<close>, all of them when there is none (\<open>rdptr\<close> null). The convention is that the two
  pointers differ; \<open>rd_ok\<close> says so.
\<close>

definition rd_ok :: "mempool_info_t \<Rightarrow> addr \<Rightarrow> bool" where
  "rd_ok p rdptr \<longleftrightarrow> rdptr = 0 \<or> in_pool p rdptr \<and> rdptr \<noteq> mp_wrptr p"

definition wr_dist :: "mempool_info_t \<Rightarrow> addr \<Rightarrow> nat" where
  "wr_dist p a = ring_dist (mp_words p) (mp_index p (mp_wrptr p)) (mp_index p a)"

definition free_words :: "mempool_info_t \<Rightarrow> addr \<Rightarrow> nat" where
  "free_words p rdptr = (if rdptr = 0 then mp_words p else wr_dist p rdptr)"

definition free_addr :: "mempool_info_t \<Rightarrow> addr \<Rightarrow> addr \<Rightarrow> bool" where
  "free_addr p rdptr a \<longleftrightarrow> in_pool p a \<and> wr_dist p a < free_words p rdptr"

text \<open>The slot \<open>i\<close> words after the write pointer.\<close>

definition wr_slot :: "mempool_info_t \<Rightarrow> nat \<Rightarrow> addr" where
  "wr_slot p i = mp_slot p (mp_index p (mp_wrptr p) + i)"

lemma words_pos: "mp_ok p m \<Longrightarrow> 0 < mp_words p"
  using mp_end_words(2) [of p m] by simp

lemma wr_index: "mp_ok p m \<Longrightarrow> mp_index p (mp_wrptr p) < mp_words p"
  using in_pool_slot [of p m "mp_wrptr p"] by (simp add: mp_ok_def)

lemma wr_dist_slot: "mp_ok p m \<Longrightarrow> i < mp_words p \<Longrightarrow> wr_dist p (wr_slot p i) = i"
  by (simp add: wr_dist_def wr_slot_def mp_index_slot ring_dist_unique [OF wr_index])

lemma wr_slot_dist: "mp_ok p m \<Longrightarrow> in_pool p a \<Longrightarrow> wr_slot p (wr_dist p a) = a"
  using in_pool_slot [of p m a] ring_dist_slot [OF wr_index, of p m "mp_index p a"]
  by (metis mod_mod_trivial mp_slot_def wr_dist_def wr_slot_def)

lemma wr_slot_in_pool: "mp_ok p m \<Longrightarrow> in_pool p (wr_slot p i)"
  by (simp add: wr_slot_def slot_in_pool)

lemma wr_slot_0: "mp_ok p m \<Longrightarrow> wr_slot p 0 = mp_wrptr p"
  using in_pool_slot [of p m "mp_wrptr p"] by (simp add: wr_slot_def mp_ok_def)

lemma wr_dist_bound: "mp_ok p m \<Longrightarrow> wr_dist p a < mp_words p"
  by (simp add: wr_dist_def ring_dist_below [OF words_pos])

lemma free_words_bounds:
  assumes ok: "mp_ok p m" and rd: "rd_ok p rdptr"
  shows "0 < free_words p rdptr" "free_words p rdptr \<le> mp_words p"
    "rdptr \<noteq> 0 \<Longrightarrow> wr_slot p (free_words p rdptr) = rdptr"
proof -
  show "free_words p rdptr \<le> mp_words p"
    using wr_dist_bound [OF ok] by (auto simp: free_words_def intro: less_imp_le)
  have e: "rdptr \<noteq> 0 \<Longrightarrow> wr_slot p (free_words p rdptr) = rdptr"
    using rd wr_slot_dist [OF ok] by (simp add: free_words_def rd_ok_def)
  then show "rdptr \<noteq> 0 \<Longrightarrow> wr_slot p (free_words p rdptr) = rdptr" .
  show "0 < free_words p rdptr"
  proof (rule gr0I)
    assume z: "free_words p rdptr = 0"
    then have "rdptr \<noteq> 0" using words_pos [OF ok] by (auto simp: free_words_def)
    then show False using e z rd wr_slot_0 [OF ok] by (simp add: rd_ok_def)
  qed
qed

lemma free_addr_slot:
  "mp_ok p m \<Longrightarrow> rd_ok p rdptr \<Longrightarrow> i < free_words p rdptr \<Longrightarrow> free_addr p rdptr (wr_slot p i)"
  using free_words_bounds(2) [of p m rdptr] by (simp add: free_addr_def wr_slot_in_pool wr_dist_slot)

lemma wr_slot_eq:
  "mp_ok p m \<Longrightarrow> i < mp_words p \<Longrightarrow> j < mp_words p \<Longrightarrow> wr_slot p i = wr_slot p j \<longleftrightarrow> i = j"
  by (metis wr_dist_slot)

lemma wr_slot_free:
  assumes "mp_ok p m" "free_addr p rdptr a"
  obtains i where "i < free_words p rdptr" "a = wr_slot p i"
  using assms that wr_slot_dist by (metis free_addr_def)

lemma next_ptr_wr_slot:
  "mp_ok p m \<Longrightarrow> m' (mp_end p) = word_of_int (mp_start p) \<Longrightarrow>
   next_ptr m' (mp_end p) (wr_slot p i) = wr_slot p (Suc i)"
  using next_ptr_slot [of p m m' "mp_index p (mp_wrptr p) + i"] by (simp add: wr_slot_def)

text \<open>The slot after a free one is free or is the read pointer: the producer stops there.\<close>

lemma free_addr_next:
  assumes ok: "mp_ok p m" and rd: "rd_ok p rdptr" and a: "free_addr p rdptr a"
    and wrap: "m' (mp_end p) = word_of_int (mp_start p)"
  shows "next_ptr m' (mp_end p) a = rdptr \<or> free_addr p rdptr (next_ptr m' (mp_end p) a)"
proof -
  obtain i where i: "i < free_words p rdptr" "a = wr_slot p i" by (rule wr_slot_free [OF ok a])
  have nx: "next_ptr m' (mp_end p) a = wr_slot p (Suc i)"
    using next_ptr_wr_slot [of p m m' i] ok wrap by (simp only: i(2))
  consider "Suc i < free_words p rdptr" | "Suc i = free_words p rdptr" "rdptr \<noteq> 0"
    | "Suc i = mp_words p" "rdptr = 0"
  proof (cases "Suc i = free_words p rdptr")
    case True
    then show ?thesis using that(2,3) by (cases "rdptr = 0") (simp_all add: free_words_def)
  next
    case False
    with i(1) show ?thesis by (intro that(1)) simp
  qed
  then show ?thesis
  proof cases
    case 1
    then show ?thesis unfolding nx by (simp add: free_addr_slot [OF ok rd])
  next
    case 2
    then show ?thesis unfolding nx using free_words_bounds(3) [OF ok rd] by simp
  next
    case 3
    then have "wr_slot p (Suc i) = wr_slot p 0" by (simp add: wr_slot_def mp_slot_def)
    then show ?thesis
      unfolding nx by (simp add: free_addr_slot [OF ok rd] free_words_bounds(1) [OF ok rd])
  qed
qed

text \<open>The space left as \<open>mii_reserve_at_least\<close> computes it is the number of free bytes.\<close>

lemma space_left_words:
  assumes ok: "mp_ok p m" and a: "in_pool p a" "a \<noteq> mp_wrptr p"
  shows "(if a - mp_wrptr p \<le> 0 then a - mp_wrptr p + (mp_end p - mp_start p) else a - mp_wrptr p) =
    4 * int (wr_dist p a)"
proof -
  let ?w = "mp_index p (mp_wrptr p)" and ?i = "mp_index p a" and ?N = "mp_words p"
  have i: "?i < ?N" "mp_slot p ?i = a" by (rule in_pool_slot [OF ok a(1)])+
  then have ai: "a = mp_start p + 4 * int ?i" by (simp add: mp_slot_def)
  have w: "mp_wrptr p = mp_start p + 4 * int ?w" "?w + 14 \<le> ?N"
    using wrptr_slot [OF ok, of 0] by simp_all
  have e: "mp_end p = mp_start p + 4 * int ?N" by (rule mp_end_words(1) [OF ok])
  have d: "wr_dist p a = (if ?w \<le> ?i then ?i - ?w else ?i + ?N - ?w)"
    using i(1) w(2) by (simp add: wr_dist_def ring_dist_def mod_below_twice)
  have "?i \<noteq> ?w" using a(2) ai w(1) by auto
  then show ?thesis using ai w e unfolding d by (auto simp: of_nat_diff)
qed

lemma wr_dist_ptr:
  assumes ok: "mp_ok p m" and a: "in_pool p a"
  shows "a = mp_wrptr p + 4 * int (wr_dist p a) \<and> mp_wrptr p \<le> a \<or>
    a < mp_wrptr p \<and> 14 \<le> wr_dist p a"
proof -
  let ?w = "mp_index p (mp_wrptr p)" and ?i = "mp_index p a" and ?N = "mp_words p"
  have i: "?i < ?N" "mp_slot p ?i = a" by (rule in_pool_slot [OF ok a])+
  then have ai: "a = mp_start p + 4 * int ?i" by (simp add: mp_slot_def)
  have w: "mp_wrptr p = mp_start p + 4 * int ?w" "?w + 14 \<le> ?N"
    using wrptr_slot [OF ok, of 0] by simp_all
  have d: "wr_dist p a = (if ?w \<le> ?i then ?i - ?w else ?i + ?N - ?w)"
    using i(1) w(2) by (simp add: wr_dist_def ring_dist_def mod_below_twice)
  show ?thesis
  proof (cases "?w \<le> ?i")
    case True
    then show ?thesis using ai w(1) by (simp add: d)
  next
    case False
    then show ?thesis using ai w by (simp add: d)
  qed
qed

text \<open>
  \<open>mii_reserve\<close> gives up (returns the dummy buffer) exactly when fewer than 14 words are
  free before the oldest live packet; otherwise it hands out the write pointer with the read
  pointer as the limit. Below the write pointer the test needs no arithmetic because the write
  pointer is never in the last \<open>MIN_USAGE\<close> bytes. The hypothesis is the convention that the
  read and write pointers differ while a packet is live.
\<close>

theorem mii_reserve_spec:
  assumes ok: "mp_ok p m" and rd: "rd_ok p rdptr"
  shows "mii_reserve dummy p rdptr = (if free_words p rdptr < 14 then dummy else (mp_wrptr p, rdptr))"
proof (cases "rdptr = 0")
  case True
  have "0 < mp_wrptr p" using ok by (auto simp: mp_ok_def in_pool_def)
  then show ?thesis using True mp_end_words(2) [OF ok] by (simp add: mii_reserve_def free_words_def)
next
  case False
  then have "in_pool p rdptr" "rdptr \<noteq> mp_wrptr p" using rd by (auto simp: rd_ok_def)
  then show ?thesis
    using wr_dist_ptr [OF ok, of rdptr] False
    by (auto simp: mii_reserve_def Let_def free_words_def MIN_USAGE_56)
qed

lemma mii_reserve_spec_witness:
  "mii_reserve (8, 48) \<lparr>mp_wrptr = 0x1008, mp_start = 0x1000, mp_end = 0x1050, mp_last_safe_wrptr = 0x1018\<rparr> 0x1030 =
   (if free_words \<lparr>mp_wrptr = 0x1008, mp_start = 0x1000, mp_end = 0x1050, mp_last_safe_wrptr = 0x1018\<rparr> 0x1030 < 14
    then (8, 48) else (0x1008, 0x1030))"
proof -
  let ?p = "\<lparr>mp_wrptr = 0x1008, mp_start = 0x1000, mp_end = 0x1050, mp_last_safe_wrptr = 0x1018\<rparr>"
  have "mp_ok ?p (\<lambda>_. 0x1000)" "rd_ok ?p 0x1030"
    by (simp_all add: mp_ok_def in_pool_def rd_ok_def MIN_USAGE_56)
  from mii_reserve_spec [OF this, of "(8, 48)"] show ?thesis by simp
qed

text \<open>A reserved header and the first four data words are free and contiguous.\<close>

lemma header_slots:
  assumes "mp_ok p m" "k < 14"
  shows "mp_wrptr p + 4 * int k = wr_slot p k"
  using wrptr_slot [OF assms(1), of k] assms(2) by (simp add: wr_slot_def mp_slot_def)

lemma pkt_data_slot: "mp_ok p m \<Longrightarrow> pkt_data (mp_wrptr p) = wr_slot p 10"
  using header_slots [of p m 10] by (simp add: pkt_data_def)

lemma fld_slot:
  assumes "mp_ok p m"
  obtains k where "k < 10" "mp_wrptr p + fld_off f = wr_slot p k"
proof -
  have "fld_off f = 4 * int (nat (fld_off f div 4))" "nat (fld_off f div 4) < 10" by (cases f; simp)+
  then show ?thesis using that header_slots [OF assms, of "nat (fld_off f div 4)"] by simp
qed

end
