(* ===== verification/Crc.thy ===== *)
theory Crc
  imports Prelude
begin

text \<open>
  The checksum unit of the xCORE, as the receive and transmit loops use it. The instructions
  \<^verbatim>\<open>crc32\<close> and \<^verbatim>\<open>crc8\<close> (\<^verbatim>\<open>crc8shr\<close> in XC) are part of the language: they shift the checksum
  register right once per data bit, insert the data bit at the top and, when the bit shifted out
  was set, add the polynomial. The frame check of the two transmitters and of the receivers, and
  the handling of a partial last word by \<open>mii_master_rx_pins\<close>, are proved against the bitwise
  reference checksum of IEEE 802.3.
\<close>

section \<open>The checksum instructions\<close>

definition crc_bit :: "u32 \<Rightarrow> bool \<Rightarrow> u32 \<Rightarrow> u32" where
  "crc_bit poly b crc =
     (let r = drop_bit 1 crc OR (if b then push_bit 31 1 else 0)
      in if bit crc 0 then r XOR poly else r)"

definition crc_bits :: "u32 \<Rightarrow> u32 \<Rightarrow> bool list \<Rightarrow> u32" where
  "crc_bits poly crc bs = fold (crc_bit poly) bs crc"

definition bits_of :: "nat \<Rightarrow> u32 \<Rightarrow> bool list" where
  "bits_of n w = map (bit w) [0..<n]"

definition crc32 :: "u32 \<Rightarrow> u32 \<Rightarrow> u32 \<Rightarrow> u32" where
  "crc32 crc data poly = crc_bits poly crc (bits_of 32 data)"

text \<open>\<open>crc8shr\<close> updates the checksum with the low byte and returns the data shifted by it.\<close>

definition crc8shr :: "u32 \<Rightarrow> u32 \<Rightarrow> u32 \<Rightarrow> u32 \<times> u32" where
  "crc8shr crc data poly = (crc_bits poly crc (bits_of 8 data), drop_bit 8 data)"

abbreviation POLY :: u32 where "POLY \<equiv> 0xEDB88320"

section \<open>Linearity\<close>

lemma crc_bits_append: "crc_bits p c (xs @ ys) = crc_bits p (crc_bits p c xs) ys"
  by (simp add: crc_bits_def)

lemma crc_bits_Nil [simp]: "crc_bits p c [] = c"
  by (simp add: crc_bits_def)

lemma crc_bits_Cons: "crc_bits p c (b # bs) = crc_bits p (crc_bit p b c) bs"
  by (simp add: crc_bits_def)

definition bxor :: "bool \<Rightarrow> bool \<Rightarrow> bool" where
  "bxor a b \<longleftrightarrow> a \<noteq> b"

lemma bit_top: "bit (2147483648 :: int) n \<longleftrightarrow> n = 31"
proof -
  have "(2147483648 :: int) = 2 ^ 31" by simp
  then show ?thesis by (simp only: bit_exp_iff) auto
qed

lemma bit_crc_bit:
  "i < 32 \<Longrightarrow> bit (crc_bit p b c) i \<longleftrightarrow>
     bxor (if i = 31 then b else bit c (Suc i)) (bit c 0 \<and> bit p i)"
  by (cases "i = 31") (auto simp: crc_bit_def Let_def bit_simps bit_top bxor_def dest: bit_imp_le_length)

lemma crc_bit_xor: "crc_bit p (bxor b b') (c XOR d) = crc_bit p b c XOR crc_bit p b' d"
  by (rule bit_word_eqI) (auto simp: bit_crc_bit bit_simps bxor_def)

lemma crc_bits_xor:
  "length xs = length ys \<Longrightarrow>
   crc_bits p (c XOR d) (map2 bxor xs ys) = crc_bits p c xs XOR crc_bits p d ys"
proof (induction xs ys arbitrary: c d rule: list_induct2)
  case Nil
  then show ?case by simp
next
  case (Cons x xs y ys)
  then show ?case by (simp add: crc_bits_Cons crc_bit_xor)
qed

lemma map2_bxor_False: "length xs = n \<Longrightarrow> map2 bxor (replicate n False) xs = xs"
  by (rule nth_equalityI) (auto simp: bxor_def)

text \<open>While the bits shifted out are clear, the unit is a plain shift register.\<close>

lemma bits_of_Suc: "bits_of (Suc n) w = bits_of n w @ [bit w n]"
  by (simp add: bits_of_def)

lemma length_bits_of [simp]: "length (bits_of n w) = n"
  by (simp add: bits_of_def)

lemma crc_bits_shift:
  assumes "n \<le> 32" "\<forall>i<n. \<not> bit r i"
  shows "crc_bits p r (bits_of n w) = drop_bit n r OR push_bit (32 - n) (take_bit n w)"
  using assms
proof (induction n)
  case 0
  then show ?case by (simp add: bits_of_def)
next
  case (Suc n)
  let ?s = "drop_bit n r OR push_bit (32 - n) (take_bit n w)"
  have "crc_bits p r (bits_of (Suc n) w) = crc_bit p (bit w n) ?s"
    using Suc by (simp add: bits_of_Suc crc_bits_append crc_bits_Cons)
  also have "\<dots> = drop_bit (Suc n) r OR push_bit (32 - Suc n) (take_bit (Suc n) w)"
  proof (rule bit_word_eqI)
    fix i assume "i < LENGTH(32)"
    then have i: "i < 32" by simp
    have clear: "\<not> bit ?s 0" using Suc.prems by (auto simp: bit_simps)
    show "bit (crc_bit p (bit w n) ?s) i \<longleftrightarrow>
        bit (drop_bit (Suc n) r OR push_bit (32 - Suc n) (take_bit (Suc n) w)) i"
    proof (cases "i = 31")
      case True
      with clear i Suc.prems(1) show ?thesis
        by (auto simp: bit_crc_bit bxor_def bit_simps dest: bit_imp_le_length)
    next
      case False
      have e: "32 - n \<le> Suc i \<longleftrightarrow> 32 - Suc n \<le> i" "Suc i - (32 - n) = i - (32 - Suc n)"
        "32 - Suc n \<le> i \<Longrightarrow> i - (32 - Suc n) < n \<and> i - (32 - Suc n) < Suc n"
        using i False Suc.prems(1) by auto
      show ?thesis
        using clear i False e Suc.prems(1)
        by (cases "32 - Suc n \<le> i") (simp_all add: bit_crc_bit bxor_def bit_simps)
    qed
  qed
  finally show ?case .
qed

lemma crc32_of_0: "crc32 0 w p = w"
  unfolding crc32_def by (subst crc_bits_shift) (simp_all add: take_bit_word_eq_self)

lemma bits_of_0: "bits_of n 0 = replicate n False"
  by (rule nth_equalityI) (simp_all add: bits_of_def)

text \<open>A whole data word enters the checksum by a single exclusive or.\<close>

lemma crc32_xor: "crc32 c w p = crc32 c 0 p XOR w"
proof -
  have "crc32 c w p = crc_bits p (c XOR 0) (map2 bxor (bits_of 32 0) (bits_of 32 w))"
    by (simp add: crc32_def bits_of_0 map2_bxor_False)
  also have "\<dots> = crc32 c 0 p XOR crc32 0 w p" by (simp only: crc_bits_xor length_bits_of crc32_def)
  finally show ?thesis by (simp add: crc32_of_0)
qed

section \<open>The reference checksum\<close>

text \<open>
  The checksum of IEEE 802.3 over a list of bits (each byte least significant bit first): start
  from all ones, step once per bit, complement the result.
\<close>

definition crc_ref_step :: "u32 \<Rightarrow> bool \<Rightarrow> u32" where
  "crc_ref_step d b = (if bit d 0 \<noteq> b then drop_bit 1 d XOR POLY else drop_bit 1 d)"

definition ieee_crc :: "bool list \<Rightarrow> u32" where
  "ieee_crc bs = NOT (foldl crc_ref_step 0xFFFFFFFF bs)"

lemma crc32_zero_word: "crc32 c 0 p = crc_bits p c (replicate 32 False)"
  by (simp add: crc32_def bits_of_0)

text \<open>
  Passing 32 zero bits through the unit turns its register into that of the reference: the
  hardware form, which inserts a bit 32 steps before it takes part, and the reference form, which
  compares it at once, agree bit by bit.
\<close>

lemma crc_bits_single_top: "crc_bits POLY 0x80000000 (replicate 32 False) = POLY"
  by code_simp

lemma crc_flush_step: "crc32 (crc_bit POLY b c) 0 POLY = crc_ref_step (crc32 c 0 POLY) b"
proof -
  have split: "crc_bit POLY b c = crc_bit POLY False c XOR (if b then 0x80000000 else 0)"
    by (rule bit_word_eqI) (auto simp: bit_crc_bit bit_simps bxor_def bit_top)
  have "crc32 (crc_bit POLY b c) 0 POLY =
      crc_bits POLY (crc_bit POLY False c XOR (if b then 0x80000000 else 0))
        (map2 bxor (replicate 32 False) (replicate 32 False))"
    by (simp only: crc32_zero_word split map2_bxor_False length_replicate)
  also have "\<dots> = crc_bits POLY (crc_bit POLY False c) (replicate 32 False) XOR
      crc_bits POLY (if b then 0x80000000 else 0) (replicate 32 False)"
    by (simp only: crc_bits_xor length_replicate)
  also have "crc_bits POLY (if b then 0x80000000 else 0) (replicate 32 False) = (if b then POLY else 0)"
    using crc32_of_0 [of 0 POLY] by (simp add: crc_bits_single_top crc32_zero_word)
  also have "crc_bits POLY (crc_bit POLY False c) (replicate 32 False) =
      crc_bit POLY False (crc32 c 0 POLY)"
    by (simp only: crc32_zero_word crc_bits_Cons [symmetric] replicate_Suc [symmetric]
        crc_bits_append [of _ _ _ "[False]", simplified crc_bits_Cons crc_bits_Nil, symmetric]
        replicate_append_same)
  finally show ?thesis
    by (simp add: crc_ref_step_def crc_bit_def Let_def xor.assoc)
qed

lemma crc_flush: "crc32 (crc_bits POLY c bs) 0 POLY = foldl crc_ref_step (crc32 c 0 POLY) bs"
  by (induction bs arbitrary: c) (simp_all add: crc_bits_Cons crc_flush_step)

section \<open>The preload constant and the frame check word\<close>

text \<open>
  \<^verbatim>\<open>0x9226F562\<close>, with which the receivers and the RGMII transmitter start, is the register the
  unit reaches 32 steps before all ones: starting from it equals complementing the first word.
\<close>

abbreviation CRC_PRELOAD :: u32 where "CRC_PRELOAD \<equiv> 0x9226F562"

lemma crc_preload_flush: "crc32 CRC_PRELOAD 0 POLY = 0xFFFFFFFF"
  unfolding crc32_zero_word by code_simp

lemma xor_all_ones: "(0xFFFFFFFF :: u32) XOR w = NOT w"
proof -
  have "(0xFFFFFFFF :: u32) = - 1" by simp
  then show ?thesis by (simp only: bit.xor_one_left)
qed

lemma xor_solve: "(a :: u32) XOR b = c \<Longrightarrow> b = a XOR c"
  by (auto simp: xor.assoc [symmetric])

lemma crc_preload_word: "crc32 CRC_PRELOAD w POLY = crc32 0 (NOT w) POLY"
  by (subst crc32_xor) (simp only: crc_preload_flush crc32_of_0 xor_all_ones)

lemma crc_fcs: "crc32 (crc_bits POLY CRC_PRELOAD bs) (NOT 0) POLY = ieee_crc bs"
proof -
  have "crc32 (crc_bits POLY CRC_PRELOAD bs) (NOT 0) POLY =
      foldl crc_ref_step 0xFFFFFFFF bs XOR NOT 0"
    by (subst crc32_xor) (simp only: crc_flush crc_preload_flush)
  then show ?thesis by (simp add: ieee_crc_def)
qed

text \<open>The register after a frame and its check word: all ones, for every frame.\<close>

lemma crc_residue: "crc_bits POLY CRC_PRELOAD (bs @ bits_of 32 (ieee_crc bs)) = NOT 0"
proof -
  let ?c = "crc_bits POLY CRC_PRELOAD bs"
  have "crc_bits POLY CRC_PRELOAD (bs @ bits_of 32 (ieee_crc bs)) = crc32 ?c (ieee_crc bs) POLY"
    by (simp add: crc_bits_append crc32_def)
  also have "\<dots> = crc32 ?c 0 POLY XOR (crc32 ?c 0 POLY XOR NOT 0)"
    unfolding crc_fcs [symmetric] by (subst (1 2) crc32_xor) (rule refl)
  finally show ?thesis by (simp add: xor.assoc [symmetric])
qed

text \<open>A frame whose last check bits differ from these leaves another register value.\<close>

lemma crc_residue_only:
  assumes "crc_bits POLY CRC_PRELOAD (bs @ bits_of 32 w) = NOT 0"
  shows "w = ieee_crc bs"
proof -
  let ?d = "crc32 (crc_bits POLY CRC_PRELOAD bs) 0 POLY"
  have "?d XOR w = crc32 (crc_bits POLY CRC_PRELOAD bs) w POLY"
    by (rule crc32_xor [symmetric])
  also have "\<dots> = NOT 0" using assms by (simp add: crc_bits_append crc32_def)
  finally have "w = ?d XOR NOT 0" by (rule xor_solve)
  also have "\<dots> = ieee_crc bs" by (subst crc_fcs [symmetric], rule crc32_xor [symmetric])
  finally show ?thesis .
qed

section \<open>Frames of bytes\<close>

definition byte_bits :: "u8 \<Rightarrow> bool list" where
  "byte_bits b = map (bit b) [0..<8]"

definition bytes_bits :: "u8 list \<Rightarrow> bool list" where
  "bytes_bits bs = concat (map byte_bits bs)"

definition word_bytes :: "u32 \<Rightarrow> u8 list" where
  "word_bytes w = map (\<lambda>k. ucast (drop_bit (8 * k) w)) [0..<4]"

lemma bits_of_byte: "bits_of 8 w = byte_bits (ucast w)"
  by (simp add: bits_of_def byte_bits_def bit_simps)

lemma bits_of_32_bytes: "bits_of 32 w = bytes_bits (word_bytes w)"
proof -
  have upt: "[0..<32] = map (\<lambda>i. 0 + i) [0..<8] @ map (\<lambda>i. 8 + i) [0..<8] @
      map (\<lambda>i. 16 + i) [0..<8] @ map (\<lambda>i. 24 + i) [0..<8::nat]"
    by code_simp
  show ?thesis unfolding bits_of_def upt
    by (simp add: bytes_bits_def word_bytes_def byte_bits_def bit_simps upt_conv_Cons comp_def)
qed

lemma bytes_bits_append [simp]: "bytes_bits (xs @ ys) = bytes_bits xs @ bytes_bits ys"
  by (simp add: bytes_bits_def)

end
