(* ===== verification/Mii_Tx.thy ===== *)
theory Mii_Tx
  imports Mempool Crc
begin

text \<open>
  The MII transmitter of \<^verbatim>\<open>lib_ethernet/src/mii_master.xc\<close>, \<open>mii_transmit_packet\<close>: preamble and
  start of frame, the packet a word at a time following the wrap of the packet memory, the last
  one to three bytes, and the frame check word. The port is the list of outputs made on it
  (\<^verbatim>\<open>p <: w\<close> shifts out 32 bits, \<^verbatim>\<open>partout(p, 8, w)\<close> eight, least significant first). The timer
  is a function \<open>clk\<close>: the value of its \<open>n\<close>-th input.
\<close>

section \<open>The transmit routine\<close>

datatype wire = Out32 u32 | Out8 u32

definition wire_bits :: "wire list \<Rightarrow> bool list" where
  "wire_bits ws = concat (map (\<lambda>w. case w of Out32 v \<Rightarrow> bits_of 32 v | Out8 v \<Rightarrow> bits_of 8 v) ws)"

text \<open>
  The word loop, \<^verbatim>\<open>do { ... } while (i < word_count)\<close>: the state is the data pointer, the word
  counter, the checksum, the number of timer inputs made and the outputs.
\<close>

record tx_loop =
  tl_dptr :: addr
  tl_i :: nat
  tl_crc :: u32
  tl_ticks :: nat
  tl_out :: "wire list"

definition tx_word :: "mem \<Rightarrow> addr \<Rightarrow> tx_loop \<Rightarrow> tx_loop" where
  "tx_word m wrap_ptr s =
     (let word = m (tl_dptr s)
      in \<lparr>tl_dptr = next_ptr m wrap_ptr (tl_dptr s), tl_i = tl_i s + 1,
          tl_crc = crc32 (tl_crc s) word POLY, tl_ticks = tl_ticks s + 1,
          tl_out = tl_out s @ [Out32 word]\<rparr>)"

function tx_words :: "mem \<Rightarrow> addr \<Rightarrow> nat \<Rightarrow> tx_loop \<Rightarrow> tx_loop" where
  "tx_words m wrap_ptr word_count s =
     (let s = tx_word m wrap_ptr s
      in if tl_i s < word_count then tx_words m wrap_ptr word_count s else s)"
  by pat_completeness auto
termination
  by (relation "measure (\<lambda>(m, wrap_ptr, word_count, s). word_count - tl_i s)")
     (auto simp: tx_word_def Let_def)

declare tx_words.simps [simp del]

text \<open>The fallthrough switch on the number of bytes in the last word.\<close>

fun tx_tail :: "nat \<Rightarrow> u32 \<Rightarrow> u32 \<Rightarrow> u32 \<times> wire list" where
  "tx_tail 0 crc word = (crc, [])"
| "tx_tail (Suc n) crc word =
     (let (crc', word') = crc8shr crc word POLY; (crc'', out) = tx_tail n crc' word'
      in (crc'', Out8 word # out))"

text \<open>
  The result: the outputs, the end of frame time \<open>ifg_time\<close>, and the start of frame time, which
  the routine reads only for a packet with a timestamp id
  (\<^verbatim>\<open>MII_TX_TIMESTAMP_END_OF_PACKET\<close> is 0).
\<close>

definition mii_transmit_packet ::
    "mempool_info_t \<Rightarrow> mem \<Rightarrow> addr \<Rightarrow> (nat \<Rightarrow> u32) \<Rightarrow> wire list \<times> u32 \<times> u32 option" where
  "mii_transmit_packet tx_mem m buf clk =
     (let word_count = unat (drop_bit 2 (getf m buf length_f));
          tail_byte_count = unat (getf m buf length_f AND 3);
          dptr = pkt_data buf;
          wrap_ptr = mii_get_wrap_ptr tx_mem;
          stamped = getf m buf timestamp_id_f \<noteq> 0;
          time = (if stamped then Some (clk 1) else None);
          word = m dptr;
          s = tx_words m wrap_ptr word_count
                \<lparr>tl_dptr = dptr + 4, tl_i = 1, tl_crc = crc32 0 (NOT word) POLY,
                 tl_ticks = (if stamped then 2 else 1),
                 tl_out = [Out32 0x55555555, Out32 0xD5555555, Out32 word]\<rparr>;
          (crc, tail) = (if tail_byte_count \<noteq> 0
                         then tx_tail tail_byte_count (tl_crc s) (m (tl_dptr s))
                         else (tl_crc s, []));
          crc = crc32 crc (NOT 0) POLY
      in (tl_out s @ tail @ [Out32 crc], clk (tl_ticks s - 1), time))"

section \<open>The bytes of a packet\<close>

text \<open>The first \<open>n\<close> bytes in the ring from slot \<open>k\<close> on, across the wrap.\<close>

definition slot_words :: "mempool_info_t \<Rightarrow> mem \<Rightarrow> nat \<Rightarrow> nat \<Rightarrow> u32 list" where
  "slot_words p m k n = map (\<lambda>i. m (mp_slot p (k + i))) [0..<n]"

definition slot_bytes :: "mempool_info_t \<Rightarrow> mem \<Rightarrow> nat \<Rightarrow> nat \<Rightarrow> u8 list" where
  "slot_bytes p m k n = take n (concat (map word_bytes (slot_words p m k ((n + 3) div 4))))"

lemma length_word_bytes [simp]: "length (word_bytes w) = 4"
  by (simp add: word_bytes_def)

lemma length_concat_word_bytes [simp]: "length (concat (map word_bytes ws)) = 4 * length ws"
  by (induction ws) auto

lemma length_slot_words [simp]: "length (slot_words p m k n) = n"
  by (simp add: slot_words_def)

lemma slot_words_Suc: "slot_words p m k (Suc n) = slot_words p m k n @ [m (mp_slot p (k + n))]"
  by (simp add: slot_words_def)

lemma bytes_bits_words: "bytes_bits (concat (map word_bytes ws)) = concat (map (bits_of 32) ws)"
  by (induction ws) (simp_all add: bits_of_32_bytes, simp add: bytes_bits_def)

lemma slot_bytes_split:
  assumes "t < 4"
  shows "slot_bytes p m k (4 * n + t) =
    concat (map word_bytes (slot_words p m k n)) @ take t (word_bytes (m (mp_slot p (k + n))))"
proof (cases "t = 0")
  case True
  have "(4 * n + 3) div 4 = n" by simp
  with True show ?thesis by (simp add: slot_bytes_def)
next
  case False
  with assms have "(4 * n + t + 3) div 4 = Suc n" by simp
  then show ?thesis by (simp add: slot_bytes_def slot_words_Suc)
qed

section \<open>Correctness\<close>

text \<open>What holds at the head of the word loop once \<open>n\<close> words of the packet are out.\<close>

definition tx_sent :: "mempool_info_t \<Rightarrow> mem \<Rightarrow> nat \<Rightarrow> nat \<Rightarrow> tx_loop \<Rightarrow> bool" where
  "tx_sent p m k n s \<longleftrightarrow> tl_i s = n \<and> tl_dptr s = mp_slot p (k + n) \<and>
     tl_crc s = crc_bits POLY CRC_PRELOAD (concat (map (bits_of 32) (slot_words p m k n))) \<and>
     tl_out s = [Out32 0x55555555, Out32 0xD5555555] @ map Out32 (slot_words p m k n)"

lemma tx_sent_step:
  assumes "mp_ok p m" "tx_sent p m k n s"
  shows "tx_sent p m k (Suc n) (tx_word m (mp_end p) s)"
  using assms next_ptr_slot [OF assms(1), of m "k + n"]
  by (simp add: tx_sent_def tx_word_def Let_def slot_words_Suc crc_bits_append crc32_def mp_ok_def)

lemma tx_words_sent:
  assumes "mp_ok p m" "tx_sent p m k n s"
  shows "tx_sent p m k (max (Suc n) wc) (tx_words m (mp_end p) wc s)"
  using assms(2)
proof (induction "wc - n" arbitrary: n s rule: less_induct)
  case less
  have step: "tx_sent p m k (Suc n) (tx_word m (mp_end p) s)"
    by (rule tx_sent_step [OF assms(1) less.prems])
  then have i: "tl_i (tx_word m (mp_end p) s) = Suc n" by (simp add: tx_sent_def)
  show ?case
  proof (cases "Suc n < wc")
    case True
    have "tx_sent p m k (max (Suc (Suc n)) wc) (tx_words m (mp_end p) wc (tx_word m (mp_end p) s))"
      using True by (intro less.hyps step) simp
    then show ?thesis
      using True i by (subst tx_words.simps) (simp add: Let_def max_def split: if_splits)
  next
    case False
    then show ?thesis using step i by (subst tx_words.simps) (simp add: Let_def max_def)
  qed
qed

lemma bits_of_split: "bits_of (8 * Suc n) w = bits_of 8 w @ bits_of (8 * n) (drop_bit 8 w)"
proof -
  have "[0..<8 * Suc n] = [0..<8] @ [8..<8 + 8 * n]"
    using upt_add_eq_append [of 0 8 "8 * n"] by simp
  moreover have "[8..<8 + 8 * n] = map (\<lambda>i. i + 8) [0..<8 * n]"
    by (simp add: map_add_upt add.commute)
  ultimately show ?thesis by (simp add: bits_of_def bit_simps comp_def add.commute)
qed

lemma tx_tail_bits:
  assumes "tx_tail n crc w = (crc', out)"
  shows "wire_bits out = bits_of (8 * n) w \<and> crc' = crc_bits POLY crc (bits_of (8 * n) w)"
  using assms
proof (induction n arbitrary: crc w crc' out)
  case 0
  then show ?case by (simp add: wire_bits_def bits_of_def)
next
  case (Suc n)
  obtain c o' where t: "tx_tail n (crc_bits POLY crc (bits_of 8 w)) (drop_bit 8 w) = (c, o')"
    by (cases "tx_tail n (crc_bits POLY crc (bits_of 8 w)) (drop_bit 8 w)")
  show ?case
    using Suc.prems Suc.IH [OF t] t unfolding bits_of_split
    by (auto simp: crc8shr_def Let_def wire_bits_def crc_bits_append)
qed

lemma take_word_bytes:
  "t < 4 \<Longrightarrow> take (Suc t) (word_bytes w) = ucast w # take t (word_bytes (drop_bit 8 w))"
  by (rule nth_equalityI)
     (auto simp: word_bytes_def nth_Cons' drop_bit_drop_bit numeral_2_eq_2 algebra_simps
        simp del: upt_conv_Cons split: nat.splits)

lemma bits_of_bytes: "t \<le> 4 \<Longrightarrow> bits_of (8 * t) w = bytes_bits (take t (word_bytes w))"
proof (induction t arbitrary: w)
  case 0
  then show ?case by (simp add: bits_of_def bytes_bits_def)
next
  case (Suc t)
  then show ?case
    unfolding bits_of_split by (simp add: take_word_bytes bits_of_byte bytes_bits_def)
qed

lemma wire_bits_append [simp]: "wire_bits (xs @ ys) = wire_bits xs @ wire_bits ys"
  by (simp add: wire_bits_def)

lemma wire_bits_words: "wire_bits (map Out32 ws) = concat (map (bits_of 32) ws)"
  by (simp add: wire_bits_def comp_def)

lemma wire_bits_Cons: "wire_bits (Out32 w # ws) = bits_of 32 w @ wire_bits ws"
  by (simp add: wire_bits_def)

lemma wire_bits_Nil [simp]: "wire_bits [] = []"
  by (simp add: wire_bits_def)

text \<open>The word count and the tail count are the quotient and remainder of the length.\<close>

lemma unat_and_3: "unat (w AND (3 :: u32)) = unat w mod 4"
proof -
  have "(3 :: u32) = mask 2" by (simp add: mask_eq_exp_minus_1)
  then have "w AND (3 :: u32) = take_bit 2 w" by (simp only: take_bit_eq_mask)
  then show ?thesis by (simp only: unsigned_take_bit_eq) (simp add: take_bit_eq_mod)
qed

lemma unat_drop_2: "unat (drop_bit 2 (w :: u32)) = unat w div 4"
  by (simp only: unat_drop_bit_eq) (simp add: drop_bit_eq_div)

lemma mii_transmit_packet_bits:
  assumes ok: "mp_ok p m" and data: "pkt_data buf = mp_slot p k" "pkt_data buf + 4 = mp_slot p (Suc k)"
    and len: "unat (getf m buf length_f) = n" "8 \<le> n"
  shows "wire_bits (fst (mii_transmit_packet p m buf clk)) =
    bytes_bits (replicate 7 0x55 @ [0xD5]) @ bytes_bits (slot_bytes p m k n) @
    bits_of 32 (ieee_crc (bytes_bits (slot_bytes p m k n)))"
proof -
  let ?init = "\<lparr>tl_dptr = pkt_data buf + 4, tl_i = 1, tl_crc = crc32 0 (NOT (m (pkt_data buf))) POLY,
    tl_ticks = (if getf m buf timestamp_id_f \<noteq> 0 then 2 else 1),
    tl_out = [Out32 0x55555555, Out32 0xD5555555, Out32 (m (pkt_data buf))]\<rparr>"
  let ?s = "tx_words m (mp_end p) (n div 4) ?init"
  let ?t = "n mod 4" let ?w = "m (tl_dptr ?s)"
  have "tx_sent p m k 1 ?init"
    using data crc_preload_word [of "m (pkt_data buf)"]
    by (simp add: tx_sent_def slot_words_def crc32_def)
  then have sent: "tx_sent p m k (n div 4) ?s"
  proof -
    have "max (Suc 1) (n div 4) = n div 4" using len(2) by (simp add: max_def)
    then show ?thesis using tx_words_sent [OF ok \<open>tx_sent p m k 1 ?init\<close>, of "n div 4"] by (simp only:)
  qed
  obtain crc tail where t: "tx_tail ?t (tl_crc ?s) ?w = (crc, tail)"
    by (cases "tx_tail ?t (tl_crc ?s) ?w")
  have out: "fst (mii_transmit_packet p m buf clk) = tl_out ?s @ tail @ [Out32 (crc32 crc (NOT 0) POLY)]"
    using t by (simp add: mii_transmit_packet_def Let_def len(1) unat_and_3 unat_drop_2
        mii_get_wrap_ptr_def split: prod.splits) auto
  have w: "?w = m (mp_slot p (k + n div 4))" using sent by (simp add: tx_sent_def)
  have bits: "concat (map (bits_of 32) (slot_words p m k (n div 4))) @ bits_of (8 * ?t) ?w =
      bytes_bits (slot_bytes p m k n)"
  proof -
    have "slot_bytes p m k n = slot_bytes p m k (4 * (n div 4) + ?t)" by simp
    then show ?thesis
      unfolding w slot_bytes_split [OF mod_less_divisor [OF zero_less_numeral]]
      by (simp add: bytes_bits_words bits_of_bytes)
  qed
  have pre: "wire_bits [Out32 0x55555555, Out32 0xD5555555] = bytes_bits (replicate 7 0x55 @ [0xD5])"
    by code_simp
  have crc: "crc32 crc (NOT 0) POLY = ieee_crc (bytes_bits (slot_bytes p m k n))"
    using tx_tail_bits [OF t] sent
    by (simp only: bits [symmetric] tx_sent_def crc_bits_append [symmetric] crc_fcs)
  show ?thesis
    unfolding out crc using tx_tail_bits [OF t] sent
    by (simp only: bits [symmetric] tx_sent_def wire_bits_append wire_bits_words pre append.assoc)
       (simp add: wire_bits_Cons)
qed

text \<open>
  C9. The transmitter puts on the wire exactly an Ethernet frame: seven preamble bytes and the
  start of frame delimiter, the bytes of the packet in order (read across the wrap of the packet
  memory, whatever the length modulo 4), and the IEEE 802.3 check sequence of these bytes. It
  holds for packets of at least eight bytes (the loop always sends two words).
\<close>

theorem mii_transmit_packet_frame:
  assumes ok: "mp_ok p m" and data: "pkt_data buf = mp_slot p k" "pkt_data buf + 4 = mp_slot p (Suc k)"
    and len: "unat (getf m buf length_f) = n" "8 \<le> n"
  shows "wire_bits (fst (mii_transmit_packet p m buf clk)) =
    bytes_bits (replicate 7 0x55 @ [0xD5]) @ bytes_bits (slot_bytes p m k n) @
    bits_of 32 (ieee_crc (bytes_bits (slot_bytes p m k n)))"
  by (rule mii_transmit_packet_bits [OF assms])

text \<open>A packet of 18 bytes in a memory of 20 words; its last word is at the start of the memory.\<close>

definition example_pool :: mempool_info_t where
  "example_pool = \<lparr>mp_wrptr = 0x1000, mp_start = 0x1000, mp_end = 0x1050, mp_last_safe_wrptr = 0x1018\<rparr>"

definition example_mem :: mem where
  "example_mem = (\<lambda>_. 0xA5A5A5A5)(0x1050 := 0x1000, 0x1018 := 18, 0x1000 := 0x0000BEEF)"

lemma example_packet:
  "mp_ok example_pool example_mem" "pkt_data 0x1018 = mp_slot example_pool 16"
  "pkt_data 0x1018 + 4 = mp_slot example_pool (Suc 16)" "unat (getf example_mem 0x1018 length_f) = 18"
  by (simp_all add: example_pool_def example_mem_def mp_ok_def in_pool_def MIN_USAGE_56 pkt_data_def
        mp_slot_def mp_words_def getf_def)

lemma mii_transmit_packet_frame_witness:
  "wire_bits (fst (mii_transmit_packet example_pool example_mem 0x1018 (\<lambda>_. 0))) =
    bytes_bits (replicate 7 0x55 @ [0xD5]) @ bytes_bits (slot_bytes example_pool example_mem 16 18) @
    bits_of 32 (ieee_crc (bytes_bits (slot_bytes example_pool example_mem 16 18)))"
  by (rule mii_transmit_packet_frame [OF example_packet]) simp

end
