(* ===== verification/Packet_Queue.thy ===== *)
theory Packet_Queue
  imports Fifo
begin

text \<open>
  The packet pointer queues of \<^verbatim>\<open>lib_ethernet/src/mii_buffering.c\<close> (\<open>packet_queue_info_t\<close>): a ring
  of 32 packet pointers in which a null pointer marks a free slot, entries may be freed out of
  order, and the read index skips over freed entries. The abstraction \<open>pq_items\<close> is the list of
  packets still queued, oldest first; \<open>pq_ok\<close> is the invariant ("the \<open>ptrs\<close> memory is kept full
  of 0s unless in use"). The search loop of \<open>mii_move_my_rd_index\<close> is a
  \<^theory_text>\<open>partial_function\<close>: \<open>None\<close> is a loop that never ends, and it is proved to end.
\<close>

section \<open>State and operations\<close>

abbreviation ETHERNET_NUM_PACKET_POINTERS :: u32 where
  "ETHERNET_NUM_PACKET_POINTERS \<equiv> 32"

record packet_queue_info_t =
  pq_rd_index :: u32
  pq_wr_index :: u32
  pq_ptrs :: "addr list"

definition mii_init_packet_queue :: packet_queue_info_t where
  "mii_init_packet_queue =
     \<lparr>pq_rd_index = 0, pq_wr_index = 0,
      pq_ptrs = replicate (unat ETHERNET_NUM_PACKET_POINTERS) 0\<rparr>"

definition mii_packet_queue_full :: "packet_queue_info_t \<Rightarrow> bool" where
  "mii_packet_queue_full q \<longleftrightarrow> pq_ptrs q ! unat (pq_wr_index q) \<noteq> 0"

definition mii_add_packet :: "packet_queue_info_t \<Rightarrow> addr \<Rightarrow> packet_queue_info_t" where
  "mii_add_packet q buf =
     (let wr_index = pq_wr_index q
      in q\<lparr>pq_ptrs := (pq_ptrs q)[unat wr_index := buf],
           pq_wr_index := increment_and_wrap_power_of_2 wr_index ETHERNET_NUM_PACKET_POINTERS\<rparr>)"

partial_function (option) mii_move_my_rd_index ::
    "packet_queue_info_t \<Rightarrow> u32 \<Rightarrow> u32 option" where
  "mii_move_my_rd_index q rd_index =
     (let rd_index = increment_and_wrap_power_of_2 rd_index ETHERNET_NUM_PACKET_POINTERS
      in if rd_index = pq_wr_index q then Some rd_index
         else if pq_ptrs q ! unat rd_index \<noteq> 0 then Some rd_index
         else mii_move_my_rd_index q rd_index)"

declare mii_move_my_rd_index.simps [code]

definition mii_free_index ::
    "packet_queue_info_t \<Rightarrow> u32 \<Rightarrow> (packet_queue_info_t \<times> u32) option" where
  "mii_free_index q index =
     (case (if pq_rd_index q = index then mii_move_my_rd_index q index
            else Some (pq_rd_index q)) of
        None \<Rightarrow> None
      | Some rd_index \<Rightarrow>
          Some (q\<lparr>pq_rd_index := rd_index, pq_ptrs := (pq_ptrs q)[unat index := 0]\<rparr>, rd_index))"

definition mii_free_current :: "packet_queue_info_t \<Rightarrow> packet_queue_info_t option" where
  "mii_free_current q = map_option fst (mii_free_index q (pq_rd_index q))"

definition mii_init_my_rd_index :: "packet_queue_info_t \<Rightarrow> u32" where
  "mii_init_my_rd_index q = pq_rd_index q"

definition mii_move_rd_index :: "packet_queue_info_t \<Rightarrow> packet_queue_info_t" where
  "mii_move_rd_index q =
     q\<lparr>pq_ptrs := (pq_ptrs q)[unat (pq_rd_index q) := 0],
       pq_rd_index :=
         increment_and_wrap_power_of_2 (pq_rd_index q) ETHERNET_NUM_PACKET_POINTERS\<rparr>"

definition mii_get_next_buf :: "packet_queue_info_t \<Rightarrow> addr" where
  "mii_get_next_buf q = pq_ptrs q ! unat (pq_rd_index q)"

definition mii_get_my_next_buf :: "packet_queue_info_t \<Rightarrow> u32 \<Rightarrow> addr" where
  "mii_get_my_next_buf q rd_index =
     (if pq_rd_index q = pq_wr_index q then 0 else pq_ptrs q ! unat rd_index)"

definition mii_get_next_rdptr :: "packet_queue_info_t \<Rightarrow> packet_queue_info_t \<Rightarrow> addr" where
  "mii_get_next_rdptr lp hp =
     (if pq_ptrs lp ! unat (pq_rd_index lp) \<noteq> 0 then pq_ptrs lp ! unat (pq_rd_index lp)
      else pq_ptrs hp ! unat (pq_rd_index hp))"

definition mii_get_rdptr :: "packet_queue_info_t \<Rightarrow> addr" where
  "mii_get_rdptr q = pq_ptrs q ! unat (pq_rd_index q)"

section \<open>Abstraction and invariant\<close>

definition pq_ring :: "packet_queue_info_t \<Rightarrow> addr list" where
  "pq_ring q = rotate (unat (pq_rd_index q)) (pq_ptrs q)"

definition pq_items :: "packet_queue_info_t \<Rightarrow> addr list" where
  "pq_items q = filter (\<lambda>p. p \<noteq> 0) (pq_ring q)"

text \<open>The number of slots between the read and the write index, freed entries included.\<close>

definition pq_used :: "packet_queue_info_t \<Rightarrow> nat" where
  "pq_used q =
     (if pq_rd_index q = pq_wr_index q then (if mii_get_next_buf q = 0 then 0 else 32)
      else ring_dist 32 (unat (pq_rd_index q)) (unat (pq_wr_index q)))"

definition pq_ok :: "packet_queue_info_t \<Rightarrow> bool" where
  "pq_ok q \<longleftrightarrow> length (pq_ptrs q) = 32 \<and> unat (pq_rd_index q) < 32 \<and> unat (pq_wr_index q) < 32 \<and>
     (0 < pq_used q \<longrightarrow> mii_get_next_buf q \<noteq> 0) \<and>
     (\<forall>k\<in>{pq_used q..<32}. pq_ring q ! k = 0)"

lemma length_pq_ring: "pq_ok q \<Longrightarrow> length (pq_ring q) = 32"
  by (simp add: pq_ok_def pq_ring_def)

lemma pq_ring_nth:
  "length (pq_ptrs q) = 32 \<Longrightarrow> k < 32 \<Longrightarrow>
   pq_ring q ! k = pq_ptrs q ! ((unat (pq_rd_index q) + k) mod 32)"
  by (simp add: pq_ring_def nth_rotate)

lemma pq_ring_0:
  assumes "pq_ok q"
  shows "pq_ring q ! 0 = mii_get_next_buf q"
  using assms by (simp add: pq_ring_nth pq_ok_def mii_get_next_buf_def)

lemma pq_used_le: "pq_used q \<le> 32"
  using ring_dist_below [of 32 "unat (pq_rd_index q)" "unat (pq_wr_index q)"]
  by (simp add: pq_used_def)

lemma pq_wr_slot:
  assumes "pq_ok q"
  shows "unat (pq_wr_index q) = (unat (pq_rd_index q) + pq_used q) mod 32"
  using assms ring_dist_slot [of "unat (pq_rd_index q)" 32 "unat (pq_wr_index q)"]
  by (auto simp: pq_ok_def pq_used_def)

lemma pq_free_slots:
  assumes "pq_ok q" "pq_used q \<le> k" "k < 32"
  shows "pq_ring q ! k = 0"
  using assms by (simp add: pq_ok_def)

lemma pq_used_0:
  assumes "pq_ok q"
  shows "pq_used q = 0 \<longleftrightarrow> mii_get_next_buf q = 0"
proof
  assume "pq_used q = 0"
  then have "pq_ring q ! 0 = 0" by (intro pq_free_slots [OF assms]) simp_all
  then show "mii_get_next_buf q = 0" by (simp add: pq_ring_0 [OF assms])
next
  assume "mii_get_next_buf q = 0"
  then show "pq_used q = 0" using assms by (auto simp: pq_ok_def)
qed

text \<open>The full test of the source is exact: the ring is full when all 32 slots are between the indices.\<close>

lemma pq_full_iff:
  assumes "pq_ok q"
  shows "mii_packet_queue_full q \<longleftrightarrow> pq_used q = 32"
proof (cases "pq_used q = 32")
  case True
  then have "pq_ring q ! 0 \<noteq> 0" using assms by (simp add: pq_ok_def pq_ring_0)
  moreover have "unat (pq_wr_index q) = unat (pq_rd_index q)"
    using pq_wr_slot [OF assms] True assms by (simp add: pq_ok_def)
  ultimately show ?thesis
    using True by (simp add: mii_packet_queue_full_def pq_ring_0 [OF assms] mii_get_next_buf_def)
next
  case False
  then have u: "pq_used q < 32" using pq_used_le [of q] by simp
  then have "pq_ring q ! pq_used q = 0" by (intro pq_free_slots [OF assms]) simp_all
  then have "pq_ptrs q ! unat (pq_wr_index q) = 0"
    using u assms by (simp add: pq_wr_slot [OF assms] pq_ring_nth pq_ok_def)
  with False show ?thesis by (simp add: mii_packet_queue_full_def)
qed

lemma pq_ring_split:
  assumes "pq_ok q"
  shows "pq_ring q = take (pq_used q) (pq_ring q) @ replicate (32 - pq_used q) 0"
proof -
  have "drop (pq_used q) (pq_ring q) = replicate (32 - pq_used q) 0"
    by (rule nth_equalityI)
      (simp_all add: length_pq_ring [OF assms] pq_free_slots [OF assms])
  then show ?thesis by (metis append_take_drop_id)
qed

lemma pq_items_take:
  assumes "pq_ok q"
  shows "pq_items q = filter (\<lambda>p. p \<noteq> 0) (take (pq_used q) (pq_ring q))"
proof -
  have "filter (\<lambda>p. p \<noteq> 0) (replicate (32 - pq_used q) (0::addr)) = []"
    by (simp add: filter_replicate)
  then show ?thesis
    unfolding pq_items_def by (subst pq_ring_split [OF assms]) (simp only: filter_append append_Nil2)
qed

lemma pq_items_empty_iff:
  assumes "pq_ok q"
  shows "pq_items q = [] \<longleftrightarrow> mii_get_next_buf q = 0"
proof
  assume e: "pq_items q = []"
  have "pq_ring q ! 0 \<in> set (pq_ring q)" using length_pq_ring [OF assms] by (intro nth_mem) simp
  with e show "mii_get_next_buf q = 0"
    by (auto simp: pq_items_def pq_ring_0 [OF assms, symmetric] filter_empty_conv)
next
  assume "mii_get_next_buf q = 0"
  then show "pq_items q = []" by (simp add: pq_items_take [OF assms] flip: pq_used_0 [OF assms])
qed

lemma pq_ring_Cons:
  assumes "pq_ok q"
  shows "pq_ring q = mii_get_next_buf q # tl (pq_ring q)"
  using length_pq_ring [OF assms] pq_ring_0 [OF assms]
  by (cases "pq_ring q") auto

lemma pq_front_items:
  assumes "pq_ok q"
  shows "mii_get_next_buf q = (case pq_items q of [] \<Rightarrow> 0 | p # _ \<Rightarrow> p)"
proof (cases "mii_get_next_buf q = 0")
  case True
  then show ?thesis using pq_items_empty_iff [OF assms] by simp
next
  case False
  then have "pq_items q = mii_get_next_buf q # filter (\<lambda>p. p \<noteq> 0) (tl (pq_ring q))"
    unfolding pq_items_def by (subst pq_ring_Cons [OF assms]) simp
  then show ?thesis by simp
qed

text \<open>How to establish the invariant from the number of slots in use.\<close>

lemma pq_okI:
  assumes len: "length (pq_ptrs q) = 32" and rd: "unat (pq_rd_index q) < 32"
    and wr: "unat (pq_wr_index q) = (unat (pq_rd_index q) + u) mod 32" and u: "u \<le> 32"
    and first: "0 < u \<Longrightarrow> pq_ring q ! 0 \<noteq> 0"
    and free: "\<And>k. u \<le> k \<Longrightarrow> k < 32 \<Longrightarrow> pq_ring q ! k = 0"
  shows "pq_ok q \<and> pq_used q = u"
proof -
  have buf: "mii_get_next_buf q = pq_ring q ! 0"
    using len rd by (simp add: pq_ring_nth mii_get_next_buf_def)
  have used: "pq_used q = u"
  proof (cases "u = 0 \<or> u = 32")
    case True
    then have "pq_rd_index q = pq_wr_index q" using wr rd by (auto simp: word_unat_eq_iff)
    with True show ?thesis using first free by (auto simp: pq_used_def buf)
  next
    case False
    with u have u: "0 < u" "u < 32" by auto
    have "unat (pq_wr_index q) \<noteq> unat (pq_rd_index q)"
      using ring_slot_inj [of "unat (pq_rd_index q)" 32 u 0] rd u by (simp add: wr)
    then have "pq_rd_index q \<noteq> pq_wr_index q" by auto
    then show ?thesis using rd u by (simp add: pq_used_def wr ring_dist_unique)
  qed
  show ?thesis using assms used buf by (auto simp: pq_ok_def)
qed

section \<open>Each operation keeps the invariant and acts on the abstract queue\<close>

lemma pq_init: "pq_ok mii_init_packet_queue \<and> pq_items mii_init_packet_queue = []"
proof -
  have "pq_ring mii_init_packet_queue = replicate 32 0"
    by (simp add: pq_ring_def mii_init_packet_queue_def)
  then have ok: "pq_ok mii_init_packet_queue \<and> pq_used mii_init_packet_queue = 0"
    by (intro pq_okI) (simp_all add: mii_init_packet_queue_def)
  then show ?thesis by (simp add: pq_items_take)
qed

lemma pq_add:
  assumes ok: "pq_ok q" and room: "\<not> mii_packet_queue_full q" and nn: "p \<noteq> 0"
  shows "pq_ok (mii_add_packet q p) \<and> pq_items (mii_add_packet q p) = pq_items q @ [p] \<and>
         pq_used (mii_add_packet q p) = pq_used q + 1"
proof -
  let ?u = "pq_used q" and ?q = "mii_add_packet q p"
  have u: "?u < 32" using room pq_used_le [of q] by (simp add: pq_full_iff [OF ok])
  have len: "length (pq_ptrs q) = 32" and rd: "unat (pq_rd_index q) < 32"
    using ok by (simp_all add: pq_ok_def)
  have ring: "pq_ring ?q = (pq_ring q)[?u := p]"
    using rotate_update [of ?u "pq_ptrs q" "unat (pq_rd_index q)" p] u len rd
    by (simp add: pq_ring_def mii_add_packet_def Let_def pq_wr_slot [OF ok])
  have wr: "unat (pq_wr_index ?q) = (unat (pq_rd_index ?q) + (?u + 1)) mod 32"
  proof -
    have "pq_wr_index q < 32" using ok by (simp add: pq_ok_def word_less_nat_alt)
    then have "unat (pq_wr_index ?q) = (unat (pq_wr_index q) + 1) mod 32"
      by (simp add: mii_add_packet_def Let_def wrap_power_of_2_unat)
    then show ?thesis
      by (simp add: mii_add_packet_def Let_def pq_wr_slot [OF ok] mod_Suc_eq)
  qed
  have ok': "pq_ok ?q \<and> pq_used ?q = ?u + 1"
  proof (rule pq_okI)
    have "pq_ring q ! 0 \<noteq> 0" if "?u \<noteq> 0" using that by (simp add: pq_ring_0 [OF ok] pq_used_0 [OF ok])
    then show "pq_ring ?q ! 0 \<noteq> 0"
      using nn by (cases "?u = 0") (simp_all add: ring length_pq_ring [OF ok])
    show "pq_ring ?q ! k = 0" if "?u + 1 \<le> k" "k < 32" for k
      using that pq_free_slots [OF ok, of k] by (simp add: ring)
  qed (use len rd u wr in \<open>simp_all add: mii_add_packet_def Let_def\<close>)
  have "take (?u + 1) ((pq_ring q)[?u := p]) = take ?u (pq_ring q) @ [p]"
    using u length_pq_ring [OF ok] by (simp add: take_Suc_conv_app_nth)
  then have "pq_items ?q = pq_items q @ [p]"
    using ok' nn by (simp add: pq_items_take [OF ok] pq_items_take ring)
  with ok' show ?thesis by simp
qed

text \<open>
  The search for the next used slot ends within one turn of the ring: it stops at the write
  index or at the first entry that is still in use, and everything it passed was free.
\<close>

lemma mii_move_my_rd_index_spec:
  assumes "unat i < 32" "unat (pq_wr_index q) < 32"
  shows "\<exists>j m. mii_move_my_rd_index q i = Some j \<and> 0 < m \<and> m \<le> 32 \<and> unat j = (unat i + m) mod 32 \<and>
     (j = pq_wr_index q \<or> pq_ptrs q ! unat j \<noteq> 0) \<and>
     (\<forall>k. 0 < k \<and> k < m \<longrightarrow> (unat i + k) mod 32 \<noteq> unat (pq_wr_index q) \<and>
        pq_ptrs q ! ((unat i + k) mod 32) = 0)"
  using assms
proof (induction "ring_dist 32 ((unat i + 1) mod 32) (unat (pq_wr_index q))" arbitrary: i
    rule: less_induct)
  case less
  let ?w = "unat (pq_wr_index q)"
  define j where "j = increment_and_wrap_power_of_2 i 32"
  have j: "unat j = (unat i + 1) mod 32"
    using less.prems by (simp add: j_def wrap_power_of_2_unat word_less_nat_alt)
  have unfold: "mii_move_my_rd_index q i =
      (if j = pq_wr_index q \<or> pq_ptrs q ! unat j \<noteq> 0 then Some j else mii_move_my_rd_index q j)"
    by (subst mii_move_my_rd_index.simps) (simp add: j_def Let_def)
  show ?case
  proof (cases "j = pq_wr_index q \<or> pq_ptrs q ! unat j \<noteq> 0")
    case True
    with j unfold show ?thesis by (intro exI [of _ j] exI [of _ 1]) auto
  next
    case False
    then have ne: "unat j \<noteq> ?w" by (simp add: word_unat_eq_iff)
    have j32: "unat j < 32" using j by simp
    have step: "ring_dist 32 ((unat j + 1) mod 32) ?w + 1 = ring_dist 32 (unat j) ?w"
      using ne j32 less.prems(2) by (auto simp: ring_dist_def mod_below_twice split: if_splits)
    then have "ring_dist 32 ((unat j + 1) mod 32) ?w < ring_dist 32 ((unat i + 1) mod 32) ?w"
      using j by simp
    from less.hyps [OF this j32 less.prems(2)] obtain r m where
      r: "mii_move_my_rd_index q j = Some r" and m: "0 < m" "m \<le> 32" "unat r = (unat j + m) mod 32"
      and stop: "r = pq_wr_index q \<or> pq_ptrs q ! unat r \<noteq> 0"
      and passed: "\<forall>k. 0 < k \<and> k < m \<longrightarrow> (unat j + k) mod 32 \<noteq> ?w \<and> pq_ptrs q ! ((unat j + k) mod 32) = 0"
      by blast
    have shift: "(unat j + k) mod 32 = (unat i + Suc k) mod 32" for k
      by (simp add: j mod_Suc_eq mod_add_left_eq)
    have "m < 32"
    proof (rule ccontr)
      assume "\<not> m < 32"
      with m have m32: "m = 32" by simp
      define d where "d = ring_dist 32 (unat j) ?w"
      have "d < 32" "(unat j + d) mod 32 = ?w" "d \<noteq> 0"
        using j32 less.prems(2) ne ring_dist_eq_0 [of "unat j" 32 ?w]
        by (auto simp: d_def ring_dist_below ring_dist_slot)
      with passed m32 show False by auto
    qed
    moreover have "(unat i + k) mod 32 \<noteq> ?w \<and> pq_ptrs q ! ((unat i + k) mod 32) = 0"
      if "0 < k" "k < Suc m" for k
    proof (cases "k = 1")
      case True
      with False ne j show ?thesis by auto
    next
      case False
      with that passed [rule_format, of "k - 1"] shift [of "k - 1"] show ?thesis by simp
    qed
    ultimately show ?thesis
      using r m stop unfold False shift [of m] by (intro exI [of _ r] exI [of _ "Suc m"]) auto
  qed
qed

text \<open>The ring after clearing slot \<open>i\<close>, seen from the old read index.\<close>

lemma pq_ring_clear:
  assumes "pq_ok q" "unat i < 32"
  shows "rotate (unat (pq_rd_index q)) ((pq_ptrs q)[unat i := 0]) =
     (pq_ring q)[ring_dist 32 (unat (pq_rd_index q)) (unat i) := 0]"
  using rotate_update [of "ring_dist 32 (unat (pq_rd_index q)) (unat i)" "pq_ptrs q"
      "unat (pq_rd_index q)" 0] assms
  by (simp add: pq_ok_def pq_ring_def ring_dist_below ring_dist_slot)

lemma pq_free_other:
  assumes ok: "pq_ok q" and i: "unat i < 32" "i \<noteq> pq_rd_index q"
  shows "\<exists>q'. mii_free_index q i = Some (q', pq_rd_index q') \<and> pq_ok q' \<and>
     pq_rd_index q' = pq_rd_index q \<and>
     pq_items q' = filter (\<lambda>p. p \<noteq> 0)
       ((pq_ring q)[ring_dist 32 (unat (pq_rd_index q)) (unat i) := 0])"
proof -
  let ?k = "ring_dist 32 (unat (pq_rd_index q)) (unat i)"
  define q' where "q' = q\<lparr>pq_ptrs := (pq_ptrs q)[unat i := 0]\<rparr>"
  have ring: "pq_ring q' = (pq_ring q)[?k := 0]"
    using pq_ring_clear [OF ok i(1)] by (simp add: q'_def pq_ring_def)
  have k: "?k \<noteq> 0" "?k < 32"
    using i ok by (auto simp: ring_dist_eq_0 pq_ok_def ring_dist_below word_unat_eq_iff)
  have "pq_ok q' \<and> pq_used q' = pq_used q"
  proof (rule pq_okI)
    show "pq_ring q' ! 0 \<noteq> 0" if "0 < pq_used q"
      using that k(1) by (simp add: ring pq_ring_0 [OF ok] flip: pq_used_0 [OF ok])
    show "pq_ring q' ! j = 0" if "pq_used q \<le> j" "j < 32" for j
      using that pq_free_slots [OF ok that]
      by (cases "j = ?k") (simp_all add: ring length_pq_ring [OF ok])
  qed (use ok pq_wr_slot [OF ok] in \<open>simp_all add: q'_def pq_ok_def pq_used_le\<close>)
  then show ?thesis
    using i by (intro exI [of _ q']) (simp add: mii_free_index_def q'_def pq_items_def ring [unfolded q'_def])
qed

lemma pq_free_oldest:
  assumes ok: "pq_ok q"
  shows "\<exists>q'. mii_free_index q (pq_rd_index q) = Some (q', pq_rd_index q') \<and> pq_ok q' \<and>
     pq_items q' = filter (\<lambda>p. p \<noteq> 0) ((pq_ring q)[0 := 0])"
proof -
  let ?r = "unat (pq_rd_index q)" and ?u = "pq_used q"
  have len: "length (pq_ptrs q) = 32" and rd: "?r < 32" and w32: "unat (pq_wr_index q) < 32"
    using ok by (simp_all add: pq_ok_def)
  obtain j m where j: "mii_move_my_rd_index q (pq_rd_index q) = Some j"
    and m: "0 < m" "m \<le> 32" "unat j = (?r + m) mod 32"
    and stop: "j = pq_wr_index q \<or> pq_ptrs q ! unat j \<noteq> 0"
    and passed: "\<And>k. 0 < k \<Longrightarrow> k < m \<Longrightarrow>
      (?r + k) mod 32 \<noteq> unat (pq_wr_index q) \<and> pq_ptrs q ! ((?r + k) mod 32) = 0"
    using mii_move_my_rd_index_spec [OF rd w32] by blast
  define q' where "q' = q\<lparr>pq_rd_index := j, pq_ptrs := (pq_ptrs q)[?r := 0]\<rparr>"
  define cleared where "cleared = (pq_ring q)[0 := 0]"
  have lc: "length cleared = 32" by (simp add: cleared_def length_pq_ring [OF ok])
  have zeros: "cleared ! k = 0" if "k < m" for k
    using that passed [of k] m(2) len pq_ring_nth [OF len, of k]
    by (cases "k = 0") (simp_all add: cleared_def length_pq_ring [OF ok])
  have ring: "pq_ring q' = rotate m cleared"
  proof -
    have "pq_ring q' = rotate (?r + m) ((pq_ptrs q)[?r := 0])"
      using m(3) len by (simp add: pq_ring_def q'_def) (metis length_list_update rotate_conv_mod)
    also have "\<dots> = rotate m (rotate ?r ((pq_ptrs q)[?r := 0]))"
      by (simp add: rotate_rotate add.commute)
    finally show ?thesis using pq_ring_clear [OF ok rd] by (simp add: cleared_def)
  qed
  have ring_nth: "pq_ring q' ! k = cleared ! ((m + k) mod 32)" if "k < 32" for k
    using that by (simp add: ring nth_rotate lc)
  have mu: "m \<le> ?u" if "0 < ?u"
    using passed [of ?u] that pq_wr_slot [OF ok] by (cases "m \<le> ?u") auto
  have "pq_ok q' \<and> pq_used q' = ?u - m"
  proof (rule pq_okI)
    show "unat (pq_wr_index q') = (unat (pq_rd_index q') + (?u - m)) mod 32"
    proof (cases "?u = 0")
      case True
      have "pq_ring q ! (m mod 32) = 0" using True by (intro pq_free_slots [OF ok]) simp_all
      then have "pq_ptrs q ! unat j = 0" using m(3) pq_ring_nth [OF len, of "m mod 32"]
        by (simp add: mod_add_right_eq)
      with stop show ?thesis using True w32 by (simp add: q'_def)
    next
      case False
      with mu have "((?r + m) mod 32 + (?u - m)) mod 32 = (?r + ?u) mod 32"
        by (intro ring_advance) simp
      then show ?thesis using m(3) pq_wr_slot [OF ok] by (simp add: q'_def)
    qed
    show "pq_ring q' ! 0 \<noteq> 0" if d: "0 < ?u - m"
    proof -
      have "m < 32" using d pq_used_le [of q] by linarith
      have "j \<noteq> pq_wr_index q"
      proof
        assume "j = pq_wr_index q"
        then have "(?r + m) mod 32 = (?r + ?u) mod 32" using m(3) pq_wr_slot [OF ok] by simp
        then have "?u = 32 \<and> m = 0 \<or> ?u = m"
          using d pq_used_le [of q] rd \<open>m < 32\<close> by (auto simp: mod_below_twice split: if_splits)
        with d m(1) show False by simp
      qed
      with stop have "pq_ptrs q ! unat j \<noteq> 0" by simp
      then show ?thesis using m \<open>m < 32\<close> len
        by (simp add: ring_nth cleared_def pq_ring_nth length_pq_ring [OF ok] nth_list_update)
    qed
    show "pq_ring q' ! k = 0" if k: "?u - m \<le> k" "k < 32" for k
    proof (cases "m + k < 32")
      case True
      then have "?u \<le> m + k" using k by simp
      with True pq_free_slots [OF ok this] show ?thesis using m(1) k by (simp add: ring_nth cleared_def)
    next
      case False
      then have "(m + k) mod 32 < m" using m k by (simp add: mod_below_twice)
      with zeros k show ?thesis by (simp add: ring_nth)
    qed
  qed (use len m pq_used_le [of q] in \<open>simp_all add: q'_def\<close>)
  moreover have "pq_items q' = filter (\<lambda>p. p \<noteq> 0) cleared"
    unfolding pq_items_def ring by (rule filter_rotate_skip) (use zeros m lc in auto)
  moreover have "mii_free_index q (pq_rd_index q) = Some (q', pq_rd_index q')"
    by (simp add: mii_free_index_def j q'_def)
  ultimately show ?thesis by (auto simp: cleared_def)
qed

lemma pq_free_index:
  assumes ok: "pq_ok q" and i: "unat i < 32"
  shows "\<exists>q'. mii_free_index q i = Some (q', pq_rd_index q') \<and> pq_ok q' \<and>
     pq_items q' = filter (\<lambda>p. p \<noteq> 0)
       ((pq_ring q)[ring_dist 32 (unat (pq_rd_index q)) (unat i) := 0])"
proof (cases "i = pq_rd_index q")
  case True
  then show ?thesis using pq_free_oldest [OF ok] by simp
next
  case False
  then show ?thesis using pq_free_other [OF ok i] by blast
qed

lemma pq_slot_item:
  assumes ok: "pq_ok q" and i: "unat i < 32"
  shows "pq_ring q ! ring_dist 32 (unat (pq_rd_index q)) (unat i) = pq_ptrs q ! unat i"
  using assms by (simp add: pq_ok_def pq_ring_nth ring_dist_below ring_dist_slot)

lemma pq_free_index_remove1:
  assumes ok: "pq_ok q" and i: "unat i < 32" and d: "distinct (pq_items q)"
    and p: "pq_ptrs q ! unat i = p" "p \<noteq> 0"
  obtains q' where "mii_free_index q i = Some (q', pq_rd_index q')" "pq_ok q'"
    "pq_items q' = remove1 p (pq_items q)"
proof -
  let ?k = "ring_dist 32 (unat (pq_rd_index q)) (unat i)"
  have "?k < length (pq_ring q)" by (simp add: length_pq_ring [OF ok] ring_dist_below)
  then have "filter (\<lambda>p. p \<noteq> 0) ((pq_ring q)[?k := 0]) = remove1 p (pq_items q)"
    using filter_clear_remove1 [of ?k "pq_ring q" "\<lambda>p. p \<noteq> 0" 0] p d pq_slot_item [OF ok i]
    by (simp add: pq_items_def)
  with pq_free_index [OF ok i] show ?thesis by (auto intro: that)
qed

text \<open>Freeing a slot that is already free changes nothing the users of the queue see.\<close>

lemma pq_free_index_free_slot:
  assumes ok: "pq_ok q" and i: "unat i < 32" and p: "pq_ptrs q ! unat i = 0"
  obtains q' where "mii_free_index q i = Some (q', pq_rd_index q')" "pq_ok q'"
    "pq_items q' = pq_items q"
proof -
  let ?k = "ring_dist 32 (unat (pq_rd_index q)) (unat i)"
  have "?k < length (pq_ring q)" by (simp add: length_pq_ring [OF ok] ring_dist_below)
  then have "filter (\<lambda>p. p \<noteq> 0) ((pq_ring q)[?k := 0]) = pq_items q"
    using filter_clear_other [of ?k "pq_ring q" "\<lambda>p. p \<noteq> 0" 0] p pq_slot_item [OF ok i]
    by (simp add: pq_items_def)
  with pq_free_index [OF ok i] show ?thesis by (auto intro: that)
qed

section \<open>The queue as a FIFO\<close>

text \<open>
  Transmit queues are consumed with \<open>mii_get_next_buf\<close> and \<open>mii_free_current\<close>, the queue of
  incoming packets with \<open>mii_get_next_buf\<close> and \<open>mii_move_rd_index\<close>, which steps by one slot and
  so relies on there being no freed entry in between (\<open>pq_dense\<close>).
\<close>

definition pq_front :: "packet_queue_info_t \<Rightarrow> addr option" where
  "pq_front q = (if mii_get_next_buf q = 0 then None else Some (mii_get_next_buf q))"

definition pq_room :: "packet_queue_info_t \<Rightarrow> bool" where
  "pq_room q \<longleftrightarrow> \<not> mii_packet_queue_full q"

definition pq_take :: "packet_queue_info_t \<Rightarrow> packet_queue_info_t" where
  "pq_take q = (case mii_free_current q of None \<Rightarrow> q | Some q' \<Rightarrow> q')"

definition pq_dense :: "packet_queue_info_t \<Rightarrow> bool" where
  "pq_dense q \<longleftrightarrow> pq_ok q \<and> (\<forall>k<pq_used q. pq_ring q ! k \<noteq> 0)"

lemma pq_items_nonzero: "p \<in> set (pq_items q) \<Longrightarrow> p \<noteq> 0"
  by (simp add: pq_items_def)

lemma pq_items_tl:
  assumes ok: "pq_ok q"
  shows "filter (\<lambda>p. p \<noteq> 0) (tl (pq_ring q)) = tl (pq_items q)"
proof -
  have "pq_items q = filter (\<lambda>p. p \<noteq> 0) (mii_get_next_buf q # tl (pq_ring q))"
    by (simp only: pq_items_def pq_ring_Cons [OF ok, symmetric])
  then show ?thesis
    using pq_items_empty_iff [OF ok] by (cases "mii_get_next_buf q = 0") simp_all
qed

lemma pq_free_current:
  assumes ok: "pq_ok q"
  obtains q' where "mii_free_current q = Some q'" "pq_ok q'" "pq_items q' = tl (pq_items q)"
proof -
  have "(pq_ring q)[0 := 0] = 0 # tl (pq_ring q)"
    by (metis pq_ring_Cons [OF ok] list_update_code(2))
  then have "filter (\<lambda>p. p \<noteq> 0) ((pq_ring q)[0 := 0]) = tl (pq_items q)"
    by (simp add: pq_items_tl [OF ok])
  then show ?thesis using pq_free_oldest [OF ok] that by (auto simp: mii_free_current_def)
qed

interpretation tx_fifo: fifo pq_items pq_ok pq_room "\<lambda>p. p \<noteq> 0" mii_add_packet pq_take pq_front
proof unfold_locales
  fix q :: packet_queue_info_t
  assume ok: "pq_ok q"
  show "pq_front q = (case pq_items q of [] \<Rightarrow> None | x # _ \<Rightarrow> Some x)"
    using pq_front_items [OF ok] pq_items_nonzero [of _ q] by (cases "pq_items q") (auto simp: pq_front_def)
  from ok obtain q' where "mii_free_current q = Some q'" "pq_ok q'" "pq_items q' = tl (pq_items q)"
    by (rule pq_free_current)
  then show "pq_items (pq_take q) = tl (pq_items q)" "pq_ok (pq_take q)"
    by (simp_all add: pq_take_def)
qed (simp_all add: pq_room_def pq_add)

lemma pq_dense_move_rd:
  assumes d: "pq_dense q" and ne: "pq_items q \<noteq> []"
  shows "pq_dense (mii_move_rd_index q) \<and> pq_items (mii_move_rd_index q) = tl (pq_items q)"
proof -
  let ?q = "mii_move_rd_index q" and ?u = "pq_used q" and ?r = "unat (pq_rd_index q)"
  have ok: "pq_ok q" using d by (simp add: pq_dense_def)
  have len: "length (pq_ptrs q) = 32" and rd: "?r < 32" using ok by (simp_all add: pq_ok_def)
  have nb: "mii_get_next_buf q \<noteq> 0" using ne by (simp add: pq_items_empty_iff [OF ok])
  then have u: "0 < ?u" using pq_used_0 [OF ok] by simp
  have rd': "unat (pq_rd_index ?q) = (?r + 1) mod 32"
    using rd by (simp add: mii_move_rd_index_def wrap_power_of_2_unat word_less_nat_alt)
  have ring: "pq_ring ?q = tl (pq_ring q) @ [0]"
  proof -
    have "pq_ring ?q = rotate ((?r + 1) mod 32) ((pq_ptrs q)[?r := 0])"
      unfolding pq_ring_def rd' by (simp add: mii_move_rd_index_def)
    also have "\<dots> = rotate (Suc ?r) ((pq_ptrs q)[?r := 0])"
      using rotate_conv_mod [of "Suc ?r" "(pq_ptrs q)[?r := 0]"] len by simp
    also have "\<dots> = rotate1 ((pq_ring q)[0 := 0])" using pq_ring_clear [OF ok rd] by simp
    also have "\<dots> = rotate1 (0 # tl (pq_ring q))"
      by (metis pq_ring_Cons [OF ok] list_update_code(2))
    finally show ?thesis by simp
  qed
  have ring_nth: "pq_ring ?q ! k = (if k = 31 then 0 else pq_ring q ! Suc k)" if "k < 32" for k
    using that by (simp add: ring nth_append nth_tl length_pq_ring [OF ok])
  have new: "pq_ok ?q \<and> pq_used ?q = ?u - 1"
  proof (rule pq_okI)
    show "unat (pq_wr_index ?q) = (unat (pq_rd_index ?q) + (?u - 1)) mod 32"
    proof -
      have "((?r + 1) mod 32 + (?u - 1)) mod 32 = (?r + ?u) mod 32"
        using u by (intro ring_advance) simp
      then show ?thesis using pq_wr_slot [OF ok] by (simp add: rd') (simp add: mii_move_rd_index_def)
    qed
    show "pq_ring ?q ! 0 \<noteq> 0" if "0 < ?u - 1"
      using that d pq_used_le [of q] by (simp add: ring_nth pq_dense_def)
    show "pq_ring ?q ! k = 0" if "?u - 1 \<le> k" "k < 32" for k
      using that u pq_free_slots [OF ok, of "Suc k"] by (simp add: ring_nth)
  qed (use len rd' pq_used_le [of q] in \<open>simp_all add: mii_move_rd_index_def\<close>)
  have "pq_items ?q = tl (pq_items q)" using pq_items_tl [OF ok] by (simp add: pq_items_def ring)
  moreover have "pq_ring ?q ! k \<noteq> 0" if "k < ?u - 1" for k
    using that d pq_used_le [of q] by (simp add: ring_nth pq_dense_def)
  ultimately show ?thesis using new by (simp add: pq_dense_def)
qed

lemma pq_dense_add:
  assumes d: "pq_dense q" and room: "pq_room q" and nn: "p \<noteq> 0"
  shows "pq_dense (mii_add_packet q p)"
proof -
  let ?q = "mii_add_packet q p"
  have ok: "pq_ok q" using d by (simp add: pq_dense_def)
  have new: "pq_ok ?q" "pq_used ?q = pq_used q + 1" "pq_items ?q = pq_items q @ [p]"
    using pq_add [OF ok] room nn by (simp_all add: pq_room_def)
  have "filter (\<lambda>p. p \<noteq> 0) (take (pq_used q) (pq_ring q)) = take (pq_used q) (pq_ring q)"
    using d pq_used_le [of q] by (auto simp: pq_dense_def filter_id_conv in_set_conv_nth length_pq_ring)
  then have full: "length (pq_items q) = pq_used q"
    using pq_used_le [of q] by (simp add: pq_items_take [OF ok] length_pq_ring [OF ok])
  have "length (filter (\<lambda>p. p \<noteq> 0) (take (pq_used ?q) (pq_ring ?q))) =
      length (take (pq_used ?q) (pq_ring ?q))"
    using new full pq_used_le [of ?q] by (simp add: pq_items_take length_pq_ring)
  then have "\<forall>x\<in>set (take (pq_used ?q) (pq_ring ?q)). x \<noteq> 0"
    by (metis (mono_tags, lifting) length_filter_less less_irrefl)
  then show ?thesis
    using new pq_used_le [of ?q] by (auto simp: pq_dense_def in_set_conv_nth length_pq_ring)
qed

interpretation incoming_fifo:
  fifo pq_items pq_dense pq_room "\<lambda>p. p \<noteq> 0" mii_add_packet mii_move_rd_index pq_front
proof unfold_locales
  fix q :: packet_queue_info_t and p :: addr
  assume d: "pq_dense q"
  then have ok: "pq_ok q" by (simp add: pq_dense_def)
  show "pq_front q = (case pq_items q of [] \<Rightarrow> None | x # _ \<Rightarrow> Some x)"
    by (rule tx_fifo.front_items [OF ok])
  show "pq_items (mii_add_packet q p) = pq_items q @ [p]" "pq_dense (mii_add_packet q p)"
    if "pq_room q" "p \<noteq> 0"
    using that tx_fifo.items_enq [OF ok] pq_dense_add [OF d] by simp_all
  show "pq_items (mii_move_rd_index q) = tl (pq_items q)" "pq_dense (mii_move_rd_index q)"
    if "pq_items q \<noteq> []"
    using that pq_dense_move_rd [OF d] by simp_all
qed

section \<open>Properties\<close>

text \<open>
  C8. A transmit packet queue that starts empty is a FIFO: whatever the schedule of additions
  (each guarded by the full test of the source) and of removals (\<open>mii_get_next_buf\<close> followed by
  \<open>mii_free_current\<close>), the packets accepted are, in order, the packets delivered followed by the
  packets still queued; none is lost, duplicated or reordered.
\<close>

theorem packet_queue_is_fifo:
  assumes "\<forall>p. Some p \<in> set es \<longrightarrow> p \<noteq> 0"
    and "fifo_run pq_room mii_add_packet pq_take pq_front mii_init_packet_queue es = (q, accepted, delivered)"
  shows "pq_ok q \<and> accepted = delivered @ pq_items q"
  using tx_fifo.run_fifo [OF _ _ assms(2)] assms(1) pq_init by simp

theorem packet_queue_is_fifo_witness:
  "\<exists>q. fifo_run pq_room mii_add_packet pq_take pq_front mii_init_packet_queue
       [Some 4, Some 8, None, Some 12, None] = (q, [4, 8, 12], [4, 8]) \<and>
     pq_ok q \<and> [4, 8, 12] = [4, 8] @ pq_items q"
proof -
  let ?es = "[Some 4, Some 8, None, Some 12, None] :: addr option list"
  let ?run = "fifo_run pq_room mii_add_packet pq_take pq_front mii_init_packet_queue"
  obtain q acc del where r: "?run ?es = (q, acc, del)" by (cases "?run ?es")
  have "snd (?run ?es) = ([4, 8, 12], [4, 8])" by code_simp
  then have "acc = [4, 8, 12] \<and> del = [4, 8]" unfolding r by simp
  with r packet_queue_is_fifo [OF _ r] show ?thesis by auto
qed

text \<open>
  Freeing any used slot of a queue (clients release packets out of order) ends, keeps the
  invariant, removes exactly that packet and keeps the order of the others; the read index it
  returns is that of the queue, so it again points at the oldest packet still in use.
\<close>

theorem mii_free_index_removes:
  assumes "pq_ok q" and "unat i < 32" and "distinct (pq_items q)" and "pq_ptrs q ! unat i \<noteq> 0"
  shows "\<exists>q'. mii_free_index q i = Some (q', pq_rd_index q') \<and> pq_ok q' \<and>
     pq_items q' = remove1 (pq_ptrs q ! unat i) (pq_items q) \<and>
     mii_get_next_buf q' = (case remove1 (pq_ptrs q ! unat i) (pq_items q) of [] \<Rightarrow> 0 | p # _ \<Rightarrow> p)"
proof -
  from pq_free_index_remove1 [OF assms(1,2,3) refl assms(4)]
  obtain q' where "mii_free_index q i = Some (q', pq_rd_index q')" "pq_ok q'"
    "pq_items q' = remove1 (pq_ptrs q ! unat i) (pq_items q)" .
  then show ?thesis using pq_front_items [of q'] by auto
qed

theorem mii_free_index_removes_witness:
  "\<exists>q'. mii_free_index (mii_add_packet (mii_add_packet mii_init_packet_queue 4) 8) 0 =
       Some (q', pq_rd_index q') \<and> pq_ok q' \<and> pq_items q' = [8] \<and> mii_get_next_buf q' = 8"
proof -
  let ?q = "mii_add_packet (mii_add_packet mii_init_packet_queue 4) 8"
  have room0: "\<not> mii_packet_queue_full mii_init_packet_queue"
    by (simp add: mii_packet_queue_full_def mii_init_packet_queue_def)
  have q1: "pq_ok (mii_add_packet mii_init_packet_queue 4) \<and>
      pq_items (mii_add_packet mii_init_packet_queue 4) = [4]"
    using pq_add [OF _ room0, of 4] pq_init by simp
  have room1: "\<not> mii_packet_queue_full (mii_add_packet mii_init_packet_queue 4)"
    by (simp add: mii_packet_queue_full_def mii_add_packet_def mii_init_packet_queue_def
        increment_and_wrap_power_of_2_def)
  have q2: "pq_ok ?q \<and> pq_items ?q = [4, 8]"
    using pq_add [OF _ room1, of 8] q1 by simp
  have slot: "pq_ptrs ?q ! unat (0::u32) = 4"
    by (simp add: mii_add_packet_def mii_init_packet_queue_def increment_and_wrap_power_of_2_def)
  show ?thesis using mii_free_index_removes [of ?q 0] q2 slot by simp
qed

end
