(* ===== verification/Mii_Rx.thy ===== *)
theory Mii_Rx
  imports Mii_Tx Packet_Queue
begin

text \<open>
  The MII receiver of \<^verbatim>\<open>lib_ethernet/src/mii_master.xc\<close>, \<open>mii_master_rx_pins\<close>: one turn of its
  loop receives one frame into the packet memory, at the write pointer and never beyond the read
  pointer the server last published, or into the dummy buffer when there is no room. What the
  ports deliver is an input of the model (\<open>rx_frame\<close>): the word that ends with the start of frame
  delimiter, the time, the full words, and the number and the value of the bits left in the port
  at the end of the frame; \<open>rx_er\<close> is the error flag set by the interrupt handler of the RX_ER
  port (assembly).
\<close>

section \<open>State and operations\<close>

record rx_frame =
  rx_sfd :: u32
  rx_time :: u32
  rx_words :: "u32 list"
  rx_taillen :: u32
  rx_tail :: u32
  rx_er :: bool

record rx_pins =
  rp_pool :: mempool_info_t
  rp_mem :: mem
  rp_incoming :: packet_queue_info_t

text \<open>\<^verbatim>\<open>{hi, lo} = mac(a, b, c, d)\<close>: the double word \<open>a * b + (c : d)\<close>.\<close>

definition mac :: "u32 \<Rightarrow> u32 \<Rightarrow> u32 \<Rightarrow> u32 \<Rightarrow> u32 \<times> u32" where
  "mac a b c d =
     (let r = uint a * uint b + uint c * 2 ^ 32 + uint d
      in (word_of_int (r div 2 ^ 32), word_of_int r))"

text \<open>The checksum of the bits left at the end of the frame, and the bytes they count for.\<close>

definition rx_tail_crc :: "u32 \<Rightarrow> u32 \<Rightarrow> u32 \<Rightarrow> u32 \<times> u32" where
  "rx_tail_crc taillen tail crc =
     (if taillen AND NOT 7 \<noteq> 0
      then (let mask = drop_bit (unat (taillen AND NOT 7)) (NOT 0);
                tail = push_bit (unat (taillen AND 7)) tail;
                tail = tail AND NOT mask;
                (tail, crc) = mac crc mask tail crc
            in (drop_bit 3 taillen, crc32 crc tail POLY))
      else (0, crc))"

text \<open>One word of the frame: it is stored unless the end of the free space has been reached.\<close>

definition rx_store :: "addr \<Rightarrow> addr \<Rightarrow> mem \<times> addr \<Rightarrow> u32 \<Rightarrow> mem \<times> addr" where
  "rx_store wrap_ptr end_ptr md word =
     (let (m, dptr) = md
      in if dptr \<noteq> end_ptr
         then (let m = m(dptr := word) in (m, next_ptr m wrap_ptr dptr))
         else (m, dptr))"

text \<open>A wrong start of frame corrupts the checksum, so that the frame is discarded later.\<close>

definition rx_start_crc :: "u32 \<Rightarrow> u32" where
  "rx_start_crc sfd_preamble =
     (if drop_bit 24 sfd_preamble AND 0xFF \<noteq> 0xD5 then NOT CRC_PRELOAD else CRC_PRELOAD)"

definition mii_master_rx_pins ::
    "addr \<times> addr \<Rightarrow> addr \<Rightarrow> rx_frame \<Rightarrow> rx_pins \<Rightarrow> rx_pins" where
  "mii_master_rx_pins dummy rdptr f s =
     (let wrap_ptr = mii_get_wrap_ptr (rp_pool s);
          num_rx_bytes = (- 4 :: u32);
          (buf, end_ptr) = mii_reserve dummy (rp_pool s) rdptr;
          crc = rx_start_crc (rx_sfd f);
          m = setf (rp_mem s) buf timestamp_f (rx_time f);
          (m, dptr) = foldl (rx_store wrap_ptr end_ptr) (m, pkt_data buf) (rx_words f);
          crc = foldl (\<lambda>crc word. crc32 crc word POLY) crc (rx_words f);
          num_rx_bytes = num_rx_bytes + 4 * of_nat (length (rx_words f))
      in if rx_er f then s\<lparr>rp_mem := m\<rparr>
         else (let (tail_bytes, crc) = rx_tail_crc (rx_taillen f) (rx_tail f) crc;
                   m = setf m buf length_f (num_rx_bytes + tail_bytes);
                   m = setf m buf crc_f crc
               in if dptr \<noteq> end_ptr
                  then s\<lparr>rp_mem := m, rp_pool := mii_commit (rp_pool s) dptr,
                         rp_incoming := mii_add_packet (rp_incoming s) buf\<rparr>
                  else s\<lparr>rp_mem := m\<rparr>))"

section \<open>The end of the frame\<close>

text \<open>The received bits: all full words, then the whole bytes left in the port.\<close>

definition tail_bits :: "u32 \<Rightarrow> u32 \<Rightarrow> bool list" where
  "tail_bits taillen tail =
     map (bit tail) [32 - unat taillen..<32 - unat taillen + 8 * (unat taillen div 8)]"

definition frame_bits :: "rx_frame \<Rightarrow> bool list" where
  "frame_bits f = concat (map (bits_of 32) (rx_words f)) @ tail_bits (rx_taillen f) (rx_tail f)"

lemma uint_mask: "n \<le> 32 \<Longrightarrow> uint (mask n :: u32) = 2 ^ n - 1"
proof -
  assume n: "n \<le> 32"
  have "uint (mask n :: u32) = mask n" using n by (intro bit_eqI) (auto simp: bit_simps)
  then show ?thesis by (simp add: mask_eq_exp_minus_1)
qed

lemma mac_mask:
  assumes "0 < t" "t < 32"
  shows "mac c (mask (32 - t)) d c = (drop_bit t c + d, push_bit (32 - t) c)"
proof -
  have e: "(2 :: int) ^ 32 = 2 ^ (32 - t) * 2 ^ t" using assms by (simp only: power_add [symmetric]) simp
  define r where "r = uint c * (2 ^ (32 - t) - 1) + uint d * 2 ^ 32 + uint c"
  have r: "r = uint c * 2 ^ (32 - t) + uint d * 2 ^ 32" by (simp add: r_def algebra_simps)
  have "r div 2 ^ 32 = uint c * 2 ^ (32 - t) div 2 ^ 32 + uint d"
    unfolding r by simp
  also have "uint c * 2 ^ (32 - t) div 2 ^ 32 = uint c div 2 ^ t"
    unfolding e by (subst mult.commute) simp
  also have "\<dots> = uint (drop_bit t c)"
    by (simp only: drop_bit_eq_div [symmetric], rule bit_eqI) (auto simp: bit_simps)
  finally have hi: "word_of_int (r div 2 ^ 32) = drop_bit t c + d"
    by simp
  have z: "(4294967296 :: u32) = 0" by code_simp
  have lo: "word_of_int r = push_bit (32 - t) c"
    unfolding r by (simp add: push_bit_eq_mult z)
  show ?thesis using hi lo assms by (simp add: mac_def Let_def uint_mask r_def)
qed

text \<open>
  The trick at the end of the frame: the double-word multiply-accumulate moves the checksum down
  by the bits that remain and puts what falls off at the top, so that a 32-bit checksum step over
  the merged word processes exactly the remaining bits.
\<close>

lemma crc32_merged:
  assumes t: "0 < t" "t < 32" and low: "\<forall>i<32 - t. \<not> bit d i"
  shows "crc32 (push_bit (32 - t) c) (drop_bit t c + d) p =
    crc_bits p c (map (bit d) [32 - t..<32])"
proof -
  let ?w = "drop_bit t c + d" and ?n = "32 - t"
  have w: "?w = drop_bit t c OR d"
  proof (rule disjunctive_add)
    fix i show "\<not> bit (drop_bit t c) i \<or> \<not> bit d i"
      using t low by (cases "i < 32 - t") (auto simp: bit_simps dest: bit_imp_le_length)
  qed
  have "[0..<32] = [0..<?n] @ [?n..<32]" using t upt_add_eq_append [of 0 ?n t] by simp
  then have "crc32 (push_bit ?n c) ?w p =
      crc_bits p (crc_bits p (push_bit ?n c) (bits_of ?n ?w)) (map (bit ?w) [?n..<32])"
    by (simp add: crc32_def bits_of_def crc_bits_append)
  also have "crc_bits p (push_bit ?n c) (bits_of ?n ?w) =
      drop_bit ?n (push_bit ?n c) OR push_bit (32 - ?n) (take_bit ?n ?w)"
    using t by (intro crc_bits_shift) (auto simp: bit_simps)
  also have "\<dots> = c"
  proof (rule bit_word_eqI)
    fix i assume "i < LENGTH(32)"
    then have "i < 32" by simp
    then show "bit (drop_bit ?n (push_bit ?n c) OR push_bit (32 - ?n) (take_bit ?n ?w)) i \<longleftrightarrow> bit c i"
      unfolding w using t low by (cases "i < t") (auto simp: bit_simps)
  qed
  also have "map (bit ?w) [?n..<32] = map (bit d) [?n..<32]"
    unfolding w using t by (auto simp: bit_simps dest: bit_imp_le_length)
  finally show ?thesis .
qed

text \<open>The two parts of the count of remaining bits.\<close>

lemma taillen_parts:
  fixes n :: u32
  assumes "unat n < 32"
  shows "unat (n AND NOT 7) = 8 * (unat n div 8)" "unat (n AND 7) = unat n mod 8"
    "drop_bit 3 n = of_nat (unat n div 8)"
proof -
  have m: "(7 :: u32) = mask 3" by (simp add: mask_eq_exp_minus_1)
  have lo: "n AND 7 = take_bit 3 n" unfolding m by (simp only: take_bit_eq_mask)
  then show l: "unat (n AND 7) = unat n mod 8"
    by (simp only: unsigned_take_bit_eq) (simp add: take_bit_eq_mod)
  have "(n AND NOT (mask 3)) + (n AND mask 3) = (n AND NOT (mask 3)) OR (n AND mask 3)"
    by (rule disjunctive_add) (simp add: bit_simps)
  also have "\<dots> = n" by (rule bit_word_eqI) (auto simp: bit_simps)
  finally have "n = (n AND NOT 7) + (n AND 7)" unfolding m by (rule sym)
  moreover have "unat (n AND NOT 7) \<le> unat n"
    using word_and_le2 [of n "NOT 7"] by (simp add: word_le_nat_alt)
  ultimately have "unat n = unat (n AND NOT 7) + unat (n AND 7)"
  proof -
    assume n: "n = (n AND NOT 7) + (n AND 7)" and le: "unat (n AND NOT 7) \<le> unat n"
    have "unat (n AND 7) < 8" unfolding l by simp
    then have "unat (n AND NOT 7) + unat (n AND 7) < 2 ^ LENGTH(32)" using le assms by simp
    then have "unat ((n AND NOT 7) + (n AND 7)) = unat (n AND NOT 7) + unat (n AND 7)"
      by (simp only: unat_word_ariths mod_less)
    then show ?thesis by (simp only: n [symmetric])
  qed
  then show "unat (n AND NOT 7) = 8 * (unat n div 8)"
    using l div_mult_mod_eq [of "unat n" 8] by linarith
  show "drop_bit 3 n = of_nat (unat n div 8)"
  proof (rule word_unat_eq_iff [THEN iffD2])
    have "unat (drop_bit 3 n) = unat n div 8" by (simp only: unat_drop_bit_eq) (simp add: drop_bit_eq_div)
    then show "unat (drop_bit 3 n) = unat (of_nat (unat n div 8) :: u32)"
      using assms by (simp add: unat_of_nat)
  qed
qed

lemma rx_tail_crc_bits:
  assumes "unat taillen < 32"
  shows "rx_tail_crc taillen tail crc =
    (of_nat (unat taillen div 8), crc_bits POLY crc (tail_bits taillen tail))"
proof (cases "unat taillen div 8 = 0")
  case True
  then have "taillen AND NOT 7 = 0"
    using taillen_parts(1) [OF assms] unat_eq_zero [of "taillen AND NOT 7"] by simp
  then show ?thesis using True by (simp add: rx_tail_crc_def tail_bits_def)
next
  case False
  let ?t = "8 * (unat taillen div 8)" and ?r = "unat taillen mod 8"
  have parts: "unat (taillen AND NOT 7) = ?t" "unat (taillen AND 7) = ?r"
    "drop_bit 3 taillen = of_nat (unat taillen div 8)"
    by (rule taillen_parts [OF assms])+
  have t: "0 < ?t" "?t < 32" "?t + ?r = unat taillen" using False assms by simp_all
  have nz: "taillen AND NOT 7 \<noteq> 0" using parts(1) t(1) by (metis unat_0 less_irrefl)
  have mask: "drop_bit ?t (NOT 0) = (mask (32 - ?t) :: u32)"
    using t by (intro bit_word_eqI) (auto simp: bit_simps)
  define d where "d = push_bit ?r tail AND NOT (mask (32 - ?t))"
  have low: "\<forall>i<32 - ?t. \<not> bit d i" by (simp add: d_def bit_simps)
  have "map (bit d) [32 - ?t..<32] = tail_bits taillen tail"
  proof (rule nth_equalityI)
    show "length (map (bit d) [32 - ?t..<32]) = length (tail_bits taillen tail)"
      using t by (simp add: tail_bits_def)
    fix i assume "i < length (map (bit d) [32 - ?t..<32])"
    then have i: "i < ?t" using t by simp
    have "32 - ?t + i - ?r = 32 - unat taillen + i" "?r \<le> 32 - ?t + i"
      "32 - ?t + i < 32" "\<not> 32 - ?t + i < 32 - ?t"
      using t(2,3) i assms by linarith+
    then show "map (bit d) [32 - ?t..<32] ! i = tail_bits taillen tail ! i"
      using i t by (simp add: tail_bits_def d_def bit_simps)
  qed
  moreover have "rx_tail_crc taillen tail crc =
      (drop_bit 3 taillen, crc32 (push_bit (32 - ?t) crc) (drop_bit ?t crc + d) POLY)"
    unfolding rx_tail_crc_def Let_def parts(1,2) mask if_P [OF nz] mac_mask [OF t(1,2)] d_def by simp
  ultimately show ?thesis unfolding crc32_merged [OF t(1,2) low] parts(3) by simp
qed

lemma foldl_crc32: "foldl (\<lambda>crc word. crc32 crc word POLY) c ws = crc_bits POLY c (concat (map (bits_of 32) ws))"
  by (induction ws arbitrary: c) (simp_all add: crc32_def crc_bits_append)

section \<open>What the receiver may write\<close>

text \<open>The state of the word loop: only free words changed, and the data pointer is free or at the limit.\<close>

definition rx_inv :: "mempool_info_t \<Rightarrow> addr \<Rightarrow> mem \<Rightarrow> mem \<times> addr \<Rightarrow> bool" where
  "rx_inv p rdptr m0 md \<longleftrightarrow> (\<forall>a. \<not> free_addr p rdptr a \<longrightarrow> fst md a = m0 a) \<and>
     (snd md = rdptr \<or> free_addr p rdptr (snd md))"

lemma wrap_word_not_free: "\<not> free_addr p rdptr (mp_end p)"
  by (simp add: free_addr_def in_pool_def)

lemma rx_store_eq:
  "rx_store wrap e md w = (if snd md = e then md
     else ((fst md)(snd md := w), next_ptr ((fst md)(snd md := w)) wrap (snd md)))"
  by (cases md) (simp add: rx_store_def Let_def)

lemma rx_store_inv:
  assumes ok: "mp_ok p m0" and rd: "rd_ok p rdptr" and inv: "rx_inv p rdptr m0 md"
  shows "rx_inv p rdptr m0 (rx_store (mp_end p) rdptr md w)"
proof (cases "snd md = rdptr")
  case True
  then show ?thesis using inv by (simp add: rx_store_eq)
next
  case False
  let ?m = "(fst md)(snd md := w)"
  have free: "free_addr p rdptr (snd md)" using inv False by (simp add: rx_inv_def)
  then have "snd md \<noteq> mp_end p" using wrap_word_not_free by metis
  then have "?m (mp_end p) = m0 (mp_end p)" using inv wrap_word_not_free [of p rdptr] by (simp add: rx_inv_def)
  then have "?m (mp_end p) = word_of_int (mp_start p)" using ok by (simp add: mp_ok_def)
  then have "next_ptr ?m (mp_end p) (snd md) = rdptr \<or> free_addr p rdptr (next_ptr ?m (mp_end p) (snd md))"
    by (rule free_addr_next [OF ok rd free])
  then show ?thesis
    using inv False free by (auto simp: rx_inv_def rx_store_eq)
qed

lemma rx_words_inv:
  "mp_ok p m0 \<Longrightarrow> rd_ok p rdptr \<Longrightarrow> rx_inv p rdptr m0 md \<Longrightarrow>
   rx_inv p rdptr m0 (foldl (rx_store (mp_end p) rdptr) md ws)"
  by (induction ws arbitrary: md) (simp_all add: rx_store_inv)

lemma rx_words_full: "foldl (rx_store wrap end_ptr) (m, end_ptr) ws = (m, end_ptr)"
  by (induction ws) (simp_all add: rx_store_def)

lemma free_header:
  assumes "mp_ok p m" "rd_ok p rdptr" "14 \<le> free_words p rdptr"
  shows "free_addr p rdptr (mp_wrptr p + fld_off f)"
proof -
  obtain k where "k < 10" "mp_wrptr p + fld_off f = wr_slot p k" by (rule fld_slot [OF assms(1)])
  then show ?thesis using assms free_addr_slot [OF assms(1,2), of k] by simp
qed

lemma setf_inv:
  assumes "mp_ok p m0" "rd_ok p rdptr" "14 \<le> free_words p rdptr" "rx_inv p rdptr m0 (m, d)"
  shows "rx_inv p rdptr m0 (setf m (mp_wrptr p) f v, d)"
  using assms free_header [OF assms(1,2,3), of f] by (auto simp: rx_inv_def setf_def)

text \<open>The dummy buffer lies outside the packet memory and its wrap word.\<close>

definition dummy_apart :: "mempool_info_t \<Rightarrow> addr \<times> addr \<Rightarrow> bool" where
  "dummy_apart p dummy \<longleftrightarrow> snd dummy = pkt_data (fst dummy) \<and>
     (fst dummy + 40 \<le> mp_start p \<or> mp_end p < fst dummy)"

text \<open>The turn of the loop, with its intermediate values named.\<close>

lemma rx_pins_unfold:
  assumes "mii_reserve dummy (rp_pool s) rdptr = (buf, e)"
    and "foldl (rx_store (mp_end (rp_pool s)) e)
      (setf (rp_mem s) buf timestamp_f (rx_time f), pkt_data buf) (rx_words f) = (m, d)"
    and "rx_tail_crc (rx_taillen f) (rx_tail f)
      (foldl (\<lambda>crc word. crc32 crc word POLY) (rx_start_crc (rx_sfd f)) (rx_words f)) = (tb, crc)"
  shows "mii_master_rx_pins dummy rdptr f s =
    (if rx_er f then s\<lparr>rp_mem := m\<rparr>
     else (let m = setf (setf m buf length_f (- 4 + 4 * of_nat (length (rx_words f)) + tb)) buf crc_f crc
           in if d \<noteq> e then s\<lparr>rp_mem := m, rp_pool := mii_commit (rp_pool s) d,
                rp_incoming := mii_add_packet (rp_incoming s) buf\<rparr> else s\<lparr>rp_mem := m\<rparr>))"
  using assms by (simp add: mii_master_rx_pins_def Let_def mii_get_wrap_ptr_def)

lemma rx_pins_dummy:
  assumes ok: "mp_ok (rp_pool s) (rp_mem s)" and rd: "rd_ok (rp_pool s) rdptr"
    and full: "free_words (rp_pool s) rdptr < 14" and d: "dummy_apart (rp_pool s) dummy"
  shows "\<exists>m'. mii_master_rx_pins dummy rdptr f s = s\<lparr>rp_mem := m'\<rparr> \<and>
    (\<forall>a. a < fst dummy \<or> fst dummy + 40 \<le> a \<longrightarrow> m' a = rp_mem s a)"
proof -
  obtain b e where dm: "dummy = (b, e)" by (cases dummy)
  have e: "pkt_data b = e" using d dm by (simp add: dummy_apart_def)
  have r: "mii_reserve dummy (rp_pool s) rdptr = (b, e)"
    using full dm by (simp add: mii_reserve_spec [OF ok rd])
  obtain tb crc where t: "rx_tail_crc (rx_taillen f) (rx_tail f)
      (foldl (\<lambda>crc word. crc32 crc word POLY) (rx_start_crc (rx_sfd f)) (rx_words f)) = (tb, crc)"
    by fastforce
  show ?thesis
    unfolding rx_pins_unfold [OF r, unfolded e, OF rx_words_full t]
    by (auto simp: Let_def dm setf_other)
qed

lemma rx_pins_live:
  assumes ok: "mp_ok (rp_pool s) (rp_mem s)" and rd: "rd_ok (rp_pool s) rdptr"
    and room: "14 \<le> free_words (rp_pool s) rdptr"
  shows "\<exists>m d q. mii_master_rx_pins dummy rdptr f s = s\<lparr>rp_mem := m, rp_pool := d, rp_incoming := q\<rparr> \<and>
    (\<forall>a. \<not> free_addr (rp_pool s) rdptr a \<longrightarrow> m a = rp_mem s a) \<and>
    (d = rp_pool s \<or> (\<exists>a. free_addr (rp_pool s) rdptr a \<and> d = mii_commit (rp_pool s) a))"
proof -
  let ?p = "rp_pool s" and ?b = "mp_wrptr (rp_pool s)"
  have r: "mii_reserve dummy ?p rdptr = (?b, rdptr)"
    using room by (simp add: mii_reserve_spec [OF ok rd])
  let ?init = "(setf (rp_mem s) ?b timestamp_f (rx_time f), pkt_data ?b)"
  have "rx_inv ?p rdptr (rp_mem s) (rp_mem s, pkt_data ?b)"
    using room free_addr_slot [OF ok rd, of 10] by (simp add: rx_inv_def pkt_data_slot [OF ok])
  then have init: "rx_inv ?p rdptr (rp_mem s) ?init" by (rule setf_inv [OF ok rd room])
  obtain m d where f: "foldl (rx_store (mp_end ?p) rdptr) ?init (rx_words f) = (m, d)"
    by fastforce
  have inv: "rx_inv ?p rdptr (rp_mem s) (m, d)" using rx_words_inv [OF ok rd init, of "rx_words f"] f by simp
  obtain tb crc where t: "rx_tail_crc (rx_taillen f) (rx_tail f)
      (foldl (\<lambda>crc word. crc32 crc word POLY) (rx_start_crc (rx_sfd f)) (rx_words f)) = (tb, crc)"
    by fastforce
  let ?m = "setf (setf m ?b length_f (- 4 + 4 * of_nat (length (rx_words f)) + tb)) ?b crc_f crc"
  have inv2: "rx_inv ?p rdptr (rp_mem s) (?m, d)"
    by (intro setf_inv ok rd room inv)
  note un = rx_pins_unfold [OF r f t]
  consider "rx_er f" | "\<not> rx_er f" "d = rdptr" | "\<not> rx_er f" "d \<noteq> rdptr" by blast
  then show ?thesis
  proof cases
    case 1
    then show ?thesis using inv un
      by (intro exI [of _ m] exI [of _ ?p] exI [of _ "rp_incoming s"]) (simp add: rx_inv_def)
  next
    case 2
    then show ?thesis using inv2 un
      by (intro exI [of _ ?m] exI [of _ ?p] exI [of _ "rp_incoming s"]) (simp add: rx_inv_def)
  next
    case 3
    then have "free_addr ?p rdptr d" using inv by (simp add: rx_inv_def)
    with 3 show ?thesis using inv2 un
      by (intro exI [of _ ?m] exI [of _ "mii_commit ?p d"] exI [of _ "mii_add_packet (rp_incoming s) ?b"])
         (auto simp: rx_inv_def)
  qed
qed

lemma rx_pins_keeps_live:
  assumes "mp_ok (rp_pool s) (rp_mem s)" "rd_ok (rp_pool s) rdptr" "dummy_apart (rp_pool s) dummy"
    and "\<not> free_addr (rp_pool s) rdptr a" "a < fst dummy \<or> fst dummy + 40 \<le> a"
  shows "rp_mem (mii_master_rx_pins dummy rdptr f s) a = rp_mem s a"
  using rx_pins_dummy [OF assms(1,2) _ assms(3), of f] rx_pins_live [OF assms(1,2), of dummy f] assms(4,5)
  by (cases "free_words (rp_pool s) rdptr < 14") (auto simp: not_less)


lemma rx_pins_keeps_ok:
  assumes ok: "mp_ok (rp_pool s) (rp_mem s)" and rd: "rd_ok (rp_pool s) rdptr"
    and d: "dummy_apart (rp_pool s) dummy"
  shows "mp_ok (rp_pool (mii_master_rx_pins dummy rdptr f s)) (rp_mem (mii_master_rx_pins dummy rdptr f s))"
proof -
  let ?s = "mii_master_rx_pins dummy rdptr f s"
  have "mp_start (rp_pool s) \<le> mp_end (rp_pool s)" using mp_end_words [OF ok] by simp
  then have "mp_end (rp_pool s) < fst dummy \<or> fst dummy + 40 \<le> mp_end (rp_pool s)"
    using d by (auto simp: dummy_apart_def)
  then have "rp_mem ?s (mp_end (rp_pool s)) = rp_mem s (mp_end (rp_pool s))"
    by (intro rx_pins_keeps_live ok rd d wrap_word_not_free)
  then have keep: "mp_ok (rp_pool s) (rp_mem ?s)" using ok by (simp add: mp_ok_def)
  have "rp_pool ?s = rp_pool s \<or> (\<exists>a. in_pool (rp_pool s) a \<and> rp_pool ?s = mii_commit (rp_pool s) a)"
    using rx_pins_dummy [OF ok rd _ d, of f] rx_pins_live [OF ok rd, of dummy f]
    by (cases "free_words (rp_pool s) rdptr < 14") (auto simp: not_less free_addr_def)
  then show ?thesis using keep mii_commit_ok [OF keep] by auto
qed

text \<open>
  Receiving a frame preserves the memory invariant: the write pointer stays aligned and at
  most at the last safe address, and the wrap word is never overwritten.
\<close>

theorem mii_master_rx_pins_ok:
  assumes ok: "mp_ok (rp_pool s) (rp_mem s)" and rd: "rd_ok (rp_pool s) rdptr"
    and d: "dummy_apart (rp_pool s) dummy"
  shows "mp_ok (rp_pool (mii_master_rx_pins dummy rdptr f s)) (rp_mem (mii_master_rx_pins dummy rdptr f s))"
  by (rule rx_pins_keeps_ok [OF assms])

section \<open>What the receiver delivers\<close>

text \<open>The words of a frame that fits, stored from slot \<open>i\<close> after the write pointer on.\<close>

definition stored :: "mempool_info_t \<Rightarrow> nat \<Rightarrow> u32 list \<Rightarrow> mem \<Rightarrow> bool" where
  "stored p i ws m \<longleftrightarrow> (\<forall>j<length ws. m (wr_slot p (i + j)) = ws ! j)"

lemma free_slot_not_limit:
  assumes "mp_ok p m" "rd_ok p rdptr" "i < free_words p rdptr"
  shows "wr_slot p i \<noteq> rdptr"
proof (cases "rdptr = 0")
  case True
  have "0 < mp_start p" using assms(1) by (simp add: mp_ok_def)
  then show ?thesis using True wr_slot_in_pool [OF assms(1), of i] by (auto simp: in_pool_def)
next
  case False
  have "wr_dist p (wr_slot p i) = i"
    using assms free_words_bounds(2) [OF assms(1,2)] by (intro wr_dist_slot) auto
  then show ?thesis using False assms(3) by (auto simp: free_words_def)
qed

lemma rx_words_stored:
  assumes ok: "mp_ok p m0" and rd: "rd_ok p rdptr"
  shows "i + length ws \<le> free_words p rdptr \<Longrightarrow> m (mp_end p) = word_of_int (mp_start p) \<Longrightarrow>
    \<exists>m'. foldl (rx_store (mp_end p) rdptr) (m, wr_slot p i) ws = (m', wr_slot p (i + length ws)) \<and>
      stored p i ws m' \<and> (\<forall>a. (\<forall>j<length ws. a \<noteq> wr_slot p (i + j)) \<longrightarrow> m' a = m a)"
proof (induction ws arbitrary: i m)
  case Nil
  then show ?case by (simp add: stored_def)
next
  case (Cons w ws)
  let ?m = "m(wr_slot p i := w)"
  have N: "free_words p rdptr \<le> mp_words p" by (rule free_words_bounds(2) [OF ok rd])
  have i: "i < free_words p rdptr" using Cons.prems(1) by simp
  have "mp_end p \<noteq> wr_slot p i" using wr_slot_in_pool [OF ok, of i] by (auto simp: in_pool_def)
  then have wrap: "?m (mp_end p) = word_of_int (mp_start p)" using Cons.prems(2) by simp
  have step: "rx_store (mp_end p) rdptr (m, wr_slot p i) w = (?m, wr_slot p (Suc i))"
    using free_slot_not_limit [OF ok rd i] next_ptr_wr_slot [of p m0 ?m i] ok wrap by (simp add: rx_store_eq)
  have "Suc i + length ws \<le> free_words p rdptr" using Cons.prems(1) by simp
  with Cons.IH [of "Suc i" ?m] wrap obtain m' where
    run: "foldl (rx_store (mp_end p) rdptr) (?m, wr_slot p (Suc i)) ws = (m', wr_slot p (Suc i + length ws))"
    and st: "stored p (Suc i) ws m'"
    and other: "\<forall>a. (\<forall>j<length ws. a \<noteq> wr_slot p (Suc i + j)) \<longrightarrow> m' a = ?m a"
    by blast
  have "\<forall>j<length ws. wr_slot p i \<noteq> wr_slot p (Suc i + j)"
    using wr_slot_eq [OF ok, of i] i N Cons.prems(1) by auto
  then have first: "m' (wr_slot p i) = w" using other by simp
  have "stored p i (w # ws) m'"
    unfolding stored_def
  proof (intro allI impI)
    fix j assume "j < length (w # ws)"
    then show "m' (wr_slot p (i + j)) = (w # ws) ! j"
      using first st by (cases j) (simp_all add: stored_def)
  qed
  moreover have "\<forall>a. (\<forall>j<length (w # ws). a \<noteq> wr_slot p (i + j)) \<longrightarrow> m' a = m a"
  proof (intro allI impI)
    fix a assume a: "\<forall>j<length (w # ws). a \<noteq> wr_slot p (i + j)"
    then have "a \<noteq> wr_slot p i" by force
    moreover have "\<forall>j<length ws. a \<noteq> wr_slot p (Suc i + j)"
      using a by (metis Suc_less_eq add_Suc_shift length_Cons)
    ultimately show "m' a = m a" using other by simp
  qed
  ultimately show ?case using step run by simp
qed

lemma mii_master_rx_pins_accepts_fields:
  assumes ok: "mp_ok (rp_pool s) (rp_mem s)" and rd: "rd_ok (rp_pool s) rdptr"
    and room: "14 \<le> free_words (rp_pool s) rdptr"
    and fits: "10 + length (rx_words f) < free_words (rp_pool s) rdptr"
    and good: "\<not> rx_er f" "unat (rx_taillen f) < 32"
  shows "let s' = mii_master_rx_pins dummy rdptr f s; buf = mp_wrptr (rp_pool s) in
    stored (rp_pool s) 10 (rx_words f) (rp_mem s') \<and>
    getf (rp_mem s') buf timestamp_f = rx_time f \<and>
    getf (rp_mem s') buf length_f =
      4 * of_nat (length (rx_words f)) + of_nat (unat (rx_taillen f) div 8) - 4 \<and>
    getf (rp_mem s') buf crc_f = crc_bits POLY (rx_start_crc (rx_sfd f)) (frame_bits f) \<and>
    rp_incoming s' = mii_add_packet (rp_incoming s) buf \<and>
    rp_pool s' = mii_commit (rp_pool s) (wr_slot (rp_pool s) (10 + length (rx_words f)))"
proof -
  let ?p = "rp_pool s"
  define s' where "s' = mii_master_rx_pins dummy rdptr f s"
  define buf where "buf = mp_wrptr (rp_pool s)"
  have r: "mii_reserve dummy ?p rdptr = (buf, rdptr)"
    using room by (simp add: mii_reserve_spec [OF ok rd] buf_def)
  let ?m0 = "setf (rp_mem s) buf timestamp_f (rx_time f)"
  have fld: "buf + fld_off g = wr_slot ?p (nat (fld_off g div 4))" "nat (fld_off g div 4) < 10" for g
    using header_slots [OF ok, of "nat (fld_off g div 4)"] unfolding buf_def by (cases g; simp)+
  have N: "free_words ?p rdptr \<le> mp_words ?p" by (rule free_words_bounds(2) [OF ok rd])
  have apart: "buf + fld_off g \<noteq> wr_slot ?p (10 + j)" if "j < length (rx_words f)" for g j
    using fld [of g] wr_slot_eq [OF ok, of "nat (fld_off g div 4)" "10 + j"] that fits N by simp
  have "mp_end ?p \<noteq> buf + fld_off g" for g
    unfolding fld(1) using wr_slot_in_pool [OF ok] by (metis in_pool_def less_irrefl)
  then have "?m0 (mp_end ?p) = word_of_int (mp_start ?p)"
    using ok by (simp add: setf_def mp_ok_def del: fld_off.simps)
  then obtain m where
    run: "foldl (rx_store (mp_end ?p) rdptr) (?m0, pkt_data buf) (rx_words f) =
      (m, wr_slot ?p (10 + length (rx_words f)))"
    and st: "stored ?p 10 (rx_words f) m"
    and other: "\<forall>a. (\<forall>j<length (rx_words f). a \<noteq> wr_slot ?p (10 + j)) \<longrightarrow> m a = ?m0 a"
    using rx_words_stored [OF ok rd, of 10 "rx_words f" ?m0] fits pkt_data_slot [OF ok]
    by (fastforce simp: buf_def)
  let ?tb = "of_nat (unat (rx_taillen f) div 8)"
  let ?crc = "crc_bits POLY (rx_start_crc (rx_sfd f)) (frame_bits f)"
  have tail: "rx_tail_crc (rx_taillen f) (rx_tail f)
      (foldl (\<lambda>crc word. crc32 crc word POLY) (rx_start_crc (rx_sfd f)) (rx_words f)) = (?tb, ?crc)"
    by (simp add: rx_tail_crc_bits [OF good(2)] foldl_crc32 frame_bits_def crc_bits_append)
  have "wr_slot ?p (10 + length (rx_words f)) \<noteq> rdptr"
    by (rule free_slot_not_limit [OF ok rd fits])
  then have s': "s' = s\<lparr>rp_mem := setf (setf m buf length_f (- 4 + 4 * of_nat (length (rx_words f)) + ?tb)) buf crc_f ?crc,
      rp_pool := mii_commit ?p (wr_slot ?p (10 + length (rx_words f))),
      rp_incoming := mii_add_packet (rp_incoming s) buf\<rparr>"
    unfolding s'_def rx_pins_unfold [OF r run tail] using good(1) by (simp add: Let_def)
  have "getf m buf timestamp_f = rx_time f"
    using other apart [of _ timestamp_f] by (simp add: getf_def setf_def)
  moreover have "stored ?p 10 (rx_words f) (setf (setf m buf g v) buf h w)" for g h v w
    using st apart by (simp add: stored_def setf_def) metis
  ultimately show ?thesis
    unfolding Let_def s'_def [symmetric] buf_def [symmetric] s' by simp
qed

text \<open>
  A frame that fits (its words end before the oldest live packet) and suffers no RX_ER error
  is stored in order from the write pointer on, across the wrap, and queued for filtering; its
  packet header gets the timestamp, the number of bytes received less the check sequence, and the
  checksum register after all received bits, whole bytes of a partial last word included.
\<close>

theorem mii_master_rx_pins_accepts:
  assumes ok: "mp_ok (rp_pool s) (rp_mem s)" and rd: "rd_ok (rp_pool s) rdptr"
    and room: "14 \<le> free_words (rp_pool s) rdptr"
    and fits: "10 + length (rx_words f) < free_words (rp_pool s) rdptr"
    and good: "\<not> rx_er f" "unat (rx_taillen f) < 32"
  shows "let s' = mii_master_rx_pins dummy rdptr f s; buf = mp_wrptr (rp_pool s) in
    stored (rp_pool s) 10 (rx_words f) (rp_mem s') \<and>
    getf (rp_mem s') buf timestamp_f = rx_time f \<and>
    getf (rp_mem s') buf length_f =
      4 * of_nat (length (rx_words f)) + of_nat (unat (rx_taillen f) div 8) - 4 \<and>
    getf (rp_mem s') buf crc_f = crc_bits POLY (rx_start_crc (rx_sfd f)) (frame_bits f) \<and>
    rp_incoming s' = mii_add_packet (rp_incoming s) buf \<and>
    rp_pool s' = mii_commit (rp_pool s) (wr_slot (rp_pool s) (10 + length (rx_words f)))"
  by (rule mii_master_rx_pins_accepts_fields [OF assms])

text \<open>
  A frame that does not fit, or that suffers an RX_ER error, is dropped: no packet is queued
  and the write pointer stays.
\<close>

theorem mii_master_rx_pins_drops:
  assumes ok: "mp_ok (rp_pool s) (rp_mem s)" and rd: "rd_ok (rp_pool s) rdptr"
    and d: "dummy_apart (rp_pool s) dummy"
    and bad: "rx_er f \<or> free_words (rp_pool s) rdptr < 14 \<or>
      rdptr \<noteq> 0 \<and> free_words (rp_pool s) rdptr \<le> 10 + length (rx_words f)"
  shows "rp_pool (mii_master_rx_pins dummy rdptr f s) = rp_pool s \<and>
    rp_incoming (mii_master_rx_pins dummy rdptr f s) = rp_incoming s"
proof (cases "free_words (rp_pool s) rdptr < 14")
  case True
  then show ?thesis using rx_pins_dummy [OF ok rd True d, of f] by auto
next
  case False
  let ?p = "rp_pool s" and ?b = "mp_wrptr (rp_pool s)" and ?F = "free_words (rp_pool s) rdptr"
  have r: "mii_reserve dummy ?p rdptr = (?b, rdptr)" using False by (simp add: mii_reserve_spec [OF ok rd])
  let ?init = "(setf (rp_mem s) ?b timestamp_f (rx_time f), pkt_data ?b)"
  obtain m e where f: "foldl (rx_store (mp_end ?p) rdptr) ?init (rx_words f) = (m, e)"
    by fastforce
  obtain tb crc where t: "rx_tail_crc (rx_taillen f) (rx_tail f)
      (foldl (\<lambda>crc word. crc32 crc word POLY) (rx_start_crc (rx_sfd f)) (rx_words f)) = (tb, crc)"
    by fastforce
  have "e = rdptr" if long: "rdptr \<noteq> 0" "?F \<le> 10 + length (rx_words f)"
  proof -
    let ?ws = "take (?F - 10) (rx_words f)" and ?vs = "drop (?F - 10) (rx_words f)"
    have len: "10 + length ?ws = ?F" using long False by simp
    have "mp_end ?p \<noteq> ?b + fld_off timestamp_f"
      using fld_slot [OF ok, of timestamp_f] wr_slot_in_pool [OF ok] by (metis in_pool_def less_irrefl)
    then have "fst ?init (mp_end ?p) = word_of_int (mp_start ?p)"
      using ok by (simp add: setf_def mp_ok_def del: fld_off.simps)
    then obtain m1 where "foldl (rx_store (mp_end ?p) rdptr) ?init ?ws = (m1, rdptr)"
      using rx_words_stored [OF ok rd, of 10 ?ws "fst ?init"] len pkt_data_slot [OF ok]
        free_words_bounds(3) [OF ok rd long(1)] by auto
    then have "foldl (rx_store (mp_end ?p) rdptr) ?init (?ws @ ?vs) = (m1, rdptr)"
      by (simp only: foldl_append rx_words_full)
    then show ?thesis using f by simp
  qed
  then show ?thesis using bad False unfolding rx_pins_unfold [OF r f t] by (auto simp: Let_def)
qed

section \<open>From the transmitter to the receiver\<close>

lemma length_bytes_bits [simp]: "length (bytes_bits bs) = 8 * length bs"
  by (induction bs) (simp_all add: bytes_bits_def byte_bits_def)

lemma bytes_bits_Cons: "bytes_bits (b # bs) = byte_bits b @ bytes_bits bs"
  by (simp add: bytes_bits_def)

lemma byte_bits_inj: "byte_bits a = byte_bits b \<Longrightarrow> a = b"
  by (rule bit_word_eqI) (simp add: byte_bits_def)

lemma bytes_bits_inj: "length xs = length ys \<Longrightarrow> bytes_bits xs = bytes_bits ys \<Longrightarrow> xs = ys"
proof (induction xs ys rule: list_induct2)
  case (Cons x xs y ys)
  moreover have "length (byte_bits x) = length (byte_bits y)" by (simp add: byte_bits_def)
  ultimately show ?case by (auto simp: bytes_bits_Cons dest: byte_bits_inj)
qed simp

lemma take_bytes_bits: "take (8 * n) (bytes_bits bs) = bytes_bits (take n bs)"
proof (induction n arbitrary: bs)
  case 0
  then show ?case by (simp add: bytes_bits_def)
next
  case (Suc n)
  show ?case
  proof (cases bs)
    case Nil
    then show ?thesis by (simp add: bytes_bits_def)
  next
    case (Cons b bs')
    have "length (byte_bits b) = 8" by (simp add: byte_bits_def)
    then show ?thesis using Cons Suc.IH [of bs'] by (simp add: bytes_bits_Cons)
  qed
qed

lemma length_frame_bits:
  "length (frame_bits f) = 32 * length (rx_words f) + 8 * (unat (rx_taillen f) div 8)"
proof -
  have "length (concat (map (bits_of 32) ws)) = 32 * length ws" for ws by (induction ws) auto
  then show ?thesis by (simp add: frame_bits_def tail_bits_def)
qed

text \<open>The bytes of a frame, read off the full words received: the check sequence covers the tail.\<close>

lemma frame_bytes_words:
  assumes "frame_bits f = bytes_bits bs @ bits_of 32 w" "unat (rx_taillen f) < 32"
  shows "take (length bs) (concat (map word_bytes (rx_words f))) = bs"
    "length bs + 4 = 4 * length (rx_words f) + unat (rx_taillen f) div 8"
proof -
  have "8 * length bs + 32 = 32 * length (rx_words f) + 8 * (unat (rx_taillen f) div 8)"
    using arg_cong [OF assms(1), of length] length_frame_bits [of f] by simp
  then show n: "length bs + 4 = 4 * length (rx_words f) + unat (rx_taillen f) div 8" by simp
  have "unat (rx_taillen f) div 8 < 4" using assms(2) by simp
  then have le: "length bs \<le> 4 * length (rx_words f)" using n by linarith
  have "bytes_bits (take (length bs) (concat (map word_bytes (rx_words f)))) =
      take (8 * length bs) (frame_bits f)"
    using le by (simp add: take_bytes_bits [symmetric] bytes_bits_words [symmetric] frame_bits_def)
  also have "\<dots> = bytes_bits bs" unfolding assms(1) by simp
  finally show "take (length bs) (concat (map word_bytes (rx_words f))) = bs"
    using le by (intro bytes_bits_inj) simp_all
qed

lemma stored_slot_bytes:
  assumes st: "stored p 10 ws m" and n: "n \<le> 4 * length ws"
  shows "slot_bytes p m (mp_index p (mp_wrptr p) + 10) n = take n (concat (map word_bytes ws))"
proof -
  let ?c = "(n + 3) div 4"
  have c: "?c \<le> length ws" "n \<le> 4 * ?c" using n by linarith+
  have w: "slot_words p m (mp_index p (mp_wrptr p) + 10) ?c = take ?c ws"
    using st c(1) by (intro nth_equalityI) (auto simp: slot_words_def stored_def wr_slot_def add.assoc)
  have "concat (map word_bytes ws) = concat (map word_bytes (take ?c ws)) @ concat (map word_bytes (drop ?c ws))"
    by (metis append_take_drop_id concat_append map_append)
  moreover have "n \<le> length (concat (map word_bytes (take ?c ws)))" using c by (simp add: min_def)
  ultimately show ?thesis unfolding slot_bytes_def w by (simp del: length_concat_word_bytes)
qed

text \<open>
  The checksum of a stored frame detects exactly the frames whose check sequence is wrong:
  with a correct start of frame, the \<open>crc\<close> field holds the accepted value, all ones, if and only
  if the last 32 bits received are the IEEE 802.3 check sequence of the bytes before them.
\<close>

theorem rx_crc_detects:
  assumes "mp_ok (rp_pool s) (rp_mem s)" "rd_ok (rp_pool s) rdptr"
    and "14 \<le> free_words (rp_pool s) rdptr"
    and "10 + length (rx_words f) < free_words (rp_pool s) rdptr"
    and "\<not> rx_er f" "unat (rx_taillen f) < 32"
    and sfd: "drop_bit 24 (rx_sfd f) AND 0xFF = 0xD5"
    and bits: "frame_bits f = bytes_bits bs @ bits_of 32 w"
  shows "getf (rp_mem (mii_master_rx_pins dummy rdptr f s)) (mp_wrptr (rp_pool s)) crc_f = NOT 0 \<longleftrightarrow>
    w = ieee_crc (bytes_bits bs)"
proof -
  have "getf (rp_mem (mii_master_rx_pins dummy rdptr f s)) (mp_wrptr (rp_pool s)) crc_f =
      crc_bits POLY CRC_PRELOAD (bytes_bits bs @ bits_of 32 w)"
    using mii_master_rx_pins_accepts_fields [OF assms(1-6)] sfd bits by (simp add: rx_start_crc_def Let_def)
  then show ?thesis using crc_residue crc_residue_only by metis
qed

text \<open>
  C1. End to end: when the receiver gets the bits the transmitter sent, the packet it queues has
  the bytes and the length of the packet sent, and its checksum field holds the value the filter
  accepts. It covers packets of every length from 8 bytes, in any position with respect to the
  wrap of either packet memory.
\<close>

theorem mii_wire_roundtrip:
  assumes tx: "mp_ok p m" "pkt_data buf = mp_slot p k" "pkt_data buf + 4 = mp_slot p (Suc k)"
      "unat (getf m buf length_f) = n" "8 \<le> n"
    and wire: "wire_bits (fst (mii_transmit_packet p m buf clk)) =
      bits_of 32 0x55555555 @ bits_of 32 (rx_sfd f) @ frame_bits f"
    and rx: "mp_ok (rp_pool s) (rp_mem s)" "rd_ok (rp_pool s) rdptr"
      "14 \<le> free_words (rp_pool s) rdptr" "10 + length (rx_words f) < free_words (rp_pool s) rdptr"
      "\<not> rx_er f" "unat (rx_taillen f) < 32"
  shows "let s' = mii_master_rx_pins dummy rdptr f s; b = mp_wrptr (rp_pool s) in
    slot_bytes (rp_pool s) (rp_mem s') (mp_index (rp_pool s) b + 10) n = slot_bytes p m k n \<and>
    getf (rp_mem s') b length_f = of_nat n \<and> getf (rp_mem s') b crc_f = NOT 0"
proof -
  let ?bs = "slot_bytes p m k n" and ?s' = "mii_master_rx_pins dummy rdptr f s"
  have "bytes_bits (replicate 7 0x55 @ [0xD5]) = bits_of 32 0x55555555 @ bits_of 32 0xD5555555"
    by code_simp
  then have "bits_of 32 0xD5555555 @ bytes_bits ?bs @ bits_of 32 (ieee_crc (bytes_bits ?bs)) =
      bits_of 32 (rx_sfd f) @ frame_bits f"
    using wire mii_transmit_packet_bits [OF tx, of clk] by simp
  then have sfd_bits: "bits_of 32 0xD5555555 = bits_of 32 (rx_sfd f)"
    and bits: "frame_bits f = bytes_bits ?bs @ bits_of 32 (ieee_crc (bytes_bits ?bs))"
    by (simp_all add: append_eq_append_conv)
  have "0xD5555555 = rx_sfd f"
  proof (rule bit_word_eqI)
    fix i assume "i < LENGTH(32)"
    then have "i < 32" by simp
    then show "bit (0xD5555555 :: u32) i = bit (rx_sfd f) i"
      using arg_cong [OF sfd_bits, of "\<lambda>bs. bs ! i"] by (simp add: bits_of_def del: bit_numeral_word_iff)
  qed
  then have sfd: "rx_start_crc (rx_sfd f) = CRC_PRELOAD"
    unfolding \<open>0xD5555555 = rx_sfd f\<close> [symmetric] by code_simp
  have len: "length ?bs = n"
    by (simp add: slot_bytes_def)
  have fb: "take n (concat (map word_bytes (rx_words f))) = ?bs"
    "n + 4 = 4 * length (rx_words f) + unat (rx_taillen f) div 8"
    using frame_bytes_words [OF bits rx(6)] len by simp_all
  have le: "n \<le> 4 * length (rx_words f)" using fb(2) rx(6) by linarith
  have num: "4 * of_nat (length (rx_words f)) + of_nat (unat (rx_taillen f) div 8) - 4 = (of_nat n :: u32)"
    using arg_cong [OF fb(2), of "of_nat :: nat \<Rightarrow> u32"] by (simp add: algebra_simps)
  show ?thesis
    using mii_master_rx_pins_accepts_fields [OF rx, of dummy] stored_slot_bytes [OF _ le, of "rp_pool s" "rp_mem ?s'"]
      fb(1) num sfd bits crc_residue
    by (simp add: Let_def)
qed

section \<open>When the write pointer meets the read pointer\<close>

lemma rx_words_at_reader:
  assumes ok: "mp_ok p m0"
  shows "m (mp_end p) = word_of_int (mp_start p) \<Longrightarrow> 10 \<le> i \<Longrightarrow> i < mp_words p \<Longrightarrow>
    fst (foldl (rx_store (mp_end p) (mp_wrptr p)) (m, wr_slot p i) ws) (wr_slot p 1) = m (wr_slot p 1)"
proof (induction ws arbitrary: m i)
  case Nil
  then show ?case by simp
next
  case (Cons w ws)
  let ?m = "m(wr_slot p i := w)"
  have N: "14 \<le> mp_words p" by (rule mp_end_words(2) [OF ok])
  have ne: "wr_slot p i \<noteq> mp_wrptr p" "wr_slot p i \<noteq> wr_slot p 1"
    using wr_slot_eq [OF ok, of i 0] wr_slot_eq [OF ok, of i 1] wr_slot_0 [OF ok] Cons.prems(2,3) N by auto
  have "mp_end p \<noteq> wr_slot p i" using wr_slot_in_pool [OF ok, of i] by (auto simp: in_pool_def)
  then have wrap: "?m (mp_end p) = word_of_int (mp_start p)" using Cons.prems(1) by simp
  have step: "rx_store (mp_end p) (mp_wrptr p) (m, wr_slot p i) w = (?m, wr_slot p (Suc i))"
    using ne next_ptr_wr_slot [of p m0 ?m i] ok wrap by (simp add: rx_store_eq)
  show ?case
  proof (cases "Suc i < mp_words p")
    case True
    then show ?thesis
      using Cons.IH [of ?m "Suc i"] wrap ne Cons.prems(2) by (simp add: step fun_upd_def)
  next
    case False
    then have "Suc i = mp_words p" using Cons.prems(3) by simp
    then have "wr_slot p (Suc i) = wr_slot p 0" by (simp add: wr_slot_def mp_slot_def)
    then have "wr_slot p (Suc i) = mp_wrptr p" by (simp add: wr_slot_0 [OF ok])
    then show ?thesis using ne by (simp only: foldl.simps step rx_words_full) simp
  qed
qed

lemma rx_pins_at_reader:
  assumes ok: "mp_ok (rp_pool s) (rp_mem s)" and meet: "rdptr = mp_wrptr (rp_pool s)"
  shows "getf (rp_mem (mii_master_rx_pins dummy rdptr f s)) rdptr timestamp_f = rx_time f"
proof -
  let ?p = "rp_pool s" and ?b = "mp_wrptr (rp_pool s)"
  have r: "mii_reserve dummy ?p rdptr = (?b, ?b)" by (simp add: mii_reserve_def meet Let_def)
  let ?m0 = "setf (rp_mem s) ?b timestamp_f (rx_time f)"
  obtain m e where run: "foldl (rx_store (mp_end ?p) ?b) (?m0, pkt_data ?b) (rx_words f) = (m, e)"
    by fastforce
  obtain tb crc where t: "rx_tail_crc (rx_taillen f) (rx_tail f)
      (foldl (\<lambda>crc word. crc32 crc word POLY) (rx_start_crc (rx_sfd f)) (rx_words f)) = (tb, crc)"
    by fastforce
  have ts: "?b + fld_off timestamp_f = wr_slot ?p 1" using header_slots [OF ok, of 1] by simp
  have "mp_end ?p \<noteq> wr_slot ?p 1" using wr_slot_in_pool [OF ok, of 1] by (auto simp: in_pool_def)
  then have "?m0 (mp_end ?p) = word_of_int (mp_start ?p)"
    using ok by (simp add: setf_def mp_ok_def ts [simplified])
  then have "m (wr_slot ?p 1) = ?m0 (wr_slot ?p 1)"
    using rx_words_at_reader [OF ok, of ?m0 10 "rx_words f"] run mp_end_words(2) [OF ok]
    by (simp add: pkt_data_slot [OF ok])
  then have "getf m ?b timestamp_f = rx_time f" by (simp add: getf_def setf_def ts [simplified])
  then show ?thesis unfolding rx_pins_unfold [OF r run t] by (simp add: meet Let_def)
qed

text \<open>
  C28. The exception to \<open>rd_ok\<close>, and a loss of data: when the oldest live packet is at the start of
  the memory and a frame ends in its last \<open>MIN_USAGE\<close> bytes, committing the frame wraps the write
  pointer onto the read pointer. The full memory then looks empty to \<open>mii_reserve\<close>, and the next
  frame, whatever it is, overwrites the oldest live packet (here its timestamp).
\<close>

theorem rx_wrap_overwrites_oldest:
  assumes "mp_ok (rp_pool s) (rp_mem s)" "rd_ok (rp_pool s) rdptr" "dummy_apart (rp_pool s) dummy"
    and "14 \<le> free_words (rp_pool s) rdptr" "10 + length (rx_words f) < free_words (rp_pool s) rdptr"
    and "\<not> rx_er f" "unat (rx_taillen f) < 32"
    and oldest: "rdptr = mp_start (rp_pool s)"
    and last: "wr_slot (rp_pool s) (10 + length (rx_words f)) > mp_last_safe_wrptr (rp_pool s)"
  shows "let s' = mii_master_rx_pins dummy rdptr f s in
    mp_wrptr (rp_pool s') = rdptr \<and>
    getf (rp_mem (mii_master_rx_pins dummy rdptr g s')) rdptr timestamp_f = rx_time g"
proof -
  let ?s = "mii_master_rx_pins dummy rdptr f s"
  have pool: "rp_pool ?s = mii_commit (rp_pool s) (wr_slot (rp_pool s) (10 + length (rx_words f)))"
    using mii_master_rx_pins_accepts_fields [OF assms(1,2,4-7), of dummy] by (simp add: Let_def)
  then have meet: "rdptr = mp_wrptr (rp_pool ?s)" using oldest last by (simp add: mii_commit_def)
  have "mp_ok (rp_pool ?s) (rp_mem ?s)" by (rule rx_pins_keeps_ok [OF assms(1,2,3)])
  then show ?thesis using rx_pins_at_reader [OF _ meet, of dummy g] meet by (simp add: Let_def)
qed

section \<open>Examples\<close>

text \<open>
  The frame the transmitter makes of the example packet, as the receiver gets it, a receiver with
  an empty memory of 20 words, and the same receiver with a live packet at its start.
\<close>

definition example_frame :: rx_frame where
  "example_frame = \<lparr>rx_sfd = 0xD5555555, rx_time = 77,
     rx_words = [0xA5A5A5A5, 0xA5A5A5A5, 0xA5A5A5A5, 0xA5A5A5A5, 0xaba8beef],
     rx_taillen = 16, rx_tail = 0xc7b00000, rx_er = False\<rparr>"

definition example_rx :: rx_pins where
  "example_rx = \<lparr>rp_pool = example_pool, rp_mem = (\<lambda>_. 0)(0x1050 := 0x1000), rp_incoming = mii_init_packet_queue\<rparr>"

definition example_live :: rx_pins where
  "example_live = example_rx\<lparr>rp_pool := example_pool\<lparr>mp_end := 0x1100, mp_wrptr := 0x1080, mp_last_safe_wrptr := 0x10C8\<rparr>,
     rp_mem := (\<lambda>_. 0)(0x1100 := 0x1000)\<rparr>"

lemma example_rx_ok:
  "mp_ok (rp_pool example_rx) (rp_mem example_rx)" "rd_ok (rp_pool example_rx) 0"
  "dummy_apart (rp_pool example_rx) (0x2000, 0x2028)" "free_words (rp_pool example_rx) 0 = 20"
  "rx_words example_frame = [0xA5A5A5A5, 0xA5A5A5A5, 0xA5A5A5A5, 0xA5A5A5A5, 0xaba8beef]"
  "\<not> rx_er example_frame" "rx_taillen example_frame = 16"
  by (simp_all add: example_rx_def example_frame_def example_pool_def mp_ok_def in_pool_def MIN_USAGE_56
      rd_ok_def dummy_apart_def pkt_data_def free_words_def mp_words_def)

lemma example_live_ok:
  "mp_ok (rp_pool example_live) (rp_mem example_live)" "rd_ok (rp_pool example_live) 0x1000"
  "dummy_apart (rp_pool example_live) (0x2000, 0x2028)" "free_words (rp_pool example_live) 0x1000 = 32"
  by (simp_all add: example_live_def example_rx_def example_pool_def mp_ok_def in_pool_def MIN_USAGE_56
      rd_ok_def dummy_apart_def pkt_data_def free_words_def mp_words_def wr_dist_def ring_dist_def mp_index_def)


lemma mii_master_rx_pins_ok_witness:
  "mp_ok (rp_pool (mii_master_rx_pins (0x2000, 0x2028) 0x1000 example_frame example_live))
     (rp_mem (mii_master_rx_pins (0x2000, 0x2028) 0x1000 example_frame example_live))"
  by (rule mii_master_rx_pins_ok [OF example_live_ok(1,2,3)])

lemma mii_master_rx_pins_accepts_witness:
  "let s' = mii_master_rx_pins (0x2000, 0x2028) 0 example_frame example_rx; buf = mp_wrptr (rp_pool example_rx) in
    stored (rp_pool example_rx) 10 (rx_words example_frame) (rp_mem s') \<and>
    getf (rp_mem s') buf timestamp_f = rx_time example_frame \<and>
    getf (rp_mem s') buf length_f =
      4 * of_nat (length (rx_words example_frame)) + of_nat (unat (rx_taillen example_frame) div 8) - 4 \<and>
    getf (rp_mem s') buf crc_f = crc_bits POLY (rx_start_crc (rx_sfd example_frame)) (frame_bits example_frame) \<and>
    rp_incoming s' = mii_add_packet (rp_incoming example_rx) buf \<and>
    rp_pool s' = mii_commit (rp_pool example_rx) (wr_slot (rp_pool example_rx) (10 + length (rx_words example_frame)))"
  by (rule mii_master_rx_pins_accepts [OF example_rx_ok(1,2)]) (simp_all add: example_rx_ok)

lemma mii_master_rx_pins_drops_witness:
  "rp_pool (mii_master_rx_pins (0x2000, 0x2028) 0 (example_frame\<lparr>rx_er := True\<rparr>) example_rx) = rp_pool example_rx \<and>
    rp_incoming (mii_master_rx_pins (0x2000, 0x2028) 0 (example_frame\<lparr>rx_er := True\<rparr>) example_rx) =
    rp_incoming example_rx"
  by (rule mii_master_rx_pins_drops [OF example_rx_ok(1,2,3)]) simp

lemma example_frame_bits:
  "frame_bits example_frame = bytes_bits (slot_bytes example_pool example_mem 16 18) @ bits_of 32 0xc7b0aba8"
  by code_simp

lemma rx_crc_detects_witness:
  "getf (rp_mem (mii_master_rx_pins (0x2000, 0x2028) 0 example_frame example_rx))
     (mp_wrptr (rp_pool example_rx)) crc_f = NOT 0 \<longleftrightarrow>
    0xc7b0aba8 = ieee_crc (bytes_bits (slot_bytes example_pool example_mem 16 18))"
  by (rule rx_crc_detects [OF example_rx_ok(1,2) _ _ _ _ _ example_frame_bits])
     (simp_all add: example_rx_ok, code_simp)

lemma example_fcs: "ieee_crc (bytes_bits (slot_bytes example_pool example_mem 16 18)) = 0xc7b0aba8"
  by code_simp

lemma example_wire:
  "wire_bits (fst (mii_transmit_packet example_pool example_mem 0x1018 (\<lambda>_. 0))) =
    bits_of 32 0x55555555 @ bits_of 32 (rx_sfd example_frame) @ frame_bits example_frame"
proof -
  have "wire_bits (fst (mii_transmit_packet example_pool example_mem 0x1018 (\<lambda>_. 0))) =
      bytes_bits (replicate 7 0x55 @ [0xD5]) @ frame_bits example_frame"
    unfolding example_frame_bits example_fcs [symmetric]
    by (rule mii_transmit_packet_bits [OF example_packet]) simp
  also have "bytes_bits (replicate 7 0x55 @ [0xD5]) = bits_of 32 0x55555555 @ bits_of 32 (rx_sfd example_frame)"
    by code_simp
  finally show ?thesis by simp
qed

lemma mii_wire_roundtrip_witness:
  "let s' = mii_master_rx_pins (0x2000, 0x2028) 0 example_frame example_rx; b = mp_wrptr (rp_pool example_rx) in
    slot_bytes (rp_pool example_rx) (rp_mem s') (mp_index (rp_pool example_rx) b + 10) 18 =
      slot_bytes example_pool example_mem 16 18 \<and>
    getf (rp_mem s') b length_f = of_nat 18 \<and> getf (rp_mem s') b crc_f = NOT 0"
  by (rule mii_wire_roundtrip [OF example_packet _ example_wire example_rx_ok(1,2)])
     (simp_all add: example_rx_ok)

lemma rx_wrap_overwrites_oldest_witness:
  "let s' = mii_master_rx_pins (0x2000, 0x2028) 0x1000 (example_frame\<lparr>rx_words := replicate 10 0\<rparr>) example_live in
    mp_wrptr (rp_pool s') = 0x1000 \<and>
    getf (rp_mem (mii_master_rx_pins (0x2000, 0x2028) 0x1000 example_frame s')) 0x1000 timestamp_f = rx_time example_frame"
proof (rule rx_wrap_overwrites_oldest [OF example_live_ok(1,2,3)])
  show "wr_slot (rp_pool example_live) (10 + length (rx_words (example_frame\<lparr>rx_words := replicate 10 0\<rparr>))) >
      mp_last_safe_wrptr (rp_pool example_live)"
    by (simp add: example_live_def example_rx_def example_pool_def wr_slot_def mp_slot_def mp_index_def mp_words_def)
qed (simp_all add: example_live_ok example_rx_ok, simp add: example_live_def example_rx_def example_pool_def)

end
