(* ===== verification/Client_State.thy ===== *)
theory Client_State
  imports Memory
begin

text \<open>
  The types of the client interfaces (\<^verbatim>\<open>lib_ethernet/api/ethernet.h\<close>) and the state a MAC keeps
  for its clients and its port (\<^verbatim>\<open>lib_ethernet/src/client_state.h/.xc\<close>,
  \<^verbatim>\<open>lib_ethernet/src/server_state.h/.xc\<close>).
\<close>

section \<open>Interface types\<close>

datatype eth_packet_type_t = ETH_DATA | ETH_IF_STATUS | ETH_OUTGOING_TIMESTAMP_INFO | ETH_NO_DATA

datatype ethernet_speed_t =
  LINK_10_MBPS_FULL_DUPLEX | LINK_100_MBPS_FULL_DUPLEX | LINK_1000_MBPS_FULL_DUPLEX | NUM_ETHERNET_SPEEDS

fun speed_num :: "ethernet_speed_t \<Rightarrow> nat" where
  "speed_num LINK_10_MBPS_FULL_DUPLEX = 0"
| "speed_num LINK_100_MBPS_FULL_DUPLEX = 1"
| "speed_num LINK_1000_MBPS_FULL_DUPLEX = 2"
| "speed_num NUM_ETHERNET_SPEEDS = 3"

datatype ethernet_link_state_t = ETHERNET_LINK_DOWN | ETHERNET_LINK_UP

fun link_num :: "ethernet_link_state_t \<Rightarrow> nat" where
  "link_num ETHERNET_LINK_DOWN = 0"
| "link_num ETHERNET_LINK_UP = 1"

record ethernet_packet_info_t =
  pi_type :: eth_packet_type_t
  pi_len :: u32
  pi_timestamp :: u32
  pi_src_ifnum :: u32
  pi_filter_data :: u32

section \<open>Port state\<close>

record ethernet_port_state_t =
  ps_link_state :: ethernet_link_state_t
  ps_link_speed :: ethernet_speed_t
  ps_qav_shaper_enabled :: bool
  ps_qav_idle_slope :: u32
  ps_ingress_ts_latency :: "u32 list"
  ps_egress_ts_latency :: "u32 list"

abbreviation MII_CREDIT_FRACTIONAL_BITS :: nat where "MII_CREDIT_FRACTIONAL_BITS \<equiv> 16"

text \<open>The structure is zeroed first: the speed is the first of its enumeration, the latencies are 0.\<close>

definition init_server_port_state :: "bool \<Rightarrow> ethernet_port_state_t" where
  "init_server_port_state enable_qav_shaper =
     \<lparr>ps_link_state = ETHERNET_LINK_DOWN, ps_link_speed = LINK_10_MBPS_FULL_DUPLEX,
      ps_qav_shaper_enabled = enable_qav_shaper,
      ps_qav_idle_slope = push_bit MII_CREDIT_FRACTIONAL_BITS 11,
      ps_ingress_ts_latency = replicate (speed_num NUM_ETHERNET_SPEEDS) 0,
      ps_egress_ts_latency = replicate (speed_num NUM_ETHERNET_SPEEDS) 0\<rparr>"

section \<open>Client state\<close>

datatype status_update_state_t = STATUS_UPDATE_IGNORING | STATUS_UPDATE_WAITING | STATUS_UPDATE_PENDING

abbreviation ETHERNET_MAX_ETHERTYPE_FILTERS :: nat where "ETHERNET_MAX_ETHERTYPE_FILTERS \<equiv> 2"

text \<open>
  A receive client: its ring of packet indices (pointers, in the RGMII MAC) between the read and
  the write index, and its filter settings.
\<close>

record rx_client_state_t =
  rc_dropped_pkt_cnt :: u32
  rc_rd_index :: u32
  rc_wr_index :: u32
  rc_fifo :: "u32 list"
  rc_status_update_state :: status_update_state_t
  rc_num_etype_filters :: nat
  rc_strip_vlan_tags :: bool
  rc_etype_filters :: "u16 list"

record tx_client_state_t =
  tc_requested_send_buffer_size :: u32
  tc_send_buffer :: addr
  tc_has_outgoing_timestamp_info :: bool
  tc_outgoing_timestamp :: u32

definition init_rx_client_state :: "rx_client_state_t list \<Rightarrow> rx_client_state_t list" where
  "init_rx_client_state client_state =
     map (\<lambda>c. c\<lparr>rc_dropped_pkt_cnt := 0, rc_rd_index := 0, rc_wr_index := 0,
            rc_status_update_state := STATUS_UPDATE_WAITING, rc_num_etype_filters := 0,
            rc_strip_vlan_tags := False\<rparr>) client_state"

definition init_tx_client_state :: "tx_client_state_t list \<Rightarrow> tx_client_state_t list" where
  "init_tx_client_state client_state =
     map (\<lambda>c. c\<lparr>tc_requested_send_buffer_size := 0, tc_send_buffer := 0,
            tc_has_outgoing_timestamp_info := False\<rparr>) client_state"

section \<open>Settings of a receive client\<close>

text \<open>\<open>None\<close> is the failed assertion: a client has at most two Ethertype filters.\<close>

definition add_ethertype_filter :: "u16 \<Rightarrow> rx_client_state_t \<Rightarrow> rx_client_state_t option" where
  "add_ethertype_filter ethertype c =
     (let n = rc_num_etype_filters c
      in if n < ETHERNET_MAX_ETHERTYPE_FILTERS
         then Some (c\<lparr>rc_etype_filters := (rc_etype_filters c)[n := ethertype], rc_num_etype_filters := n + 1\<rparr>)
         else None)"

text \<open>The loop that replaces each occurrence by the last filter.\<close>

function del_etype_loop :: "u16 \<Rightarrow> nat \<Rightarrow> nat \<Rightarrow> u16 list \<Rightarrow> nat \<times> u16 list" where
  "del_etype_loop ethertype j n filters =
     (if j < n
      then (if filters ! j = ethertype
            then del_etype_loop ethertype j (n - 1) (filters[j := filters ! (n - 1)])
            else del_etype_loop ethertype (j + 1) n filters)
      else (n, filters))"
  by pat_completeness auto
termination by (relation "measure (\<lambda>(_, j, n, _). n - j)") auto

declare del_etype_loop.simps [simp del]

definition del_ethertype_filter :: "u16 \<Rightarrow> rx_client_state_t \<Rightarrow> rx_client_state_t" where
  "del_ethertype_filter ethertype c =
     (let (n, filters) = del_etype_loop ethertype 0 (rc_num_etype_filters c) (rc_etype_filters c)
      in c\<lparr>rc_num_etype_filters := n, rc_etype_filters := filters\<rparr>)"

text \<open>Whether a client that has filters accepts a type: the search stops at the first match.\<close>

definition etype_filters :: "rx_client_state_t \<Rightarrow> u16 list" where
  "etype_filters c = take (rc_num_etype_filters c) (rc_etype_filters c)"

definition client_ok :: "nat \<Rightarrow> rx_client_state_t \<Rightarrow> bool" where
  "client_ok k c \<longleftrightarrow> length (rc_fifo c) = k \<and> unat (rc_rd_index c) < k \<and> unat (rc_wr_index c) < k \<and>
     rc_num_etype_filters c \<le> ETHERNET_MAX_ETHERTYPE_FILTERS \<and>
     length (rc_etype_filters c) = ETHERNET_MAX_ETHERTYPE_FILTERS"

lemma del_etype_loop_spec:
  assumes "j \<le> n" "n \<le> length fs" "del_etype_loop e j n fs = (n', fs')"
  shows "n' \<le> n \<and> length fs' = length fs \<and>
    set (take n' fs') = set (take j fs) \<union> (set (take (n - j) (drop j fs)) - {e})"
  using assms
proof (induction e j n fs rule: del_etype_loop.induct)
  case (1 e j n fs)
  show ?case
  proof (cases "j < n")
    case False
    then show ?thesis using 1(3-5) by (subst (asm) del_etype_loop.simps) auto
  next
    case True
    have split: "set (take (n - j) (drop j fs)) = insert (fs ! j) (set (take (n - Suc j) (drop (Suc j) fs)))"
      using True 1(4) by (simp add: Cons_nth_drop_Suc [symmetric] Suc_diff_Suc [symmetric])
    show ?thesis
    proof (cases "fs ! j = e")
      case False
      have "take (Suc j) fs = take j fs @ [fs ! j]" using True 1(4) by (simp add: take_Suc_conv_app_nth)
      then show ?thesis
        using 1(2) [OF True False] 1(4,5) True False split
        by (subst (asm) (2) del_etype_loop.simps) auto
    next
      case eq: True
      let ?fs = "fs[j := fs ! (n - 1)]"
      have run: "del_etype_loop e j (n - 1) ?fs = (n', fs')"
        using 1(5) True eq by (subst (asm) del_etype_loop.simps) simp
      have IH: "n' \<le> n - 1 \<and> length fs' = length fs \<and>
          set (take n' fs') = set (take j ?fs) \<union> (set (take (n - 1 - j) (drop j ?fs)) - {e})"
        using 1(1) [OF True eq _ _ run] True 1(4) by simp
      have a: "take (n - j) (drop j fs) = fs ! j # take (n - 1 - j) (drop (Suc j) fs)"
        using True 1(4) by (simp add: Cons_nth_drop_Suc [symmetric] Suc_diff_Suc [symmetric])
      have b: "set (take (n - 1 - j) (drop j ?fs)) - {e} = set (take (n - j) (drop j fs)) - {e}"
      proof (cases "j = n - 1")
        case True
        then show ?thesis using a eq by simp
      next
        case False
        then have "j < n - 1" using True by simp
        then have d: "take (n - 1 - j) (drop j ?fs) = fs ! (n - 1) # take (n - 2 - j) (drop (Suc j) fs)"
          using 1(4) by (simp add: Cons_nth_drop_Suc [symmetric] Suc_diff_Suc [symmetric] drop_update_cancel numeral_2_eq_2)
        have "take (n - 1 - j) (drop (Suc j) fs) = take (n - 2 - j) (drop (Suc j) fs) @ [fs ! (n - 1)]"
          using \<open>j < n - 1\<close> 1(4) take_Suc_conv_app_nth [of "n - 2 - j" "drop (Suc j) fs"]
          by (simp add: Suc_diff_Suc numeral_2_eq_2)
        then show ?thesis using a d eq by auto
      qed
      show ?thesis using IH b True by auto
    qed
  qed
qed

text \<open>
  Deleting an Ethertype filter ends, removes every occurrence of the type from the filters of
  the client, keeps all the others, and keeps the client state well formed.
\<close>

theorem del_ethertype_filter_spec:
  assumes ok: "client_ok k c"
  shows "set (etype_filters (del_ethertype_filter e c)) = set (etype_filters c) - {e} \<and>
    client_ok k (del_ethertype_filter e c)"
proof -
  obtain n fs where run: "del_etype_loop e 0 (rc_num_etype_filters c) (rc_etype_filters c) = (n, fs)" by fastforce
  have "n \<le> rc_num_etype_filters c \<and> length fs = length (rc_etype_filters c) \<and>
      set (take n fs) = set (etype_filters c) - {e}"
    using del_etype_loop_spec [OF _ _ run] ok by (simp add: client_ok_def etype_filters_def)
  then show ?thesis using ok run by (simp add: del_ethertype_filter_def etype_filters_def client_ok_def)
qed

definition example_client :: rx_client_state_t where
  "example_client = \<lparr>rc_dropped_pkt_cnt = 0, rc_rd_index = 0, rc_wr_index = 0, rc_fifo = [0, 0, 0, 0],
     rc_status_update_state = STATUS_UPDATE_WAITING, rc_num_etype_filters = 2, rc_strip_vlan_tags = False,
     rc_etype_filters = [0x800, 0x806]\<rparr>"

lemma del_ethertype_filter_spec_witness:
  "set (etype_filters (del_ethertype_filter 0x800 example_client)) = set (etype_filters example_client) - {0x800} \<and>
    client_ok 4 (del_ethertype_filter 0x800 example_client)"
  by (rule del_ethertype_filter_spec) (simp add: client_ok_def example_client_def)

end
