(* ===== verification/Macaddr_Filter.thy ===== *)
theory Macaddr_Filter
  imports Prelude
begin

text \<open>
  The destination address filter of the 10/100 MACs, \<^verbatim>\<open>lib_ethernet/src/macaddr_filter.xc\<close>: a
  table of 30 entries, each with an address, a word of client bits whose top bit marks the high
  priority client, and a word of user data. An entry is in use when its result word is not zero.
  The abstract filter is the map from addresses to result words (\<open>filter_map\<close>); each operation is
  proved to update it at one address, or at all, as its name says.
\<close>

section \<open>Result words\<close>

definition ethernet_filter_result_is_hp :: "u32 \<Rightarrow> u32" where
  "ethernet_filter_result_is_hp value = (if drop_bit 31 value \<noteq> 0 then 1 else 0)"

definition ethernet_filter_result_interfaces :: "u32 \<Rightarrow> u32" where
  "ethernet_filter_result_interfaces value = drop_bit 1 (push_bit 1 value)"

definition ethernet_filter_result_set_hp :: "u32 \<Rightarrow> u32 \<Rightarrow> u32" where
  "ethernet_filter_result_set_hp value is_hp =
     (let is_hp = (if is_hp \<noteq> 0 then 1 else 0) in value OR push_bit 31 is_hp)"

definition client_bit :: "u32 \<Rightarrow> u32" where
  "client_bit client_num = push_bit (unat client_num) 1"

section \<open>State and operations\<close>

record ethernet_macaddr_filter_t =
  mf_addr :: "u8 list"
  mf_appdata :: u32

record eth_global_filter_entry_t =
  fe_addr :: "u8 list"
  fe_result :: u32
  fe_appdata :: u32

type_synonym eth_global_filter_info_t = "eth_global_filter_entry_t list"

datatype ethernet_macaddr_filter_result_t =
  ETHERNET_MACADDR_FILTER_SUCCESS | ETHERNET_MACADDR_FILTER_TABLE_FULL

abbreviation ETHERNET_MACADDR_FILTER_TABLE_SIZE :: nat where
  "ETHERNET_MACADDR_FILTER_TABLE_SIZE \<equiv> 30"

definition ethernet_init_filter_table :: eth_global_filter_info_t where
  "ethernet_init_filter_table =
     replicate ETHERNET_MACADDR_FILTER_TABLE_SIZE \<lparr>fe_addr = replicate 6 0, fe_result = 0, fe_appdata = 0\<rparr>"

text \<open>
  The two words the code compares: the first four bytes, and the next two after masking
  (\<^verbatim>\<open>words[1] & 0xffff\<close>).
\<close>

definition addr_words :: "u8 list \<Rightarrow> u32 \<times> u32" where
  "addr_words bs =
     (ucast (bs ! 0) OR push_bit 8 (ucast (bs ! 1)) OR push_bit 16 (ucast (bs ! 2)) OR push_bit 24 (ucast (bs ! 3)),
      ucast (bs ! 4) OR push_bit 8 (ucast (bs ! 5)))"

definition mac_match :: "u8 list \<Rightarrow> eth_global_filter_entry_t \<Rightarrow> bool" where
  "mac_match buf e \<longleftrightarrow> fe_result e \<noteq> 0 \<and>
     fst (addr_words buf) = fst (addr_words (fe_addr e)) \<and>
     snd (addr_words buf) = snd (addr_words (fe_addr e))"

text \<open>
  The two loops of an addition. The first returns at the first matching entry, by failing the
  assertion when its priority differs; the second takes the first entry not in use.
\<close>

datatype add_outcome = Assertion_Failed | Not_Found | Updated eth_global_filter_info_t

fun outcome_cons :: "eth_global_filter_entry_t \<Rightarrow> add_outcome \<Rightarrow> add_outcome" where
  "outcome_cons e (Updated t) = Updated (e # t)"
| "outcome_cons e r = r"

primrec add_to_match :: "u32 \<Rightarrow> u32 \<Rightarrow> u8 list \<Rightarrow> eth_global_filter_info_t \<Rightarrow> add_outcome" where
  "add_to_match client_num is_hp addr [] = Not_Found"
| "add_to_match client_num is_hp addr (e # t) =
     (if \<not> mac_match addr e then outcome_cons e (add_to_match client_num is_hp addr t)
      else if ethernet_filter_result_is_hp (fe_result e) \<noteq> is_hp then Assertion_Failed
      else Updated (e\<lparr>fe_result := fe_result e OR client_bit client_num\<rparr> # t))"

primrec add_to_empty ::
    "u32 \<Rightarrow> u32 \<Rightarrow> ethernet_macaddr_filter_t \<Rightarrow> eth_global_filter_info_t \<Rightarrow> add_outcome" where
  "add_to_empty client_num is_hp entry [] = Not_Found"
| "add_to_empty client_num is_hp entry (e # t) =
     (if fe_result e \<noteq> 0 then outcome_cons e (add_to_empty client_num is_hp entry t)
      else Updated (\<lparr>fe_addr = mf_addr entry,
             fe_result = ethernet_filter_result_set_hp (client_bit client_num) is_hp,
             fe_appdata = mf_appdata entry\<rparr> # t))"

text \<open>\<open>None\<close> is the failed assertion.\<close>

definition ethernet_add_filter_table_entry ::
    "eth_global_filter_info_t \<Rightarrow> u32 \<Rightarrow> u32 \<Rightarrow> ethernet_macaddr_filter_t \<Rightarrow>
     (ethernet_macaddr_filter_result_t \<times> eth_global_filter_info_t) option" where
  "ethernet_add_filter_table_entry table client_num is_hp entry =
     (case add_to_match client_num is_hp (mf_addr entry) table of
        Assertion_Failed \<Rightarrow> None
      | Updated t \<Rightarrow> Some (ETHERNET_MACADDR_FILTER_SUCCESS, t)
      | Not_Found \<Rightarrow>
          (case add_to_empty client_num is_hp entry table of
             Updated t \<Rightarrow> Some (ETHERNET_MACADDR_FILTER_SUCCESS, t)
           | _ \<Rightarrow> Some (ETHERNET_MACADDR_FILTER_TABLE_FULL, table)))"

text \<open>The client bit goes; a high priority entry without clients loses its priority bit too.\<close>

definition drop_client :: "u32 \<Rightarrow> u32 \<Rightarrow> u32 \<Rightarrow> u32" where
  "drop_client client_num is_hp result =
     (let result = result AND NOT (client_bit client_num)
      in if is_hp \<noteq> 0 \<and> ethernet_filter_result_interfaces result = 0 then 0 else result)"

definition ethernet_del_filter_table_entry ::
    "eth_global_filter_info_t \<Rightarrow> u32 \<Rightarrow> u32 \<Rightarrow> ethernet_macaddr_filter_t \<Rightarrow> eth_global_filter_info_t" where
  "ethernet_del_filter_table_entry table client_num is_hp entry =
     map (\<lambda>e. if \<not> mac_match (mf_addr entry) e then e
              else if ethernet_filter_result_is_hp (fe_result e) \<noteq> is_hp then e
              else e\<lparr>fe_result := drop_client client_num is_hp (fe_result e)\<rparr>) table"

definition ethernet_clear_filter_table ::
    "eth_global_filter_info_t \<Rightarrow> u32 \<Rightarrow> u32 \<Rightarrow> eth_global_filter_info_t" where
  "ethernet_clear_filter_table table client_num is_hp =
     map (\<lambda>e. e\<lparr>fe_result := drop_client client_num is_hp (fe_result e)\<rparr>) table"

text \<open>The result and the user data, which keeps its value when nothing matches.\<close>

definition ethernet_do_filtering ::
    "eth_global_filter_info_t \<Rightarrow> u8 list \<Rightarrow> u32 \<Rightarrow> u32 \<times> u32" where
  "ethernet_do_filtering table buf appdata =
     foldl (\<lambda>(result, appdata) e. if \<not> mac_match buf e then (result, appdata)
              else (fe_result e, fe_appdata e)) (0, appdata) table"

section \<open>Addresses\<close>

lemma addr_words_inj:
  assumes "length xs = 6" "length ys = 6"
  shows "addr_words xs = addr_words ys \<longleftrightarrow> xs = ys"
proof
  assume eq: "addr_words xs = addr_words ys"
  have "xs ! i = ys ! i" if "i < 6" for i
  proof (rule bit_word_eqI)
    fix n assume "n < LENGTH(8)"
    then have n: "n < 8" by simp
    have w: "bit (fst (addr_words zs)) (8 * i + n) \<longleftrightarrow> bit (zs ! i) n" if "i < 4" for zs i
    proof -
      from that have "i = 0 \<or> i = 1 \<or> i = 2 \<or> i = 3" by arith
      then show ?thesis using n by (elim disjE) (auto simp: addr_words_def bit_simps dest: bit_imp_le_length)
    qed
    have v: "bit (snd (addr_words zs)) (8 * i + n) \<longleftrightarrow> bit (zs ! (4 + i)) n" if "i < 2" for zs i
    proof -
      from that have "i = 0 \<or> i = 1" by arith
      then show ?thesis using n by (elim disjE) (auto simp: addr_words_def bit_simps dest: bit_imp_le_length)
    qed
    show "bit (xs ! i) n = bit (ys ! i) n"
      using w [of i xs] w [of i ys] v [of "i - 4" xs] v [of "i - 4" ys] eq that by (cases "i < 4") auto
  qed
  then show "xs = ys" using assms by (intro nth_equalityI) auto
qed simp

section \<open>The filter as a map\<close>

primrec filter_entries :: "eth_global_filter_info_t \<Rightarrow> u8 list \<Rightarrow> (u32 \<times> u32) option" where
  "filter_entries [] = Map.empty"
| "filter_entries (e # t) =
     (if fe_result e \<noteq> 0 then (filter_entries t)(fe_addr e \<mapsto> (fe_result e, fe_appdata e))
      else filter_entries t)"

primrec unique_addrs :: "eth_global_filter_info_t \<Rightarrow> bool" where
  "unique_addrs [] \<longleftrightarrow> True"
| "unique_addrs (e # t) \<longleftrightarrow>
     length (fe_addr e) = 6 \<and> (fe_result e \<noteq> 0 \<longrightarrow> filter_entries t (fe_addr e) = None) \<and> unique_addrs t"

text \<open>The invariant: all addresses have six bytes, and no address is in use twice.\<close>

definition filter_ok :: "eth_global_filter_info_t \<Rightarrow> bool" where
  "filter_ok t \<longleftrightarrow> length t = ETHERNET_MACADDR_FILTER_TABLE_SIZE \<and> unique_addrs t"

lemma mac_match_iff:
  "length a = 6 \<Longrightarrow> length (fe_addr e) = 6 \<Longrightarrow> mac_match a e \<longleftrightarrow> fe_result e \<noteq> 0 \<and> fe_addr e = a"
  using addr_words_inj [of a "fe_addr e"] by (auto simp: mac_match_def prod_eq_iff)

lemma filter_entries_nonzero: "filter_entries t a = Some (r, d) \<Longrightarrow> r \<noteq> 0"
  by (induction t) (auto split: if_splits)

lemma or_nonzero: "r \<noteq> 0 \<Longrightarrow> r OR s \<noteq> (0 :: u32)"
  by (auto simp: bit_eq_iff bit_simps)

lemma client_bit_bit: "bit (client_bit k) n \<longleftrightarrow> n = unat k \<and> unat k < 32"
  by (auto simp: client_bit_def bit_simps bit_1_iff dest: bit_imp_le_length)

lemma client_bit_nonzero: "unat k < 32 \<Longrightarrow> client_bit k \<noteq> 0"
  by (auto simp: bit_eq_iff client_bit_bit)

lemma set_hp_nonzero: "unat k < 32 \<Longrightarrow> ethernet_filter_result_set_hp (client_bit k) h \<noteq> 0"
  by (simp add: ethernet_filter_result_set_hp_def Let_def or_nonzero client_bit_nonzero)

text \<open>What the loops do, in terms of the map.\<close>

lemma add_to_match_none:
  "unique_addrs t \<Longrightarrow> length a = 6 \<Longrightarrow> filter_entries t a = None \<Longrightarrow> add_to_match k h a t = Not_Found"
  by (induction t) (auto simp: mac_match_iff split: if_splits)

lemma add_to_match_some:
  assumes "unique_addrs t" "length a = 6" "filter_entries t a = Some (r, d)"
  shows "if ethernet_filter_result_is_hp r \<noteq> h then add_to_match k h a t = Assertion_Failed
    else \<exists>t'. add_to_match k h a t = Updated t' \<and> length t' = length t \<and> unique_addrs t' \<and>
      filter_entries t' = (filter_entries t)(a \<mapsto> (r OR client_bit k, d))"
  using assms
proof (induction t)
  case Nil
  then show ?case by simp
next
  case (Cons e t)
  show ?case
  proof (cases "mac_match a e")
    case True
    then have "fe_addr e = a" "fe_result e = r" "fe_appdata e = d" "r \<noteq> 0"
      using Cons.prems by (auto simp: mac_match_iff)
    then show ?thesis using Cons.prems True by (auto simp: or_nonzero)
  next
    case False
    then have "filter_entries t a = Some (r, d)" using Cons.prems by (auto simp: mac_match_iff split: if_splits)
    moreover have "fe_addr e \<noteq> a" if "fe_result e \<noteq> 0" using False Cons.prems that by (auto simp: mac_match_iff)
    ultimately show ?thesis
      using Cons.IH Cons.prems False by (cases "ethernet_filter_result_is_hp r \<noteq> h") (auto simp: fun_upd_twist)
  qed
qed

lemma add_to_empty_full: "\<forall>e\<in>set t. fe_result e \<noteq> 0 \<Longrightarrow> add_to_empty k h entry t = Not_Found"
  by (induction t) auto

lemma add_to_empty_free:
  assumes "unique_addrs t" "length (mf_addr entry) = 6" "filter_entries t (mf_addr entry) = None"
    "\<exists>e\<in>set t. fe_result e = 0" "unat k < 32"
  shows "\<exists>t'. add_to_empty k h entry t = Updated t' \<and> length t' = length t \<and> unique_addrs t' \<and>
    filter_entries t' = (filter_entries t)(mf_addr entry \<mapsto>
      (ethernet_filter_result_set_hp (client_bit k) h, mf_appdata entry))"
  using assms
proof (induction t)
  case Nil
  then show ?case by simp
next
  case (Cons e t)
  show ?case
  proof (cases "fe_result e = 0")
    case True
    then show ?thesis using Cons.prems by (simp add: set_hp_nonzero fun_upd_def)
  next
    case False
    then have "fe_addr e \<noteq> mf_addr entry" "filter_entries t (mf_addr entry) = None"
      using Cons.prems(3) by (auto split: if_splits)
    with False show ?thesis using Cons.IH Cons.prems by (auto simp: fun_eq_iff)
  qed
qed

lemma do_filtering_fold:
  "unique_addrs t \<Longrightarrow> length a = 6 \<Longrightarrow>
   foldl (\<lambda>(result, appdata) e. if \<not> mac_match a e then (result, appdata) else (fe_result e, fe_appdata e))
     (r0, d0) t = (case filter_entries t a of None \<Rightarrow> (r0, d0) | Some rd \<Rightarrow> rd)"
  by (induction t arbitrary: r0 d0) (auto simp: mac_match_iff split: option.splits)

text \<open>Updating results by a function that keeps unused entries unused.\<close>

lemma filter_entries_map:
  assumes "unique_addrs t" "\<And>a. g a 0 = 0"
  shows "unique_addrs (map (\<lambda>e. e\<lparr>fe_result := g (fe_addr e) (fe_result e)\<rparr>) t)"
    "filter_entries (map (\<lambda>e. e\<lparr>fe_result := g (fe_addr e) (fe_result e)\<rparr>) t) a =
      Option.bind (filter_entries t a) (\<lambda>(r, d). if g a r = 0 then None else Some (g a r, d))"
proof -
  let ?f = "map (\<lambda>e. e\<lparr>fe_result := g (fe_addr e) (fe_result e)\<rparr>)"
  have m: "unique_addrs t \<Longrightarrow> filter_entries (?f t) a =
      Option.bind (filter_entries t a) (\<lambda>(r, d). if g a r = 0 then None else Some (g a r, d))" for t a
    by (induction t) (auto simp: assms(2))
  show "filter_entries (?f t) a =
      Option.bind (filter_entries t a) (\<lambda>(r, d). if g a r = 0 then None else Some (g a r, d))"
    by (rule m [OF assms(1)])
  show "unique_addrs (?f t)"
    using assms(1) by (induction t) (auto simp: m assms(2))
qed

section \<open>The operations refine the map\<close>

lemma init_filter_ok: "filter_ok ethernet_init_filter_table \<and> filter_entries ethernet_init_filter_table = Map.empty"
proof -
  have "unique_addrs (replicate n \<lparr>fe_addr = replicate 6 0, fe_result = 0, fe_appdata = 0\<rparr>) \<and>
      filter_entries (replicate n \<lparr>fe_addr = replicate 6 0, fe_result = 0, fe_appdata = 0\<rparr>) = Map.empty" for n
    by (induction n) simp_all
  then show ?thesis by (simp add: filter_ok_def ethernet_init_filter_table_def)
qed

lemma ethernet_do_filtering_entries:
  assumes "filter_ok t" "length buf = 6"
  shows "ethernet_do_filtering t buf appdata =
    (case filter_entries t buf of None \<Rightarrow> (0, appdata) | Some (result, d) \<Rightarrow> (result, d))"
  using assms do_filtering_fold [of t buf 0 appdata]
  by (simp add: ethernet_do_filtering_def filter_ok_def split: option.splits prod.splits)

text \<open>
  C23. Filtering a packet looks its destination address up in the map of the entries in use: the
  result is 0 with the user data unchanged for an unknown address, and the client bits and user
  data of the one entry that has it otherwise.
\<close>

theorem ethernet_do_filtering_spec:
  assumes "filter_ok t" "length buf = 6"
  shows "ethernet_do_filtering t buf appdata =
    (case filter_entries t buf of None \<Rightarrow> (0, appdata) | Some (result, d) \<Rightarrow> (result, d))"
  by (rule ethernet_do_filtering_entries [OF assms])

text \<open>
  Adding an address: one already in use gets the client bit (its user data stay), provided
  the priorities agree, or else the assertion fails; a new one takes a free entry with the client
  bit, the priority and the user data given, or the table is full and unchanged. Every other
  address keeps its entry, and no address is ever in use twice.
\<close>

theorem ethernet_add_filter_table_entry_spec:
  assumes ok: "filter_ok t" and a: "length (mf_addr entry) = 6" and k: "unat client_num < 32"
  shows "case filter_entries t (mf_addr entry) of
      Some (r, d) \<Rightarrow>
        if ethernet_filter_result_is_hp r \<noteq> is_hp
        then ethernet_add_filter_table_entry t client_num is_hp entry = None
        else \<exists>t'. ethernet_add_filter_table_entry t client_num is_hp entry =
            Some (ETHERNET_MACADDR_FILTER_SUCCESS, t') \<and> filter_ok t' \<and>
          filter_entries t' = (filter_entries t)(mf_addr entry \<mapsto> (r OR client_bit client_num, d))
    | None \<Rightarrow>
        if \<forall>e\<in>set t. fe_result e \<noteq> 0
        then ethernet_add_filter_table_entry t client_num is_hp entry =
          Some (ETHERNET_MACADDR_FILTER_TABLE_FULL, t)
        else \<exists>t'. ethernet_add_filter_table_entry t client_num is_hp entry =
            Some (ETHERNET_MACADDR_FILTER_SUCCESS, t') \<and> filter_ok t' \<and>
          filter_entries t' = (filter_entries t)(mf_addr entry \<mapsto>
            (ethernet_filter_result_set_hp (client_bit client_num) is_hp, mf_appdata entry))"
proof (cases "filter_entries t (mf_addr entry)")
  case None
  note none = add_to_match_none [OF _ a None, of client_num is_hp]
  show ?thesis
    using ok None none add_to_empty_full [of t client_num is_hp entry]
      add_to_empty_free [OF _ a None _ k, of is_hp]
    by (cases "\<forall>e\<in>set t. fe_result e \<noteq> 0")
       (auto simp: ethernet_add_filter_table_entry_def filter_ok_def)
next
  case (Some rd)
  obtain r d where rd: "rd = (r, d)" by (cases rd)
  then show ?thesis
    using ok Some add_to_match_some [OF _ a Some [unfolded rd], of is_hp client_num]
    by (auto simp: ethernet_add_filter_table_entry_def filter_ok_def split: if_splits)
qed

text \<open>
  Deleting an address for a client clears the client bit of its entry, when the priorities
  agree, and frees the entry when no client is left; all other addresses keep their entries.
\<close>

theorem ethernet_del_filter_table_entry_spec:
  assumes ok: "filter_ok t" and a: "length (mf_addr entry) = 6"
  shows "filter_ok (ethernet_del_filter_table_entry t client_num is_hp entry) \<and>
    filter_entries (ethernet_del_filter_table_entry t client_num is_hp entry) =
      (filter_entries t)(mf_addr entry := Option.bind (filter_entries t (mf_addr entry))
        (\<lambda>(r, d). if ethernet_filter_result_is_hp r \<noteq> is_hp then Some (r, d)
                else if drop_client client_num is_hp r = 0 then None
                else Some (drop_client client_num is_hp r, d)))"
proof -
  define g where "g b r = (if b = mf_addr entry \<and> r \<noteq> 0 \<and> ethernet_filter_result_is_hp r = is_hp
    then drop_client client_num is_hp r else r)" for b r
  have u: "unique_addrs t" using ok by (simp add: filter_ok_def)
  have six: "\<forall>e\<in>set t. length (fe_addr e) = 6" using u by (induction t) auto
  have "ethernet_del_filter_table_entry t client_num is_hp entry =
      map (\<lambda>e. e\<lparr>fe_result := g (fe_addr e) (fe_result e)\<rparr>) t"
    unfolding ethernet_del_filter_table_entry_def
    using six a by (intro map_cong refl) (auto simp: mac_match_iff g_def)
  moreover have "g b 0 = 0" for b by (simp add: g_def)
  moreover have "Option.bind (filter_entries t b) (\<lambda>(r, d). if g b r = 0 then None else Some (g b r, d)) =
      ((filter_entries t)(mf_addr entry := Option.bind (filter_entries t (mf_addr entry))
        (\<lambda>(r, d). if ethernet_filter_result_is_hp r \<noteq> is_hp then Some (r, d)
                else if drop_client client_num is_hp r = 0 then None
                else Some (drop_client client_num is_hp r, d)))) b" for b
    using filter_entries_nonzero [of t b]
    by (cases "filter_entries t b") (auto simp: g_def split: if_splits)
  ultimately show ?thesis
    using filter_entries_map [OF u, of g] ok by (auto simp: filter_ok_def)
qed

lemma ethernet_clear_table_entries:
  assumes ok: "filter_ok t"
  shows "filter_ok (ethernet_clear_filter_table t client_num is_hp) \<and>
    filter_entries (ethernet_clear_filter_table t client_num is_hp) =
      (\<lambda>a. Option.bind (filter_entries t a) (\<lambda>(r, d).
         if drop_client client_num is_hp r = 0 then None else Some (drop_client client_num is_hp r, d)))"
proof -
  have "drop_client client_num is_hp 0 = 0" by (simp add: drop_client_def)
  then show ?thesis
    using filter_entries_map [of t "\<lambda>_. drop_client client_num is_hp"] ok
    by (auto simp: filter_ok_def ethernet_clear_filter_table_def)
qed

text \<open>
  Deleting all addresses of a client drops its bit from every entry, and frees the entries
  left without clients. The loop does not compare priorities: the entries of the other priority
  lose the same bit.
\<close>

theorem ethernet_clear_filter_table_spec:
  assumes ok: "filter_ok t"
  shows "filter_ok (ethernet_clear_filter_table t client_num is_hp) \<and>
    filter_entries (ethernet_clear_filter_table t client_num is_hp) =
      (\<lambda>a. Option.bind (filter_entries t a) (\<lambda>(r, d).
         if drop_client client_num is_hp r = 0 then None else Some (drop_client client_num is_hp r, d)))"
  by (rule ethernet_clear_table_entries [OF assms])

text \<open>
  As a consequence, when the high priority client (number 0) deletes all its addresses, an
  address that only the low priority client 0 had registered is dropped too, whatever the rest
  of the table.
\<close>

theorem clear_drops_other_priority:
  assumes "filter_ok t" "filter_entries t a = Some (client_bit 0, d)" "length a = 6"
  shows "ethernet_filter_result_is_hp (fst (ethernet_do_filtering t a 0)) = 0 \<and>
    fst (ethernet_do_filtering (ethernet_clear_filter_table t 0 1) a 0) = 0"
proof -
  have "drop_client 0 1 (client_bit 0) = 0" "ethernet_filter_result_is_hp (client_bit 0) = 0"
    by code_simp+
  then have "filter_entries (ethernet_clear_filter_table t 0 1) a = None"
    using ethernet_clear_table_entries [OF assms(1)] assms(2) by simp
  then show ?thesis
    using assms ethernet_do_filtering_entries \<open>ethernet_filter_result_is_hp _ = 0\<close>
      ethernet_clear_table_entries [OF assms(1)] by simp
qed

section \<open>Examples\<close>

definition example_mac :: "u8 list" where
  "example_mac = [2, 0, 0, 0, 0, 7]"

definition example_table :: eth_global_filter_info_t where
  "example_table = ethernet_init_filter_table[3 := \<lparr>fe_addr = example_mac, fe_result = client_bit 0, fe_appdata = 9\<rparr>]"

lemma example_table_ok:
  "filter_ok example_table" "length example_mac = 6" "filter_entries example_table example_mac = Some (client_bit 0, 9)"
  by code_simp+

lemma ethernet_do_filtering_spec_witness:
  "ethernet_do_filtering example_table example_mac 0 =
    (case filter_entries example_table example_mac of None \<Rightarrow> (0, 0) | Some (result, d) \<Rightarrow> (result, d))"
  by (rule ethernet_do_filtering_spec [OF example_table_ok(1,2)])

lemma ethernet_add_filter_table_entry_spec_witness:
  "\<exists>t'. ethernet_add_filter_table_entry example_table 5 0 \<lparr>mf_addr = example_mac, mf_appdata = 1\<rparr> =
      Some (ETHERNET_MACADDR_FILTER_SUCCESS, t') \<and> filter_ok t' \<and>
    filter_entries t' = (filter_entries example_table)(example_mac \<mapsto> (client_bit 0 OR client_bit 5, 9))"
proof -
  have "ethernet_filter_result_is_hp (client_bit 0) = 0" by code_simp
  then show ?thesis
    using ethernet_add_filter_table_entry_spec [OF example_table_ok(1),
        of "\<lparr>mf_addr = example_mac, mf_appdata = 1\<rparr>" 5 0] example_table_ok(2,3)
    by simp
qed

lemma ethernet_del_filter_table_entry_spec_witness:
  "filter_entries (ethernet_del_filter_table_entry example_table 0 0 \<lparr>mf_addr = example_mac, mf_appdata = 1\<rparr>)
     example_mac = None"
proof -
  have "ethernet_filter_result_is_hp (client_bit 0) = 0" "drop_client 0 0 (client_bit 0) = 0" by code_simp+
  then show ?thesis
    using ethernet_del_filter_table_entry_spec [OF example_table_ok(1),
        of "\<lparr>mf_addr = example_mac, mf_appdata = 1\<rparr>" 0 0] example_table_ok(2,3)
    by simp
qed

lemma ethernet_clear_filter_table_spec_witness:
  "filter_entries (ethernet_clear_filter_table example_table 0 0) example_mac = None"
proof -
  have "drop_client 0 0 (client_bit 0) = 0" by code_simp
  then show ?thesis
    using ethernet_clear_filter_table_spec [OF example_table_ok(1), of 0 0] example_table_ok(3) by simp
qed

lemma clear_drops_other_priority_witness:
  "ethernet_filter_result_is_hp (fst (ethernet_do_filtering example_table example_mac 0)) = 0 \<and>
    fst (ethernet_do_filtering (ethernet_clear_filter_table example_table 0 1) example_mac 0) = 0"
  by (rule clear_drops_other_priority [OF example_table_ok(1,3,2)])

end
