(* ===== verification/Packet_Copy.thy ===== *)
theory Packet_Copy
  imports Mii_Tx
begin

text \<open>
  The copies between a packet in the circular memory and an array of bytes, as the client handlers
  of \<^verbatim>\<open>lib_ethernet/src/mii_ethernet_rt_mac.xc\<close> make them: at most two \<^verbatim>\<open>memcpy\<close> calls, the second
  from or to the start of the memory when the data wrap. They are proved against the bytes of the
  packet (\<open>slot_bytes\<close>), the view the transmitter and the receiver are proved with.
\<close>

section \<open>The copies\<close>

text \<open>The two lengths: up to the wrap pointer, and from the start of the memory.\<close>

definition split_len :: "addr \<Rightarrow> addr \<Rightarrow> int \<Rightarrow> int \<times> int" where
  "split_len wrap_ptr dptr len =
     (let prewrap = wrap_ptr - dptr
      in (if prewrap > len then len else prewrap, if prewrap > len then 0 else len - prewrap))"

text \<open>Packet to client array: the first \<open>len\<close> bytes of the array.\<close>

definition copy_out :: "mempool_info_t \<Rightarrow> mem \<Rightarrow> addr \<Rightarrow> int \<Rightarrow> u8 list" where
  "copy_out p m dptr len =
     (let wrap_ptr = mii_get_wrap_ptr p; (len1, len2) = split_len wrap_ptr dptr len
      in ldbs m dptr (nat len1) @ (if len2 \<noteq> 0 then ldbs m (uint (m wrap_ptr)) (nat len2) else []))"

text \<open>Client array to packet: the memory and the pointer to commit.\<close>

definition copy_in :: "mempool_info_t \<Rightarrow> mem \<Rightarrow> addr \<Rightarrow> u8 list \<Rightarrow> mem \<times> addr" where
  "copy_in p m dptr data =
     (let wrap_ptr = mii_get_wrap_ptr p; len = int (length data);
          (len1, len2) = split_len wrap_ptr dptr len;
          m1 = stbs m dptr (take (nat len1) data)
      in if len2 \<noteq> 0
         then (let start_ptr = uint (m1 wrap_ptr)
               in (stbs m1 start_ptr (drop (nat len1) data), start_ptr + 4 * ((len2 + 3) div 4)))
         else (m1, dptr + 4 * ((len + 3) div 4)))"

section \<open>Bytes of the ring\<close>

text \<open>The address of byte \<open>i\<close> of the data that start at slot \<open>k\<close>.\<close>

definition byte_addr :: "mempool_info_t \<Rightarrow> nat \<Rightarrow> nat \<Rightarrow> addr" where
  "byte_addr p k i = mp_slot p (k + i div 4) + int (i mod 4)"

lemma word_bytes_nth: "j < 4 \<Longrightarrow> word_bytes w ! j = ucast (drop_bit (8 * j) w)"
  by (simp add: word_bytes_def)

lemma mp_slot_aligned: "mp_ok p m \<Longrightarrow> mp_slot p i mod 4 = 0"
  by (simp add: mp_slot_def mp_ok_def mod_add_eq [symmetric])

lemma ldb_slot: "mp_ok p m0 \<Longrightarrow> j < 4 \<Longrightarrow> ldb m (mp_slot p i + int j) = word_bytes (m (mp_slot p i)) ! j"
proof -
  assume "mp_ok p m0" "j < 4"
  then have "(mp_slot p i + int j) mod 4 = int j"
    using mp_slot_aligned [of p m0 i] by (simp add: mod_add_left_eq [symmetric, of "mp_slot p i"] del: mod_add_left_eq)
  then show ?thesis using \<open>j < 4\<close> by (simp add: ldb_def word_bytes_nth)
qed

lemma concat_word_bytes_nth:
  "i < 4 * length ws \<Longrightarrow> concat (map word_bytes ws) ! i = word_bytes (ws ! (i div 4)) ! (i mod 4)"
proof (induction ws arbitrary: i)
  case (Cons w ws)
  show ?case
  proof (cases "i < 4")
    case True
    then show ?thesis by (simp add: nth_append)
  next
    case False
    then have "i div 4 = Suc ((i - 4) div 4)" "i mod 4 = (i - 4) mod 4"
      by (simp_all add: le_div_geq le_mod_geq)
    then show ?thesis using Cons False by (simp add: nth_append)
  qed
qed simp

lemma length_slot_bytes [simp]: "length (slot_bytes p m k n) = n"
  by (simp add: slot_bytes_def)

lemma slot_bytes_nth:
  assumes "mp_ok p m0" "i < n"
  shows "slot_bytes p m k n ! i = ldb m (byte_addr p k i)"
proof -
  have "i < 4 * ((n + 3) div 4)" "i div 4 < (n + 3) div 4" using assms(2) by linarith+
  moreover from this have "slot_words p m k ((n + 3) div 4) ! (i div 4) = m (mp_slot p (k + i div 4))"
    by (simp add: slot_words_def)
  ultimately show ?thesis
    using assms unfolding slot_bytes_def byte_addr_def
    by (simp add: concat_word_bytes_nth ldb_slot del: length_slot_words) (simp add: concat_word_bytes_nth)
qed

lemma byte_addr_split:
  assumes ok: "mp_ok p m" and k: "k < mp_words p" and i: "i < 4 * mp_words p"
  shows "byte_addr p k i =
    (if int i < mp_end p - mp_slot p k then mp_slot p k + int i
     else mp_start p + (int i - (mp_end p - mp_slot p k)))"
proof -
  have e: "mp_end p = mp_start p + 4 * int (mp_words p)" by (rule mp_end_words(1) [OF ok])
  have sk: "mp_slot p k = mp_start p + 4 * int k" using k by (simp add: mp_slot_def)
  have i4: "i = 4 * (i div 4) + i mod 4" "i mod 4 < 4" by simp_all
  have ii: "int i = 4 * int (i div 4) + int (i mod 4)" by presburger
  have lt: "k + i div 4 < 2 * mp_words p" using k i by linarith
  have sl: "mp_slot p (k + i div 4) =
      mp_start p + 4 * int (if k + i div 4 < mp_words p then k + i div 4 else k + i div 4 - mp_words p)"
    by (simp add: mp_slot_def mod_below_twice [OF lt])
  have "int i < mp_end p - mp_slot p k \<longleftrightarrow> k + i div 4 < mp_words p"
    unfolding e sk using i4 by linarith
  then show ?thesis using e sk sl ii by (auto simp: byte_addr_def)
qed

lemma byte_addr_inj:
  assumes ok: "mp_ok p m" and i: "i < 4 * mp_words p" and j: "j < 4 * mp_words p"
  shows "byte_addr p k i = byte_addr p k j \<longleftrightarrow> i = j"
proof
  assume eq: "byte_addr p k i = byte_addr p k j"
  have s: "mp_slot p a mod 4 = 0" for a by (rule mp_slot_aligned [OF ok])
  have "int (i mod 4) = byte_addr p k i mod 4" for i
    using s [of "k + i div 4"]
    by (simp add: byte_addr_def mod_add_left_eq [symmetric, of "mp_slot p _"] del: mod_add_left_eq)
  then have m: "i mod 4 = j mod 4" using eq by (metis of_nat_eq_iff)
  then have "mp_slot p (k + i div 4) = mp_slot p (k + j div 4)" using eq by (simp add: byte_addr_def)
  then have c: "(k + i div 4) mod mp_words p = (k + j div 4) mod mp_words p" using slot_inj [OF ok] by simp
  have "i div 4 < mp_words p" "j div 4 < mp_words p" using i j by linarith+
  then have "i div 4 = j div 4"
    using c ring_slot_inj [of "k mod mp_words p" "mp_words p" "i div 4" "j div 4"] words_pos [OF ok]
    by (simp add: mod_add_left_eq)
  then show "i = j" using m by (metis mult_div_mod_eq)
qed simp

section \<open>Correctness of the copies\<close>

lemma wrap_word: "mp_ok p m \<Longrightarrow> uint (m (mp_end p)) = mp_start p"
  by (auto simp: mp_ok_def in_pool_def uint_word_of_int)

lemma mp_end_aligned: "mp_ok p m \<Longrightarrow> mp_end p mod 4 = 0"
proof -
  assume ok: "mp_ok p m"
  have "mp_start p mod 4 = 0" using ok by (simp add: mp_ok_def)
  then show ?thesis unfolding mp_end_words(1) [OF ok] by presburger
qed

lemma copy_out_bytes:
  assumes ok: "mp_ok p m" and k: "k < mp_words p" and len: "L \<le> 4 * mp_words p"
  shows "copy_out p m (mp_slot p k) (int L) = slot_bytes p m k L"
proof (rule nth_equalityI)
  have "0 < mp_end p - mp_slot p k" using slot_in_pool [OF ok, of k] by (simp add: in_pool_def)
  then obtain P where P: "mp_end p - mp_slot p k = int P" "0 < P"
    by (metis of_nat_0_less_iff pos_int_cases)
  have out: "copy_out p m (mp_slot p k) (int L) =
      (if L < P then ldbs m (mp_slot p k) L else ldbs m (mp_slot p k) P @ ldbs m (mp_start p) (L - P))"
    by (simp add: copy_out_def split_len_def Let_def mii_get_wrap_ptr_def wrap_word [OF ok] P nat_diff_distrib ldbs_def)
  show "length (copy_out p m (mp_slot p k) (int L)) = length (slot_bytes p m k L)"
    unfolding out by simp
  fix i assume "i < length (copy_out p m (mp_slot p k) (int L))"
  then have i: "i < L" unfolding out by (auto split: if_splits)
  then have iN: "i < 4 * mp_words p" using len by linarith
  show "copy_out p m (mp_slot p k) (int L) ! i = slot_bytes p m k L ! i"
    unfolding slot_bytes_nth [OF ok i] byte_addr_split [OF ok k iN] P out
    using i by (auto simp: nth_append of_nat_diff)
qed

text \<open>The bytes after the first copy, and after the second.\<close>

lemma copy_in_eq:
  assumes ok: "mp_ok p m" and k: "k < mp_words p"
  shows "copy_in p m (mp_slot p k) data =
    (let pre = nat (mp_end p - mp_slot p k); m1 = stbs m (mp_slot p k) (take pre data)
     in (stbs m1 (mp_start p) (drop pre data),
         if length data \<le> pre then mp_slot p k + 4 * ((int (length data) + 3) div 4)
         else mp_start p + 4 * ((int (length data - pre) + 3) div 4)))"
proof -
  let ?pre = "mp_end p - mp_slot p k"
  have pos: "0 < ?pre" using slot_in_pool [OF ok, of k] by (simp add: in_pool_def)
  have al: "mp_end p mod 4 = 0" by (rule mp_end_aligned [OF ok])
  have start: "uint (stbs m (mp_slot p k) bs (mp_end p)) = mp_start p" if "int (length bs) \<le> ?pre" for bs
    using stbs_outside [OF al, of "mp_slot p k" bs m] that wrap_word [OF ok] by simp
  show ?thesis
  proof (cases "length data \<le> nat ?pre")
    case True
    then have "?pre > int (length data) \<or> ?pre = int (length data)" using pos by linarith
    then show ?thesis
      using True by (auto simp: copy_in_def split_len_def Let_def mii_get_wrap_ptr_def)
  next
    case False
    then have c: "\<not> ?pre > int (length data)" "int (length data) - ?pre \<noteq> 0"
      "int (length data - nat ?pre) = int (length data) - ?pre" using pos by linarith+
    then have sl: "split_len (mp_end p) (mp_slot p k) (int (length data)) = (?pre, int (length data) - ?pre)"
      by (simp add: split_len_def Let_def)
    show ?thesis
      using False pos start [of "take (nat ?pre) data"] c(2,3)
      by (simp add: copy_in_def sl Let_def mii_get_wrap_ptr_def)
  qed
qed

lemma copy_in_bytes:
  assumes ok: "mp_ok p m" and k: "k < mp_words p" and len: "length data \<le> 4 * mp_words p"
  shows "slot_bytes p (fst (copy_in p m (mp_slot p k) data)) k (length data) = data"
proof (rule nth_equalityI)
  fix i assume "i < length (slot_bytes p (fst (copy_in p m (mp_slot p k) data)) k (length data))"
  then have i: "i < length data" by simp
  then have iN: "i < 4 * mp_words p" using len by linarith
  let ?pre = "mp_end p - mp_slot p k"
  have e: "mp_end p = mp_start p + 4 * int (mp_words p)" by (rule mp_end_words(1) [OF ok])
  have pos: "0 < ?pre" "mp_start p \<le> mp_slot p k" using slot_in_pool [OF ok, of k] by (auto simp: in_pool_def)
  note sp = byte_addr_split [OF ok k iN]
  show "slot_bytes p (fst (copy_in p m (mp_slot p k) data)) k (length data) ! i = data ! i"
  proof (cases "int i < ?pre")
    case True
    then have "\<not> (mp_start p \<le> mp_slot p k + int i \<and> mp_slot p k + int i < mp_start p + int (length (drop (nat ?pre) data)))"
      using len e pos by auto
    then show ?thesis
      using True i unfolding slot_bytes_nth [OF ok i] sp copy_in_eq [OF ok k] by (auto simp: Let_def ldb_stbs)
  next
    case False
    then have "nat (int i - ?pre) < length (drop (nat ?pre) data)" "nat ?pre + nat (int i - ?pre) = i"
      "0 \<le> int i - ?pre" "int i - ?pre < int (length (drop (nat ?pre) data))"
      using i pos by auto
    then show ?thesis
      using False i unfolding slot_bytes_nth [OF ok i] sp copy_in_eq [OF ok k] by (simp add: Let_def ldb_stbs)
  qed
qed simp

text \<open>Only the words of the data change, and the wrap word is not one of them.\<close>

lemma copy_in_outside:
  assumes ok: "mp_ok p m" and k: "k < mp_words p" and len: "length data \<le> 4 * mp_words p"
    and a: "a mod 4 = 0" and out: "\<And>i. i < (length data + 3) div 4 \<Longrightarrow> a \<noteq> mp_slot p (k + i)"
  shows "fst (copy_in p m (mp_slot p k) data) a = m a"
proof -
  let ?pre = "nat (mp_end p - mp_slot p k)"
  have e: "mp_end p = mp_start p + 4 * int (mp_words p)" by (rule mp_end_words(1) [OF ok])
  have sk: "mp_slot p k = mp_start p + 4 * int k" using k by (simp add: mp_slot_def)
  have pre: "?pre = 4 * (mp_words p - k)" using e sk k by simp
  have s4: "mp_start p mod 4 = 0" using ok by (simp add: mp_ok_def)
  define r where "r = mp_words p - k"
  then have r: "mp_words p - k = r" by simp
  have one: "a + 4 \<le> mp_slot p k \<or> mp_slot p k + int (length (take ?pre data)) \<le> a"
  proof (rule ccontr)
    assume "\<not> ?thesis"
    then have l: "mp_slot p k < a + 4" "a < mp_slot p k + int (min (length data) ?pre)" by auto
    have d4: "(a - mp_slot p k) mod 4 = 0" using a mp_slot_aligned [OF ok, of k] by presburger
    then obtain j where j: "a - mp_slot p k = 4 * j" by (auto simp: mod_eq_0_iff_dvd elim: dvdE)
    then have "0 \<le> j" using l by linarith
    then obtain i where i: "j = int i" using nonneg_int_cases by blast
    have "4 * i < length data" "4 * i < ?pre" using l(2) j i by linarith+
    then have "i < (length data + 3) div 4" "k + i < mp_words p" using pre k by linarith+
    then show False using out [of i] j i sk by (simp add: mp_slot_def)
  qed
  have two: "a + 4 \<le> mp_start p \<or> mp_start p + int (length (drop ?pre data)) \<le> a"
  proof (rule ccontr)
    assume "\<not> ?thesis"
    then have l: "mp_start p < a + 4" "a < mp_start p + int (length data - ?pre)" by auto
    have "(a - mp_start p) mod 4 = 0" using a s4 by presburger
    then obtain j where j: "a - mp_start p = 4 * j" by (auto simp: mod_eq_0_iff_dvd elim: dvdE)
    then have "0 \<le> j" using l by linarith
    then have "mp_start p \<le> a" using j by linarith
    then have l3: "?pre < length data" using l(2) by simp
    obtain i where i: "j = int i" using \<open>0 \<le> j\<close> by (metis nonneg_int_cases)
    define q where "q = ?pre"
    then have q: "?pre = q" by (rule sym)
    have "int (length data - q) = int (length data) - int q" using l3 q by simp
    then have "4 * i + q < length data" using l(2) j i unfolding q by linarith
    then have "4 * i + ?pre < length data" unfolding q .
    then have l4: "4 * (r + i) < length data" by (simp add: pre r)
    have "Suc (r + i) \<le> (length data + 3) div 4"
      using l4 less_eq_div_iff_mult_less_eq [of 4 "Suc (r + i)" "length data + 3"] by simp
    moreover have "4 * i < 4 * mp_words p"
      by (rule le_less_trans [OF _ less_le_trans [OF l4 len]]) simp
    ultimately have "mp_words p - k + i < (length data + 3) div 4" "i < mp_words p" by (simp_all add: r)
    then show False using out [of "mp_words p - k + i"] j i k by (simp add: mp_slot_def)
  qed
  show ?thesis
    unfolding copy_in_eq [OF ok k] by (simp add: Let_def stbs_outside [OF a two] stbs_outside [OF a one])
qed

lemma copy_in_ptr:
  assumes ok: "mp_ok p m" and k: "k < mp_words p" and len: "length data < 4 * mp_words p"
  shows "mp_wrptr (mii_commit p (snd (copy_in p m (mp_slot p k) data))) =
    mp_wrptr (mii_commit p (mp_slot p (k + (length data + 3) div 4)))"
proof -
  let ?n = "(length data + 3) div 4" and ?pre = "nat (mp_end p - mp_slot p k)"
  have e: "mp_end p = mp_start p + 4 * int (mp_words p)" by (rule mp_end_words(1) [OF ok])
  have sk: "mp_slot p k = mp_start p + 4 * int k" using k by (simp add: mp_slot_def)
  have pre: "?pre = 4 * (mp_words p - k)" using e sk k by simp
  have n4: "(int (length data) + 3) div 4 = int ?n" by simp
  have safe: "mp_last_safe_wrptr p < mp_end p" "mp_start p \<le> mp_last_safe_wrptr p"
    using ok by (auto simp: mp_ok_def in_pool_def MIN_USAGE_56)
  show ?thesis
  proof (cases "length data \<le> ?pre")
    case True
    then have ptr: "snd (copy_in p m (mp_slot p k) data) = mp_start p + 4 * int (k + ?n)"
      unfolding copy_in_eq [OF ok k] using n4 sk by (simp add: Let_def)
    have le: "k + ?n \<le> mp_words p" using True pre k by linarith
    show ?thesis
    proof (cases "k + ?n = mp_words p")
      case True
      then have "snd (copy_in p m (mp_slot p k) data) = mp_end p" using ptr e by simp
      moreover have "mp_slot p (k + ?n) = mp_start p" using True by (simp add: mp_slot_def)
      ultimately show ?thesis using safe by (simp add: mii_commit_def)
    next
      case False
      then show ?thesis using le ptr by (simp add: mp_slot_def)
    qed
  next
    case False
    then have "int (length data - ?pre) + 3 = int (length data + 3 - ?pre)" by simp
    then have "snd (copy_in p m (mp_slot p k) data) = mp_start p + 4 * int ((length data + 3 - ?pre) div 4)"
      using False unfolding copy_in_eq [OF ok k] by (simp add: Let_def zdiv_int)
    moreover have "(length data + 3 - ?pre) div 4 = k + ?n - mp_words p" "k + ?n - mp_words p < mp_words p" "mp_words p \<le> k + ?n"
      using False pre k len by linarith+
    ultimately show ?thesis by (simp add: mp_slot_def le_mod_geq)
  qed
qed

end
