(* ===== verification/Interfaces.thy ===== *)
theory Interfaces
  imports Client_State Macaddr_Filter Packet_Copy
begin

text \<open>
  The client interfaces of the MACs, \<^verbatim>\<open>lib_ethernet/api/ethernet.h\<close>: one constructor for each call
  of the configuration, transmit and receive interfaces, which the servers of the three MACs serve,
  what a call returns, the client functions built from the calls, and the two functions of the high
  priority channel. The argument \<^verbatim>\<open>ifnum\<close> (\<^verbatim>\<open>dst_port\<close>) is left out of the calls: every MAC has
  one port and no handler reads it.
\<close>

section \<open>Faults\<close>

text \<open>What can go wrong: an assertion, a write outside a client's array, a loop that never ends.\<close>

datatype fault = Assertion | Out_Of_Bounds | Diverges

definition bind :: "fault + 'a \<Rightarrow> ('a \<Rightarrow> fault + 'b) \<Rightarrow> fault + 'b" where
  "bind r f = (case r of Inl e \<Rightarrow> Inl e | Inr x \<Rightarrow> f x)"

definition from_loop :: "'a option \<Rightarrow> fault + 'a" where
  "from_loop r = (case r of None \<Rightarrow> Inl Diverges | Some x \<Rightarrow> Inr x)"

lemma bind_simps [simp]: "bind (Inl e) f = Inl e" "bind (Inr x) f = f x"
  by (simp_all add: bind_def)

lemma from_loop_simps [simp]: "from_loop None = Inl Diverges" "from_loop (Some x) = Inr x"
  by (simp_all add: from_loop_def)

lemma bind_eq_Inr [simp]: "bind r f = Inr y \<longleftrightarrow> (\<exists>x. r = Inr x \<and> f x = Inr y)"
  by (cases r) auto

lemma from_loop_eq_Inr [simp]: "from_loop r = Inr y \<longleftrightarrow> r = Some y"
  by (cases r) auto

text \<open>\<^verbatim>\<open>memcpy\<close> into a client array; \<open>Out_Of_Bounds\<close> when it does not fit.\<close>

definition put_bytes :: "u8 list \<Rightarrow> nat \<Rightarrow> u8 list \<Rightarrow> fault + u8 list" where
  "put_bytes data k bs =
     (if k + length bs \<le> length data then Inr (take k data @ bs @ drop (k + length bs) data)
      else Inl Out_Of_Bounds)"

section \<open>Byte order\<close>

definition NTOH_U16_ALIGNED :: "u32 \<Rightarrow> u16" where
  "NTOH_U16_ALIGNED w = ucast (push_bit 8 (w AND 0xFF) OR (drop_bit 8 w AND 0xFF))"

section \<open>Calls\<close>

datatype ethernet_cfg_if =
    Set_Macaddr "u8 list"
  | Get_Macaddr
  | Set_Link_State ethernet_link_state_t ethernet_speed_t
  | Add_Macaddr_Filter u32 u32 ethernet_macaddr_filter_t
  | Del_Macaddr_Filter u32 u32 ethernet_macaddr_filter_t
  | Del_All_Macaddr_Filters u32 u32
  | Add_Ethertype_Filter nat u16
  | Del_Ethertype_Filter nat u16
  | Get_Tile_Id_And_Timer
  | Set_Egress_Qav_Idle_Slope u32
  | Set_Ingress_Timestamp_Latency ethernet_speed_t u32
  | Set_Egress_Timestamp_Latency ethernet_speed_t u32
  | Enable_Strip_Vlan_Tag nat
  | Disable_Strip_Vlan_Tag nat
  | Enable_Link_Status_Notification nat
  | Disable_Link_Status_Notification nat

datatype ethernet_tx_if =
    Init_Send_Packet u32
  | Complete_Send_Packet "u8 list" bool
  | Get_Outgoing_Timestamp

datatype ethernet_rx_if =
    Get_Index
  | Get_Packet "u8 list"

datatype reply =
    No_Reply
  | Index nat
  | Packet ethernet_packet_info_t "u8 list"
  | Macaddr "u8 list"
  | Filter_Result ethernet_macaddr_filter_result_t
  | Tile_And_Time u32 u32
  | Timestamp u32

text \<open>The descriptor of a call that finds no packet: only its type is set.\<close>

definition no_info :: ethernet_packet_info_t where
  "no_info = \<lparr>pi_type = ETH_NO_DATA, pi_len = 0, pi_timestamp = 0, pi_src_ifnum = 0, pi_filter_data = 0\<rparr>"

definition status_info :: ethernet_packet_info_t where
  "status_info = \<lparr>pi_type = ETH_IF_STATUS, pi_len = 2, pi_timestamp = 0, pi_src_ifnum = 0, pi_filter_data = 0\<rparr>"

section \<open>Sending functions of a client\<close>

text \<open>The calls a client makes, in order; each blocks until the server takes it.\<close>

definition send_packet :: "u8 list \<Rightarrow> nat \<Rightarrow> ethernet_tx_if list" where
  "send_packet packet n = [Init_Send_Packet (of_nat n), Complete_Send_Packet (take n packet) False]"

definition send_timed_packet :: "u8 list \<Rightarrow> nat \<Rightarrow> ethernet_tx_if list" where
  "send_timed_packet packet n =
     [Init_Send_Packet (of_nat n), Complete_Send_Packet (take n packet) True, Get_Outgoing_Timestamp]"

section \<open>The high priority channel\<close>

text \<open>
  A channel holds the bytes in the order they are sent: \<open>sout_char_array\<close> sends an array last byte
  first and \<open>sin_char_array\<close> fills one the same way (the comment at
  \<^verbatim>\<open>mii_ethernet_rt_mac.xc:460\<close>).
\<close>

definition sout_char_array :: "u8 list \<Rightarrow> u8 list" where
  "sout_char_array bs = rev bs"

definition sin_char_array :: "nat \<Rightarrow> u8 list \<Rightarrow> u8 list \<times> u8 list" where
  "sin_char_array n ch = (rev (take n ch), drop n ch)"

definition ethernet_send_hp_packet :: "u8 list \<Rightarrow> nat \<Rightarrow> u32 \<times> u8 list" where
  "ethernet_send_hp_packet packet n = (of_nat n, sout_char_array (take n packet))"

text \<open>The packet and the descriptor, from the descriptor sent and the bytes behind it.\<close>

definition ethernet_receive_hp_packet ::
    "ethernet_packet_info_t \<times> u8 list \<Rightarrow> (u8 list \<times> ethernet_packet_info_t) \<times> u8 list" where
  "ethernet_receive_hp_packet msg =
     (let (info, ch) = msg; len1 = unat (pi_len info AND 0xffff);
          (packet1, ch) = sin_char_array len1 ch;
          len2 = unat (drop_bit 16 (pi_len info));
          (packet2, ch) = (if len2 \<noteq> 0 then sin_char_array len2 ch else ([], ch))
      in ((packet1 @ packet2, info\<lparr>pi_len := of_nat (len1 + len2)\<rparr>), ch))"

text \<open>
  The MAC side: a packet goes out as its part up to the wrap, then its part after the wrap, and is
  received into a buffer in the opposite order.
\<close>

definition hp_out :: "mempool_info_t \<Rightarrow> mem \<Rightarrow> addr \<Rightarrow> int \<Rightarrow> u32 \<times> u8 list" where
  "hp_out p m dptr len =
     (let wrap_ptr = mii_get_wrap_ptr p; (len1, len2) = split_len wrap_ptr dptr len
      in (of_int len1 OR push_bit 16 (of_int len2),
          sout_char_array (ldbs m dptr (nat len1)) @
          (if len2 \<noteq> 0 then sout_char_array (ldbs m (uint (m wrap_ptr)) (nat len2)) else [])))"

definition hp_in :: "mempool_info_t \<Rightarrow> addr \<Rightarrow> int \<Rightarrow> u8 list \<Rightarrow> u8 list" where
  "hp_in p dptr len ch =
     (let (len1, len2) = split_len (mii_get_wrap_ptr p) dptr len;
          (part2, ch) = (if len2 \<noteq> 0 then sin_char_array (nat len2) ch else ([], ch));
          (part1, ch) = sin_char_array (nat len1) ch
      in part1 @ part2)"

lemma hp_in_sends:
  assumes "dptr \<le> mii_get_wrap_ptr p"
  shows "hp_in p dptr (int (length data)) (sout_char_array data) = data"
proof -
  let ?pre = "mii_get_wrap_ptr p - dptr" and ?n = "length data"
  show ?thesis
  proof (cases "?pre > int ?n")
    case True
    then show ?thesis by (simp add: hp_in_def split_len_def sin_char_array_def sout_char_array_def)
  next
    case False
    have "nat (int ?n - ?pre) + nat ?pre = ?n" using False assms by simp
    then show ?thesis
      using False by (auto simp: hp_in_def split_len_def Let_def sin_char_array_def sout_char_array_def
          take_rev drop_rev intro: append_take_drop_id)
  qed
qed

text \<open>The two lengths packed in one word.\<close>

lemma pack_lengths:
  fixes a b :: nat
  assumes "a < 2 ^ 16" "b < 2 ^ 16"
  shows "unat ((of_nat a OR push_bit 16 (of_nat b) :: u32) AND 0xffff) = a"
    "unat (drop_bit 16 (of_nat a OR push_bit 16 (of_nat b) :: u32)) = b"
proof -
  have nb: "n < 16" if "x < 2 ^ 16" "bit x n" for x n :: nat
    using that by (metis bit_take_bit_iff take_bit_nat_eq_self)
  have m: "(0xffff :: u32) = mask 16" by (simp add: mask_eq_exp_minus_1)
  have "(of_nat a OR push_bit 16 (of_nat b) :: u32) AND 0xffff = of_nat a"
    unfolding m by (rule bit_word_eqI) (use nb [OF assms(1)] in \<open>auto simp: bit_simps\<close>)
  then show "unat ((of_nat a OR push_bit 16 (of_nat b) :: u32) AND 0xffff) = a"
    using assms by (simp add: unat_of_nat)
  have "drop_bit 16 (of_nat a OR push_bit 16 (of_nat b) :: u32) = of_nat b"
    by (rule bit_word_eqI) (use nb [OF assms(1)] nb [OF assms(2)] in \<open>auto simp: bit_simps dest: leD\<close>)
  then show "unat (drop_bit 16 (of_nat a OR push_bit 16 (of_nat b) :: u32)) = b"
    using assms by (simp add: unat_of_nat)
qed

lemma sin_sout [simp]: "sin_char_array (length bs) (sout_char_array bs @ ch) = (bs, ch)"
  by (simp add: sin_char_array_def sout_char_array_def)

lemma hp_out_receives:
  assumes "dptr \<le> mii_get_wrap_ptr p" "0 \<le> len" "len < 2 ^ 16" "hp_out p m dptr len = (w, ch)" "pi_len info = w"
  shows "ethernet_receive_hp_packet (info, ch @ rest) = ((copy_out p m dptr len, info\<lparr>pi_len := of_int len\<rparr>), rest)"
proof -
  obtain len1 len2 where sp: "split_len (mii_get_wrap_ptr p) dptr len = (len1, len2)"
    by (cases "split_len (mii_get_wrap_ptr p) dptr len")
  have r: "0 \<le> len1" "0 \<le> len2" "len1 + len2 = len"
    using sp assms(1,2) by (auto simp: split_len_def Let_def split: if_splits)
  define a b where "a = nat len1" and "b = nat len2"
  have ab: "len1 = int a" "len2 = int b" "a < 2 ^ 16" "b < 2 ^ 16" using r assms(3) by (auto simp: a_def b_def)
  define bs1 bs2 where "bs1 = ldbs m dptr a" and "bs2 = ldbs m (uint (m (mii_get_wrap_ptr p))) b"
  have n: "length bs1 = a" "length bs2 = b" by (simp_all add: bs1_def bs2_def)
  have w: "pi_len info = of_nat a OR push_bit 16 (of_nat b)"
    and ch: "ch = sout_char_array bs1 @ (if b \<noteq> 0 then sout_char_array bs2 else [])"
    using assms(4,5) sp by (auto simp: hp_out_def Let_def ab bs1_def bs2_def)
  have sum: "(of_nat (a + b) :: u32) = of_int len"
    using r(3) by (metis ab(1,2) of_int_of_nat_eq of_nat_add)
  have L: "unat (pi_len info AND 0xffff) = a" "unat (drop_bit 16 (pi_len info)) = b"
    unfolding w by (rule pack_lengths [OF ab(3,4)])+
  have s1: "sin_char_array a (ch @ rest) = (bs1, (if b \<noteq> 0 then sout_char_array bs2 else []) @ rest)"
    using sin_sout [of bs1 "(if b \<noteq> 0 then sout_char_array bs2 else []) @ rest"] by (simp add: ch n)
  have s2: "b \<noteq> 0 \<Longrightarrow> sin_char_array b (sout_char_array bs2 @ rest) = (bs2, rest)"
    using sin_sout [of bs2 rest] by (simp add: n)
  have out: "copy_out p m dptr len = bs1 @ (if b \<noteq> 0 then bs2 else [])"
    by (simp add: copy_out_def sp Let_def ab bs1_def bs2_def)
  show ?thesis
    unfolding ethernet_receive_hp_packet_def Let_def prod.case L s1 sum out
    by (cases "b = 0") (use s2 in \<open>simp_all\<close>)
qed

end
