(* ===== verification/Rt_Mac.thy ===== *)
theory Rt_Mac
  imports Interfaces Packet_Queue Ts_Queue
begin

text \<open>
  The server of the 10/100 real-time MAC, \<^verbatim>\<open>lib_ethernet/src/mii_ethernet_rt_mac.xc\<close>, with the
  packet filter task of \<^verbatim>\<open>lib_ethernet/src/mii_filter.xc\<close> that feeds it. One record holds the
  memory shared by the tasks and the state of the server; each handler and each step of the server
  loop is a function on it, and \<open>mii_ethernet_server\<close> is one turn of the loop: the event taken by
  the \<^verbatim>\<open>select\<close>, if any, and the housekeeping after it.
\<close>

section \<open>State\<close>

abbreviation ETHERNET_RX_CLIENT_QUEUE_SIZE :: u32 where "ETHERNET_RX_CLIENT_QUEUE_SIZE \<equiv> 4"
abbreviation MII_RX_THRESHOLD_BYTES :: int where "MII_RX_THRESHOLD_BYTES \<equiv> 2000"

record rt_server =
  sv_mem :: mem
  sv_rx_mem :: mempool_info_t
  sv_tx_mem_lp :: mempool_info_t
  sv_tx_mem_hp :: mempool_info_t
  sv_rx_lp :: packet_queue_info_t
  sv_rx_hp :: packet_queue_info_t
  sv_tx_lp :: packet_queue_info_t
  sv_tx_hp :: packet_queue_info_t
  sv_ts_queue :: mii_ts_queue_info_t
  sv_filter :: eth_global_filter_info_t
  sv_rd_index_lp :: u32
  sv_rd_index_hp :: u32
  sv_rx_clients :: "rx_client_state_t list"
  sv_tx_clients :: "tx_client_state_t list"
  sv_tx_client_hp :: tx_client_state_t
  sv_port :: ethernet_port_state_t
  sv_mac_address :: "u8 list"
  sv_rx_rdptr :: addr
  sv_prioritize_rx :: nat
  sv_ready :: "nat list"
  sv_hp_out :: "(ethernet_packet_info_t \<times> u8 list) list"

text \<open>
  \<open>sv_ready\<close> records the \<^verbatim>\<open>packet_ready()\<close> notifications sent, by client; \<open>sv_hp_out\<close> what went out on
  the high priority channel \<^verbatim>\<open>c_rx_hp\<close>, for each packet its descriptor and the bytes after it.
\<close>

section \<open>The filter task\<close>

text \<open>Whether a received packet is well formed: length, checksum, length field.\<close>

definition filter_accepts :: "mem \<Rightarrow> addr \<Rightarrow> bool" where
  "filter_accepts m buf =
     (let len = getf m buf length_f; crc = getf m buf crc_f
      in if len < 60 \<or> NOT crc \<noteq> 0 \<or> len > of_int ETHERNET_MAX_PACKET_SIZE then False
         else (let len_type = NTOH_U16_ALIGNED (m (pkt_data buf + 4 * 3));
                   (len_type, header_len) =
                     (if len_type = 0x8100 then (NTOH_U16_ALIGNED (m (pkt_data buf + 4 * 4)), 18)
                      else (len_type, 14));
                   rx_data_len = len - header_len
               in \<not> (len_type < 1536 \<and> ucast len_type > rx_data_len)))"

text \<open>One turn of the loop of \<open>mii_ethernet_filter\<close> that takes a packet, if there is one.\<close>

definition mii_ethernet_filter ::
    "packet_queue_info_t \<Rightarrow> rt_server \<Rightarrow> packet_queue_info_t \<times> rt_server" where
  "mii_ethernet_filter incoming s =
     (let buf = mii_get_next_buf incoming
      in if buf = 0 then (incoming, s)
         else (let incoming = mii_move_rd_index incoming
               in if \<not> filter_accepts (sv_mem s) buf then (incoming, s)
                  else (let m = setf (setf (sv_mem s) buf src_port_f 0) buf timestamp_id_f 0;
                            (filter_result, filter_data) =
                              ethernet_do_filtering (sv_filter s) (ldbs m (pkt_data buf) 6) (getf m buf filter_data_f);
                            m = setf (setf m buf filter_data_f filter_data) buf filter_result_f filter_result;
                            s = s\<lparr>sv_mem := m\<rparr>
                        in if ethernet_filter_result_is_hp filter_result \<noteq> 0
                           then (incoming, if \<not> mii_packet_queue_full (sv_rx_hp s)
                                   then s\<lparr>sv_rx_hp := mii_add_packet (sv_rx_hp s) buf\<rparr> else s)
                           else (incoming, if \<not> mii_packet_queue_full (sv_rx_lp s)
                                   then s\<lparr>sv_rx_lp := mii_add_packet (sv_rx_lp s) buf\<rparr> else s))))"

section \<open>Receive housekeeping\<close>

text \<open>The Ethertype of a packet, behind a VLAN tag when there is one, and whether there is.\<close>

definition packet_etype :: "mem \<Rightarrow> addr \<Rightarrow> u16 \<times> bool" where
  "packet_etype m buf =
     (let data = pkt_data buf;
          be16 = (\<lambda>k. push_bit 8 (ucast (ldb m (data + k))) + ucast (ldb m (data + k + 1)) :: u16);
          etype = be16 12
      in if etype = 0x8100 then (be16 16, True) else (etype, False))"

definition client_wants :: "mem \<Rightarrow> addr \<Rightarrow> nat \<Rightarrow> rx_client_state_t \<Rightarrow> bool" where
  "client_wants m buf i c \<longleftrightarrow> bit (getf m buf filter_result_f) i \<and>
     (rc_num_etype_filters c \<noteq> 0 \<longrightarrow> fst (packet_etype m buf) \<in> set (etype_filters c))"

text \<open>Offering the packet at queue index \<open>rd_index\<close> to client \<open>i\<close>: queued, or counted as dropped.\<close>

definition offer_client ::
    "mem \<Rightarrow> addr \<Rightarrow> u32 \<Rightarrow> nat \<Rightarrow> nat \<times> rx_client_state_t list \<times> nat list \<Rightarrow> nat \<times> rx_client_state_t list \<times> nat list" where
  "offer_client m buf rd_index i st =
     (let (tcount, clients, ready) = st; c = clients ! i
      in if \<not> client_wants m buf i c then st
         else (let wr_index = rc_wr_index c;
                   new_wr_index = increment_and_wrap_to_zero wr_index ETHERNET_RX_CLIENT_QUEUE_SIZE
               in if new_wr_index \<noteq> rc_rd_index c
                  then (tcount + 1,
                        clients[i := c\<lparr>rc_fifo := (rc_fifo c)[unat wr_index := rd_index],
                                       rc_wr_index := new_wr_index\<rparr>],
                        ready @ [i])
                  else (tcount, clients[i := c\<lparr>rc_dropped_pkt_cnt := rc_dropped_pkt_cnt c + 1\<rparr>], ready)))"

definition handle_incoming_packet :: "rt_server \<Rightarrow> fault + rt_server" where
  "handle_incoming_packet s =
     (let packets = sv_rx_lp s; rd_index = sv_rd_index_lp s; n = length (sv_rx_clients s);
          buf = mii_get_my_next_buf packets rd_index
      in if buf = 0 then Inr s
         else (let m = sv_mem s; wanted = (getf m buf filter_result_f \<noteq> 0);
                   m = (if wanted \<and> n \<noteq> 0
                        then setf m buf vlan_tagged_f (if snd (packet_etype m buf) then 1 else 0) else m);
                   (tcount, clients, ready) =
                     (if wanted then fold (offer_client m buf rd_index) [0..<n] (0, sv_rx_clients s, [])
                      else (0, sv_rx_clients s, []));
                   s = s\<lparr>sv_rx_clients := clients, sv_ready := sv_ready s @ ready\<rparr>
               in bind (if tcount = 0
                        then bind (from_loop (mii_free_index packets rd_index))
                               (\<lambda>(packets, _). Inr (s\<lparr>sv_mem := m, sv_rx_lp := packets\<rparr>))
                        else Inr (s\<lparr>sv_mem := setf m buf tcount_f (of_nat (tcount - 1))\<rparr>))
                    (\<lambda>s. bind (from_loop (mii_move_my_rd_index (sv_rx_lp s) rd_index))
                           (\<lambda>rd_index. Inr (s\<lparr>sv_rd_index_lp := rd_index\<rparr>)))))"

text \<open>
  The release of the oldest packet of client \<open>i\<close>, shared by dropping and by reading: the last client
  to release a packet frees its queue slot.
\<close>

definition release_oldest :: "nat \<Rightarrow> rt_server \<Rightarrow> fault + rt_server" where
  "release_oldest i s =
     (let c = sv_rx_clients s ! i;
          packets_rd_index = rc_fifo c ! unat (rc_rd_index c);
          buf = pq_ptrs (sv_rx_lp s) ! unat packets_rd_index;
          (count, m) = mii_get_and_dec_transmit_count (sv_mem s) buf
      in bind (if count = 0
               then bind (from_loop (mii_free_index (sv_rx_lp s) packets_rd_index)) (\<lambda>(packets, _). Inr packets)
               else Inr (sv_rx_lp s))
           (\<lambda>packets. Inr (s\<lparr>sv_mem := m, sv_rx_lp := packets,
              sv_rx_clients := (sv_rx_clients s)[i := c\<lparr>rc_rd_index :=
                increment_and_wrap_to_zero (rc_rd_index c) ETHERNET_RX_CLIENT_QUEUE_SIZE\<rparr>]\<rparr>)))"

definition has_packet :: "rx_client_state_t \<Rightarrow> bool" where
  "has_packet c \<longleftrightarrow> rc_rd_index c \<noteq> rc_wr_index c"

definition drop_oldest :: "nat \<Rightarrow> rt_server \<Rightarrow> fault + rt_server" where
  "drop_oldest i s =
     (if \<not> has_packet (sv_rx_clients s ! i) then Inr s
      else bind (release_oldest i s) (\<lambda>s.
        (let c = sv_rx_clients s ! i
         in Inr (s\<lparr>sv_rx_clients := (sv_rx_clients s)[i := c\<lparr>rc_dropped_pkt_cnt := rc_dropped_pkt_cnt c + 1\<rparr>]\<rparr>))))"

definition drop_lp_packets :: "rt_server \<Rightarrow> fault + rt_server" where
  "drop_lp_packets s = fold (\<lambda>i r. bind r (drop_oldest i)) [0..<length (sv_rx_clients s)] (Inr s)"

text \<open>High priority packets go to the channel at once, until the queue is empty.\<close>

definition ingress_time :: "rt_server \<Rightarrow> mem \<Rightarrow> addr \<Rightarrow> u32" where
  "ingress_time s m buf =
     getf m buf timestamp_f - ps_ingress_ts_latency (sv_port s) ! speed_num (ps_link_speed (sv_port s))"

definition send_hp :: "rt_server \<Rightarrow> addr \<Rightarrow> rt_server" where
  "send_hp s buf =
     (let m = sv_mem s; (len, bytes) = hp_out (sv_rx_mem s) m (pkt_data buf) (uint (getf m buf length_f));
          info = \<lparr>pi_type = ETH_DATA, pi_len = len, pi_timestamp = ingress_time s m buf,
                  pi_src_ifnum = getf m buf src_port_f, pi_filter_data = getf m buf filter_data_f\<rparr>
      in s\<lparr>sv_hp_out := sv_hp_out s @ [(info, bytes)]\<rparr>)"

partial_function (option) handle_incoming_hp_packets :: "rt_server \<Rightarrow> rt_server option" where
  "handle_incoming_hp_packets s =
     (let buf = mii_get_my_next_buf (sv_rx_hp s) (sv_rd_index_hp s)
      in if buf = 0 then Some s
         else (let r = getf (sv_mem s) buf filter_result_f;
                   client_wants_packet = (r \<noteq> 0 \<and> ethernet_filter_result_is_hp r \<noteq> 0 \<and> r AND 1 \<noteq> 0);
                   s = (if client_wants_packet then send_hp s buf else s)
               in Option.bind (mii_free_index (sv_rx_hp s) (sv_rd_index_hp s))
                    (\<lambda>(packets, rd_index). handle_incoming_hp_packets
                       (s\<lparr>sv_rx_hp := packets, sv_rd_index_hp := rd_index\<rparr>))))"

declare handle_incoming_hp_packets.simps [code]

definition update_client_state :: "rt_server \<Rightarrow> rt_server" where
  "update_client_state s =
     s\<lparr>sv_rx_clients := map (\<lambda>c. if rc_status_update_state c = STATUS_UPDATE_WAITING
                               then c\<lparr>rc_status_update_state := STATUS_UPDATE_PENDING\<rparr> else c) (sv_rx_clients s),
       sv_ready := sv_ready s @ filter (\<lambda>i. rc_status_update_state (sv_rx_clients s ! i) = STATUS_UPDATE_WAITING)
                                  [0..<length (sv_rx_clients s)]\<rparr>"

section \<open>Reading a packet\<close>

text \<open>The packet bytes put into the client array, with or without the VLAN tag, and the length reported.\<close>

definition read_packet :: "mempool_info_t \<Rightarrow> mem \<Rightarrow> addr \<Rightarrow> bool \<Rightarrow> u8 list \<Rightarrow> fault + (u8 list \<times> u32)" where
  "read_packet p m buf strip data =
     (let n = int (length data); blen = uint (getf m buf length_f);
          len = (if n > blen then blen else n);
          wrap_ptr = mii_get_wrap_ptr p; dptr = pkt_data buf;
          (len1, len2) = split_len wrap_ptr dptr len;
          second = (\<lambda>data len1. if len2 \<noteq> 0 then put_bytes data (nat len1) (ldbs m (uint (m wrap_ptr)) (nat len2))
                                else Inr data)
      in if strip \<and> getf m buf vlan_tagged_f \<noteq> 0
         then bind (put_bytes data 0 (ldbs m dptr 12))
                (\<lambda>data. bind (if len1 < 4 then Inl Out_Of_Bounds
                               else put_bytes data 12 (ldbs m (dptr + 16) (nat (len1 - 4))))
                  (\<lambda>data. bind (second data (len1 - 4)) (\<lambda>data. Inr (data, getf m buf length_f - 4))))
         else bind (put_bytes data 0 (ldbs m dptr (nat len1)))
                (\<lambda>data. bind (second data len1) (\<lambda>data. Inr (data, getf m buf length_f))))"

text \<open>
  \<open>get_packet\<close> of client \<open>i\<close> with its array \<open>data\<close>: a pending link status first, then the oldest
  packet, which is released, else no data (of the descriptor only the type is then set).
\<close>

definition get_packet ::
    "nat \<Rightarrow> u8 list \<Rightarrow> rt_server \<Rightarrow> fault + (ethernet_packet_info_t \<times> u8 list \<times> rt_server)" where
  "get_packet i data s =
     (let s = s\<lparr>sv_prioritize_rx := sv_prioritize_rx s + 1\<rparr>; c = sv_rx_clients s ! i
      in if rc_status_update_state c = STATUS_UPDATE_PENDING
         then bind (put_bytes data 0 [of_nat (link_num (ps_link_state (sv_port s))),
                                      of_nat (speed_num (ps_link_speed (sv_port s)))])
                (\<lambda>data. Inr (status_info, data, s\<lparr>sv_rx_clients := (sv_rx_clients s)[i := c\<lparr>rc_status_update_state := STATUS_UPDATE_WAITING\<rparr>]\<rparr>))
         else if has_packet c
         then (let m = sv_mem s; buf = pq_ptrs (sv_rx_lp s) ! unat (rc_fifo c ! unat (rc_rd_index c))
               in bind (read_packet (sv_rx_mem s) m buf (rc_strip_vlan_tags c) data)
                    (\<lambda>(data, len).
                       let info = \<lparr>pi_type = ETH_DATA, pi_len = len, pi_timestamp = ingress_time s m buf,
                                   pi_src_ifnum = getf m buf src_port_f, pi_filter_data = getf m buf filter_data_f\<rparr>
                       in bind (release_oldest i s)
                            (\<lambda>s. Inr (info, data, if has_packet (sv_rx_clients s ! i)
                                    then s\<lparr>sv_ready := sv_ready s @ [i]\<rparr> else s))))
         else Inr (no_info, data, s))"

section \<open>Sending a packet\<close>

definition reserve_one :: "mempool_info_t \<Rightarrow> addr \<Rightarrow> tx_client_state_t \<Rightarrow> tx_client_state_t" where
  "reserve_one p rdptr c =
     (if tc_requested_send_buffer_size c \<noteq> 0 \<and> tc_send_buffer c = 0
      then c\<lparr>tc_send_buffer := mii_reserve_at_least p rdptr
               (uint (tc_requested_send_buffer_size c) + sizeof_mii_packet_t)\<rparr>
      else c)"

definition reserve :: "mempool_info_t \<Rightarrow> addr \<Rightarrow> tx_client_state_t list \<Rightarrow> tx_client_state_t list" where
  "reserve p rdptr clients = map (reserve_one p rdptr) clients"

definition init_send_packet :: "u32 \<Rightarrow> tx_client_state_t \<Rightarrow> tx_client_state_t" where
  "init_send_packet n c =
     (if tc_send_buffer c = 0 then c\<lparr>tc_requested_send_buffer_size := n\<rparr> else c)"

text \<open>
  Storing a packet in its reserved buffer and queueing it; the high priority path differs in not
  setting a timestamp id. The result is the memory, the packet memory and the queue.
\<close>

definition store_packet ::
    "mempool_info_t \<Rightarrow> mem \<Rightarrow> packet_queue_info_t \<Rightarrow> addr \<Rightarrow> u8 list \<Rightarrow> u32 option \<Rightarrow>
     mem \<times> mempool_info_t \<times> packet_queue_info_t" where
  "store_packet p m q buf data timestamp_id =
     (let (m, dptr) = copy_in p m (pkt_data buf) data;
          m = setf m buf length_f (of_nat (length data));
          m = (case timestamp_id of None \<Rightarrow> m | Some t \<Rightarrow> setf m buf timestamp_id_f t)
      in (setf m buf tcount_f 0, mii_commit p dptr, mii_add_packet q buf))"

definition complete_send_packet :: "nat \<Rightarrow> u8 list \<Rightarrow> bool \<Rightarrow> rt_server \<Rightarrow> rt_server" where
  "complete_send_packet i data request_timestamp s =
     (let c = sv_tx_clients s ! i;
          (m, p, q) = store_packet (sv_tx_mem_lp s) (sv_mem s) (sv_tx_lp s) (tc_send_buffer c) data
                        (Some (if request_timestamp then of_nat (i + 1) else 0))
      in s\<lparr>sv_mem := m, sv_tx_mem_lp := p, sv_tx_lp := q,
           sv_tx_clients := (sv_tx_clients s)[i := c\<lparr>tc_send_buffer := 0, tc_requested_send_buffer_size := 0\<rparr>],
           sv_prioritize_rx := 3\<rparr>)"

text \<open>The high priority channel: the length, then the bytes, straight into the reserved buffer.\<close>

definition hp_send_packet :: "u32 \<Rightarrow> u8 list \<Rightarrow> rt_server \<Rightarrow> rt_server" where
  "hp_send_packet len ch s =
     (let c = sv_tx_client_hp s; data = hp_in (sv_tx_mem_hp s) (pkt_data (tc_send_buffer c)) (uint len) ch;
          (m, p, q) = store_packet (sv_tx_mem_hp s) (sv_mem s) (sv_tx_hp s) (tc_send_buffer c) data None
      in s\<lparr>sv_mem := m, sv_tx_mem_hp := p, sv_tx_hp := q,
           sv_tx_client_hp := c\<lparr>tc_send_buffer := 0\<rparr>, sv_prioritize_rx := 3\<rparr>)"

definition get_outgoing_timestamp :: "nat \<Rightarrow> rt_server \<Rightarrow> u32 \<times> rt_server" where
  "get_outgoing_timestamp i s =
     (let c = sv_tx_clients s ! i
      in (tc_outgoing_timestamp c + ps_egress_ts_latency (sv_port s) ! speed_num (ps_link_speed (sv_port s)),
          s\<lparr>sv_tx_clients := (sv_tx_clients s)[i := c\<lparr>tc_has_outgoing_timestamp_info := False\<rparr>]\<rparr>))"

definition handle_ts_queue :: "rt_server \<Rightarrow> rt_server" where
  "handle_ts_queue s =
     (case mii_ts_queue_get_entry (sv_ts_queue s) of
        (q, None) \<Rightarrow> s\<lparr>sv_ts_queue := q\<rparr>
      | (q, Some (index, timestamp)) \<Rightarrow>
          (let client_id = unat (index - 1)
           in s\<lparr>sv_ts_queue := q,
                sv_tx_clients := (sv_tx_clients s)[client_id := (sv_tx_clients s ! client_id)
                  \<lparr>tc_has_outgoing_timestamp_info := True, tc_outgoing_timestamp := timestamp\<rparr>]\<rparr>))"

section \<open>The server loop\<close>

text \<open>What the \<^verbatim>\<open>select\<close> can take: a call of a client, a packet on the channel, or nothing.\<close>

datatype event =
    Cfg ethernet_cfg_if
  | Rx nat ethernet_rx_if
  | Tx nat ethernet_tx_if
  | Hp_Packet u32 "u8 list"
  | No_Event

text \<open>The guards of the \<^verbatim>\<open>select\<close>; \<open>hp_tx\<close> says whether the high priority channel is connected.\<close>

fun enabled :: "bool \<Rightarrow> event \<Rightarrow> rt_server \<Rightarrow> bool" where
  "enabled hp_tx (Tx i Get_Outgoing_Timestamp) s \<longleftrightarrow> tc_has_outgoing_timestamp_info (sv_tx_clients s ! i)"
| "enabled hp_tx (Tx i (Complete_Send_Packet data ts)) s \<longleftrightarrow>
     tc_send_buffer (sv_tx_clients s ! i) \<noteq> 0 \<and> sv_prioritize_rx s = 0"
| "enabled hp_tx (Hp_Packet len ch) s \<longleftrightarrow>
     hp_tx \<and> tc_send_buffer (sv_tx_client_hp s) \<noteq> 0 \<and> sv_prioritize_rx s = 0"
| "enabled hp_tx _ s \<longleftrightarrow> True"

definition on_client :: "nat \<Rightarrow> (rx_client_state_t \<Rightarrow> rx_client_state_t) \<Rightarrow> rt_server \<Rightarrow> rt_server" where
  "on_client i f s = s\<lparr>sv_rx_clients := (sv_rx_clients s)[i := f (sv_rx_clients s ! i)]\<rparr>"

definition set_latency :: "ethernet_speed_t \<Rightarrow> u32 \<Rightarrow> u32 list \<Rightarrow> fault + u32 list" where
  "set_latency speed ns lats =
     (if speed_num speed \<ge> speed_num NUM_ETHERNET_SPEEDS then Inl Assertion
      else Inr (lats[speed_num speed := ns div 10]))"

text \<open>The configuration calls; \<open>tile_id\<close> and \<open>time\<close> are what the hardware answers when asked.\<close>

fun handle_cfg :: "u32 \<Rightarrow> u32 \<Rightarrow> ethernet_cfg_if \<Rightarrow> rt_server \<Rightarrow> fault + (reply \<times> rt_server)" where
  "handle_cfg tile_id time Get_Macaddr s = Inr (Macaddr (sv_mac_address s), s)"
| "handle_cfg tile_id time (Set_Macaddr mac) s = Inr (No_Reply, s\<lparr>sv_mac_address := mac\<rparr>)"
| "handle_cfg tile_id time (Set_Link_State status speed) s =
     Inr (No_Reply, if ps_link_state (sv_port s) \<noteq> status
       then update_client_state (s\<lparr>sv_port := (sv_port s)\<lparr>ps_link_state := status, ps_link_speed := speed\<rparr>\<rparr>)
       else s)"
| "handle_cfg tile_id time (Add_Macaddr_Filter client_num is_hp entry) s =
     (case ethernet_add_filter_table_entry (sv_filter s) client_num is_hp entry of
        None \<Rightarrow> Inl Assertion
      | Some (result, t) \<Rightarrow> Inr (Filter_Result result, s\<lparr>sv_filter := t\<rparr>))"
| "handle_cfg tile_id time (Del_Macaddr_Filter client_num is_hp entry) s =
     Inr (No_Reply, s\<lparr>sv_filter := ethernet_del_filter_table_entry (sv_filter s) client_num is_hp entry\<rparr>)"
| "handle_cfg tile_id time (Del_All_Macaddr_Filters client_num is_hp) s =
     Inr (No_Reply, s\<lparr>sv_filter := ethernet_clear_filter_table (sv_filter s) client_num is_hp\<rparr>)"
| "handle_cfg tile_id time (Add_Ethertype_Filter i ethertype) s =
     (case add_ethertype_filter ethertype (sv_rx_clients s ! i) of
        None \<Rightarrow> Inl Assertion | Some c \<Rightarrow> Inr (No_Reply, on_client i (\<lambda>_. c) s))"
| "handle_cfg tile_id time (Del_Ethertype_Filter i ethertype) s =
     Inr (No_Reply, on_client i (del_ethertype_filter ethertype) s)"
| "handle_cfg tile_id time Get_Tile_Id_And_Timer s = Inr (Tile_And_Time tile_id time, s)"
| "handle_cfg tile_id time (Set_Egress_Qav_Idle_Slope slope) s =
     Inr (No_Reply, s\<lparr>sv_port := (sv_port s)\<lparr>ps_qav_idle_slope := slope\<rparr>\<rparr>)"
| "handle_cfg tile_id time (Set_Ingress_Timestamp_Latency speed v) s =
     bind (set_latency speed v (ps_ingress_ts_latency (sv_port s)))
       (\<lambda>l. Inr (No_Reply, s\<lparr>sv_port := (sv_port s)\<lparr>ps_ingress_ts_latency := l\<rparr>\<rparr>))"
| "handle_cfg tile_id time (Set_Egress_Timestamp_Latency speed v) s =
     bind (set_latency speed v (ps_egress_ts_latency (sv_port s)))
       (\<lambda>l. Inr (No_Reply, s\<lparr>sv_port := (sv_port s)\<lparr>ps_egress_ts_latency := l\<rparr>\<rparr>))"
| "handle_cfg tile_id time (Enable_Strip_Vlan_Tag i) s =
     Inr (No_Reply, on_client i (\<lambda>c. c\<lparr>rc_strip_vlan_tags := True\<rparr>) s)"
| "handle_cfg tile_id time (Disable_Strip_Vlan_Tag i) s =
     Inr (No_Reply, on_client i (\<lambda>c. c\<lparr>rc_strip_vlan_tags := False\<rparr>) s)"
| "handle_cfg tile_id time (Enable_Link_Status_Notification i) s =
     Inr (No_Reply, on_client i (\<lambda>c. c\<lparr>rc_status_update_state := STATUS_UPDATE_WAITING\<rparr>) s)"
| "handle_cfg tile_id time (Disable_Link_Status_Notification i) s =
     Inr (No_Reply, on_client i (\<lambda>c. c\<lparr>rc_status_update_state := STATUS_UPDATE_IGNORING\<rparr>) s)"

fun handle_rx :: "nat \<Rightarrow> ethernet_rx_if \<Rightarrow> rt_server \<Rightarrow> fault + (reply \<times> rt_server)" where
  "handle_rx i Get_Index s = Inr (Index i, s)"
| "handle_rx i (Get_Packet data) s =
     bind (get_packet i data s) (\<lambda>(info, data, s). Inr (Packet info data, s))"

fun handle_tx :: "nat \<Rightarrow> ethernet_tx_if \<Rightarrow> rt_server \<Rightarrow> reply \<times> rt_server" where
  "handle_tx i (Init_Send_Packet n) s =
     (No_Reply, s\<lparr>sv_tx_clients := (sv_tx_clients s)[i := init_send_packet n (sv_tx_clients s ! i)]\<rparr>)"
| "handle_tx i (Complete_Send_Packet data ts) s = (No_Reply, complete_send_packet i data ts s)"
| "handle_tx i Get_Outgoing_Timestamp s = (let (t, s) = get_outgoing_timestamp i s in (Timestamp t, s))"

fun handle_event :: "u32 \<Rightarrow> u32 \<Rightarrow> event \<Rightarrow> rt_server \<Rightarrow> fault + (reply \<times> rt_server)" where
  "handle_event tile_id time (Cfg e) s = handle_cfg tile_id time e s"
| "handle_event tile_id time (Rx i e) s = handle_rx i e s"
| "handle_event tile_id time (Tx i e) s = Inr (handle_tx i e s)"
| "handle_event tile_id time (Hp_Packet len ch) s = Inr (No_Reply, hp_send_packet len ch s)"
| "handle_event tile_id time No_Event s = Inr (No_Reply, s)"

text \<open>The housekeeping after the event; \<open>hp_rx\<close> and \<open>hp_tx\<close> say which high priority channels exist.\<close>

definition housekeeping :: "bool \<Rightarrow> bool \<Rightarrow> rt_server \<Rightarrow> fault + rt_server" where
  "housekeeping hp_rx hp_tx s =
     bind (if hp_rx then from_loop (handle_incoming_hp_packets s) else Inr s) (\<lambda>s.
     bind (handle_incoming_packet s) (\<lambda>s.
     let s = s\<lparr>sv_rx_rdptr := mii_get_next_rdptr (sv_rx_lp s) (sv_rx_hp s)\<rparr>
     in bind (if hp_rx \<and> mii_reserve_at_least (sv_rx_mem s) (mii_get_rdptr (sv_rx_lp s)) MII_RX_THRESHOLD_BYTES = 0
              then drop_lp_packets s else Inr s) (\<lambda>s.
     let s = (if hp_tx \<and> \<not> mii_packet_queue_full (sv_tx_hp s)
              then s\<lparr>sv_tx_client_hp := reserve_one (sv_tx_mem_hp s) (mii_get_rdptr (sv_tx_hp s)) (sv_tx_client_hp s)\<rparr>
              else s);
         s = (if \<not> mii_packet_queue_full (sv_tx_lp s)
              then s\<lparr>sv_tx_clients := reserve (sv_tx_mem_lp s) (mii_get_rdptr (sv_tx_lp s)) (sv_tx_clients s)\<rparr>
              else s)
     in Inr (handle_ts_queue s))))"

definition mii_ethernet_server ::
    "bool \<Rightarrow> bool \<Rightarrow> u32 \<Rightarrow> u32 \<Rightarrow> event \<Rightarrow> rt_server \<Rightarrow> fault + (reply \<times> rt_server)" where
  "mii_ethernet_server hp_rx hp_tx tile_id time e s =
     (let s = s\<lparr>sv_prioritize_rx := sv_prioritize_rx s - 1\<rparr>
      in if enabled hp_tx e s
         then bind (handle_event tile_id time e s) (\<lambda>(r, s). bind (housekeeping hp_rx hp_tx s) (\<lambda>s. Inr (r, s)))
         else bind (housekeeping hp_rx hp_tx s) (\<lambda>s. Inr (No_Reply, s)))"

end
