(* ===== verification/Rt_Send.thy ===== *)
theory Rt_Send
  imports Rt_Mac
begin

text \<open>
  Sending through the 10/100 real-time MAC: a client's packet, stored by \<open>_complete_send_packet\<close> or
  from the high priority channel, is what the transmitter puts on the wire, and storing it touches
  only free words of the transmit memory. When several clients wait for a buffer at once they are
  given the same one.
\<close>

section \<open>Storing a packet\<close>

lemma slot_bytes_cong:
  "(\<And>i. i < (n + 3) div 4 \<Longrightarrow> m' (mp_slot p (k + i)) = m (mp_slot p (k + i))) \<Longrightarrow>
   slot_bytes p m' k n = slot_bytes p m k n"
proof -
  assume "\<And>i. i < (n + 3) div 4 \<Longrightarrow> m' (mp_slot p (k + i)) = m (mp_slot p (k + i))"
  then have "slot_words p m' k ((n + 3) div 4) = slot_words p m k ((n + 3) div 4)"
    by (simp add: slot_words_def)
  then show ?thesis by (simp add: slot_bytes_def)
qed

lemma slot_bytes_commit [simp]: "slot_bytes (mii_commit p a) m k n = slot_bytes p m k n"
  by (simp add: slot_bytes_def slot_words_def)

text \<open>The words a packet of \<open>n\<close> bytes takes, with its header.\<close>

definition packet_words :: "nat \<Rightarrow> nat" where
  "packet_words n = 10 + (n + 3) div 4"

text \<open>The slot of the first data word of a packet at the write pointer.\<close>

definition data_slot :: "mempool_info_t \<Rightarrow> nat" where
  "data_slot p = mp_index p (mp_wrptr p) + 10"

lemma data_slot:
  assumes "mp_ok p m"
  shows "data_slot p < mp_words p" "pkt_data (mp_wrptr p) = mp_slot p (data_slot p)"
    "pkt_data (mp_wrptr p) + 4 = mp_slot p (Suc (data_slot p))" "mp_slot p (data_slot p + i) = wr_slot p (10 + i)"
proof -
  have w: "mp_wrptr p = mp_start p + 4 * int (mp_index p (mp_wrptr p))" "mp_index p (mp_wrptr p) + 14 \<le> mp_words p"
    using wrptr_slot [OF assms, of 0] by simp_all
  then show "data_slot p < mp_words p" by (simp add: data_slot_def)
  show "pkt_data (mp_wrptr p) = mp_slot p (data_slot p)"
    "pkt_data (mp_wrptr p) + 4 = mp_slot p (Suc (data_slot p))" "mp_slot p (data_slot p + i) = wr_slot p (10 + i)"
    using w by (simp_all add: data_slot_def mp_slot_def pkt_data_def wr_slot_def add.assoc)
qed

lemma store_packet_mem:
  assumes ok: "mp_ok p m" and rd: "rd_ok p rdptr" and room: "packet_words (length data) \<le> free_words p rdptr"
    and st: "store_packet p m q (mp_wrptr p) data t = (m', p', q')"
  shows "slot_bytes p m' (data_slot p) (length data) = data"
    "getf m' (mp_wrptr p) length_f = of_nat (length data)"
    "getf m' (mp_wrptr p) tcount_f = 0"
    "case t of None \<Rightarrow> True | Some i \<Rightarrow> getf m' (mp_wrptr p) timestamp_id_f = i"
    "\<And>a. a mod 4 = 0 \<Longrightarrow> \<not> free_addr p rdptr a \<Longrightarrow> m' a = m a"
    "q' = mii_add_packet q (mp_wrptr p)"
    "mp_wrptr p' = mp_wrptr (mii_commit p (mp_slot p (data_slot p + (length data + 3) div 4)))"
    "p' = p\<lparr>mp_wrptr := mp_wrptr p'\<rparr>"
proof -
  let ?b = "mp_wrptr p" and ?n = "(length data + 3) div 4"
  define mc where "mc = fst (copy_in p m (pkt_data ?b) data)"
  have N: "free_words p rdptr \<le> mp_words p" by (rule free_words_bounds(2) [OF ok rd])
  have n: "10 + ?n \<le> mp_words p" using room N by (simp add: packet_words_def)
  then have len: "length data < 4 * mp_words p" by linarith
  note ds = data_slot [OF ok]
  have m': "m' = setf (case t of None \<Rightarrow> setf mc ?b length_f (of_nat (length data))
      | Some i \<Rightarrow> setf (setf mc ?b length_f (of_nat (length data))) ?b timestamp_id_f i) ?b tcount_f 0"
    and p': "p' = mii_commit p (snd (copy_in p m (pkt_data ?b) data))" and q': "q' = mii_add_packet q ?b"
    using st by (auto simp: store_packet_def Let_def mc_def case_prod_unfold split: option.splits)
  show "q' = mii_add_packet q ?b" by (rule q')
  show "getf m' ?b length_f = of_nat (length data)" "getf m' ?b tcount_f = 0"
    "case t of None \<Rightarrow> True | Some i \<Rightarrow> getf m' ?b timestamp_id_f = i"
    unfolding m' by (simp_all split: option.splits)
  have fld: "?b + fld_off f = wr_slot p (nat (fld_off f div 4))" "nat (fld_off f div 4) < 10" for f
    using header_slots [OF ok, of "nat (fld_off f div 4)"] by (cases f; simp)+
  have hdr: "m' a = mc a" if "\<And>f. a \<noteq> ?b + fld_off f" for a
    unfolding m' using that [of length_f] that [of timestamp_id_f] that [of tcount_f]
    by (simp add: setf_def split: option.splits)
  have "m' (mp_slot p (data_slot p + i)) = mc (mp_slot p (data_slot p + i))" if "i < ?n" for i
  proof (rule hdr)
    fix f show "mp_slot p (data_slot p + i) \<noteq> ?b + fld_off f"
      unfolding fld(1) ds(4) using wr_slot_eq [OF ok, of "10 + i" "nat (fld_off f div 4)"] fld(2) [of f] n that by simp
  qed
  then have "slot_bytes p m' (data_slot p) (length data) = slot_bytes p mc (data_slot p) (length data)"
    by (rule slot_bytes_cong)
  then show "slot_bytes p m' (data_slot p) (length data) = data"
    using copy_in_bytes [OF ok ds(1), of data] len by (simp add: mc_def ds(2))
  show "m' a = m a" if "a mod 4 = 0" "\<not> free_addr p rdptr a" for a
  proof -
    have "m' a = mc a"
    proof (rule hdr)
      fix f
      have "nat (fld_off f div 4) < free_words p rdptr"
        using fld(2) [of f] room unfolding packet_words_def by linarith
      then have "free_addr p rdptr (wr_slot p (nat (fld_off f div 4)))" by (rule free_addr_slot [OF ok rd])
      then show "a \<noteq> ?b + fld_off f" unfolding fld(1) using that by auto
    qed
    also have "mc a = m a"
      unfolding mc_def ds(2)
    proof (rule copy_in_outside [OF ok ds(1) _ that(1)])
      show "length data \<le> 4 * mp_words p" using len by simp
      fix i assume "i < ?n"
      then have "free_addr p rdptr (wr_slot p (10 + i))"
        using room by (intro free_addr_slot [OF ok rd]) (simp add: packet_words_def)
      then show "a \<noteq> mp_slot p (data_slot p + i)" unfolding ds(4) using that by auto
    qed
    finally show ?thesis .
  qed
  show "mp_wrptr p' = mp_wrptr (mii_commit p (mp_slot p (data_slot p + ?n)))"
    unfolding p' ds(2) by (rule copy_in_ptr [OF ok ds(1) len])
  show "p' = p\<lparr>mp_wrptr := mp_wrptr p'\<rparr>" unfolding p' by (simp add: mii_commit_def)
qed

lemma store_packet_ok:
  assumes ok: "mp_ok p m" and rd: "rd_ok p rdptr" and room: "packet_words (length data) \<le> free_words p rdptr"
    and st: "store_packet p m q (mp_wrptr p) data t = (m', p', q')"
  shows "mp_ok p' m'"
proof -
  note sm = store_packet_mem [OF assms]
  let ?a = "mp_slot p (data_slot p + (length data + 3) div 4)"
  have "m' (mp_end p) = m (mp_end p)"
    by (rule sm(5)) (simp_all add: mp_end_aligned [OF ok] free_addr_def in_pool_def)
  then have "mp_ok p m'" using ok by (simp add: mp_ok_def)
  then have "mp_ok (mii_commit p ?a) m'" using slot_in_pool [OF ok] by (rule mii_commit_ok)
  moreover have "p' = mii_commit p ?a"
    using sm(7,8) by (simp add: mii_commit_def)
  ultimately show ?thesis by simp
qed

lemma store_packet_wrptr:
  "fst (store_packet (p\<lparr>mp_wrptr := w\<rparr>) m q b data t) = fst (store_packet p m q b data t)"
  "snd (snd (store_packet (p\<lparr>mp_wrptr := w\<rparr>) m q b data t)) = snd (snd (store_packet p m q b data t))"
  by (simp_all add: store_packet_def copy_in_def mii_get_wrap_ptr_def case_prod_unfold Let_def)

text \<open>What the transmitter puts on the wire for a packet just stored.\<close>

definition ethernet_frame :: "u8 list \<Rightarrow> bool list" where
  "ethernet_frame data = bytes_bits (replicate 7 0x55 @ [0xD5]) @ bytes_bits data @
     bits_of 32 (ieee_crc (bytes_bits data))"

lemma store_packet_wire:
  assumes ok: "mp_ok p m" and rd: "rd_ok p rdptr" and room: "packet_words (length data) \<le> free_words p rdptr"
    and st: "store_packet p m q (mp_wrptr p) data t = (m', p', q')"
    and len: "8 \<le> length data" "length data < 2 ^ 32"
  shows "wire_bits (fst (mii_transmit_packet p' m' (mp_wrptr p) clk)) = ethernet_frame data"
proof -
  note sm = store_packet_mem [OF ok rd room st]
  have p': "mp_slot p' i = mp_slot p i" "slot_bytes p' m' k n = slot_bytes p m' k n" for i k n
    by (subst sm(8), simp add: mp_slot_def mp_words_def slot_bytes_def slot_words_def)+
  have "unat (getf m' (mp_wrptr p) length_f) = length data"
    unfolding sm(2) using len(2) by (simp add: unat_of_nat)
  then show ?thesis
    using mii_transmit_packet_bits [OF store_packet_ok [OF ok rd room st], of "mp_wrptr p" "data_slot p" "length data" clk]
      data_slot(2,3) [OF ok] len(1) sm(1) by (simp add: p' ethernet_frame_def)
qed

section \<open>Reserving\<close>

text \<open>
  A buffer reserved for a client is at the write pointer and has room for the whole packet
  before the oldest live packet. With an empty queue the code makes no test; the last hypothesis
  says that the memory is then large enough.
\<close>

lemma reserve_one_spec:
  assumes ok: "mp_ok p m" and rd: "rd_ok p rdptr"
    and none: "tc_send_buffer c = 0" and got: "tc_send_buffer (reserve_one p rdptr c) \<noteq> 0"
    and empty: "rdptr = 0 \<longrightarrow> uint (tc_requested_send_buffer_size c) + sizeof_mii_packet_t \<le> 4 * int (mp_words p)"
  shows "tc_send_buffer (reserve_one p rdptr c) = mp_wrptr p \<and>
    packet_words (unat (tc_requested_send_buffer_size c)) \<le> free_words p rdptr"
proof -
  let ?n = "uint (tc_requested_send_buffer_size c)"
  have n: "?n = int (unat (tc_requested_send_buffer_size c))" by simp
  have sz: "sizeof_mii_packet_t = 1568" by (simp add: sizeof_mii_packet_t_def MII_PACKET_DATA_BYTES_def)
  have req: "tc_requested_send_buffer_size c \<noteq> 0" and buf: "tc_send_buffer (reserve_one p rdptr c) =
      mii_reserve_at_least p rdptr (?n + 1568)"
    using got none by (auto simp: reserve_one_def sz split: if_splits)
  show ?thesis
  proof (cases "rdptr = 0")
    case True
    then have "?n + 1568 \<le> 4 * int (mp_words p)" using empty sz by simp
    then have "packet_words (unat (tc_requested_send_buffer_size c)) \<le> mp_words p"
      unfolding n packet_words_def by linarith
    then show ?thesis using True buf by (simp add: mii_reserve_at_least_def Let_def free_words_def)
  next
    case False
    then have r: "in_pool p rdptr" "rdptr \<noteq> mp_wrptr p" using rd by (simp_all add: rd_ok_def)
    have e: "mp_end p = mp_start p + 4 * int (mp_words p)" by (rule mp_end_words(1) [OF ok])
    let ?left = "if rdptr - mp_wrptr p \<le> 0 then rdptr - mp_wrptr p + (mp_end p - mp_start p) else rdptr - mp_wrptr p"
    have left: "?left = 4 * int (free_words p rdptr)"
      using space_left_words [OF ok r] False e by (simp add: free_words_def)
    have fits: "\<not> ?left < ?n + 1568" "mii_reserve_at_least p rdptr (?n + 1568) = mp_wrptr p"
      using got buf False by (auto simp: mii_reserve_at_least_def Let_def split: if_splits)
    then have "?n + 1568 \<le> 4 * int (free_words p rdptr)" using left by linarith
    then have "packet_words (unat (tc_requested_send_buffer_size c)) \<le> free_words p rdptr"
      unfolding n packet_words_def by linarith
    then show ?thesis using fits buf by simp
  qed
qed

section \<open>From the client to the wire\<close>

lemma complete_send_store:
  assumes "store_packet (sv_tx_mem_lp s) (sv_mem s) (sv_tx_lp s) (tc_send_buffer (sv_tx_clients s ! i)) data
    (Some (if ts then of_nat (i + 1) else 0)) = (m', p', q')"
  shows "sv_mem (complete_send_packet i data ts s) = m'" "sv_tx_mem_lp (complete_send_packet i data ts s) = p'"
    "sv_tx_lp (complete_send_packet i data ts s) = q'"
  using assms by (simp_all add: complete_send_packet_def Let_def)

text \<open>
  C17. The packet a client completes, stored in the buffer reserved for it, is appended to the
  transmit queue, and transmitting it puts exactly the client's bytes on the wire, framed, whatever
  its position with respect to the wrap; the memory invariant holds again, no live word of the
  transmit memory changes, and the timestamp id names the client that asked for a timestamp.
\<close>

theorem complete_send_packet_on_wire:
  assumes ok: "mp_ok (sv_tx_mem_lp s) (sv_mem s)" and rd: "rd_ok (sv_tx_mem_lp s) rdptr"
    and buf: "tc_send_buffer (sv_tx_clients s ! i) = mp_wrptr (sv_tx_mem_lp s)"
    and room: "packet_words (length data) \<le> free_words (sv_tx_mem_lp s) rdptr"
    and len: "8 \<le> length data" "length data < 2 ^ 32"
  shows "let s' = complete_send_packet i data ts s; b = mp_wrptr (sv_tx_mem_lp s) in
    wire_bits (fst (mii_transmit_packet (sv_tx_mem_lp s') (sv_mem s') b clk)) = ethernet_frame data \<and>
    sv_tx_lp s' = mii_add_packet (sv_tx_lp s) b \<and>
    mp_ok (sv_tx_mem_lp s') (sv_mem s') \<and>
    getf (sv_mem s') b timestamp_id_f = (if ts then of_nat (i + 1) else 0) \<and>
    (\<forall>a. a mod 4 = 0 \<and> \<not> free_addr (sv_tx_mem_lp s) rdptr a \<longrightarrow> sv_mem s' a = sv_mem s a)"
proof -
  let ?t = "Some (if ts then of_nat (i + 1) else 0) :: u32 option"
  obtain m' p' q' where st: "store_packet (sv_tx_mem_lp s) (sv_mem s) (sv_tx_lp s) (mp_wrptr (sv_tx_mem_lp s)) data ?t
      = (m', p', q')"
    by (cases "store_packet (sv_tx_mem_lp s) (sv_mem s) (sv_tx_lp s) (mp_wrptr (sv_tx_mem_lp s)) data ?t")
  note fields = complete_send_store [OF st [folded buf]]
  show ?thesis
    unfolding Let_def fields
    using store_packet_mem(4,5,6) [OF ok rd room st] store_packet_ok [OF ok rd room st]
      store_packet_wire [OF ok rd room st len]
    by auto
qed

text \<open>
  The same for the high priority channel, with its own memory and queue: what a client sends
  with \<open>ethernet_send_hp_packet\<close> reaches the wire unchanged, although the channel carries the bytes
  backwards and the MAC stores the part behind the wrap first.
\<close>

theorem hp_send_packet_on_wire:
  assumes ok: "mp_ok (sv_tx_mem_hp s) (sv_mem s)" and rd: "rd_ok (sv_tx_mem_hp s) rdptr"
    and buf: "tc_send_buffer (sv_tx_client_hp s) = mp_wrptr (sv_tx_mem_hp s)"
    and room: "packet_words (length data) \<le> free_words (sv_tx_mem_hp s) rdptr"
    and len: "8 \<le> length data" "length data < 2 ^ 32"
  shows "let (n, ch) = ethernet_send_hp_packet data (length data);
      s' = hp_send_packet n ch s; b = mp_wrptr (sv_tx_mem_hp s) in
    wire_bits (fst (mii_transmit_packet (sv_tx_mem_hp s') (sv_mem s') b clk)) = ethernet_frame data \<and>
    sv_tx_hp s' = mii_add_packet (sv_tx_hp s) b \<and>
    mp_ok (sv_tx_mem_hp s') (sv_mem s') \<and>
    (\<forall>a. a mod 4 = 0 \<and> \<not> free_addr (sv_tx_mem_hp s) rdptr a \<longrightarrow> sv_mem s' a = sv_mem s a)"
proof -
  obtain m' p' q' where st: "store_packet (sv_tx_mem_hp s) (sv_mem s) (sv_tx_hp s) (mp_wrptr (sv_tx_mem_hp s)) data None
      = (m', p', q')"
    by (cases "store_packet (sv_tx_mem_hp s) (sv_mem s) (sv_tx_hp s) (mp_wrptr (sv_tx_mem_hp s)) data None")
  have "pkt_data (mp_wrptr (sv_tx_mem_hp s)) \<le> mii_get_wrap_ptr (sv_tx_mem_hp s)"
    using ok by (simp add: mp_ok_def pkt_data_def mii_get_wrap_ptr_def MIN_USAGE_56)
  then have "hp_in (sv_tx_mem_hp s) (pkt_data (mp_wrptr (sv_tx_mem_hp s))) (int (length data)) (sout_char_array data) = data"
    by (rule hp_in_sends)
  then have recv: "hp_in (sv_tx_mem_hp s) (pkt_data (tc_send_buffer (sv_tx_client_hp s)))
      (uint (of_nat (length data) :: u32)) (sout_char_array data) = data"
    using len by (simp add: buf uint_nat unat_of_nat)
  let ?s' = "hp_send_packet (of_nat (length data)) (sout_char_array data) s"
  have fields: "sv_mem ?s' = m'" "sv_tx_mem_hp ?s' = p'" "sv_tx_hp ?s' = q'"
    using st by (simp_all add: hp_send_packet_def Let_def recv) (simp_all add: buf)
  show ?thesis
    unfolding ethernet_send_hp_packet_def take_all [OF order_refl] Let_def prod.case fields
    using store_packet_mem(5,6) [OF ok rd room st] store_packet_ok [OF ok rd room st]
      store_packet_wire [OF ok rd room st len]
    by auto
qed

text \<open>
  C30. Two clients waiting for a buffer when one is reserved are given the same one. When both
  complete, their packets are queued at the same address: the second overwrites the first, and the
  queue holds it twice.
\<close>

theorem shared_send_buffer:
  assumes ok: "mp_ok (sv_tx_mem_lp s) (sv_mem s)" and rd: "rd_ok (sv_tx_mem_lp s) rdptr"
    and clients: "sv_tx_clients s = reserve (sv_tx_mem_lp s) rdptr clients"
    and ij: "i < length clients" "j < length clients" "i \<noteq> j"
    and asked: "tc_send_buffer (clients ! i) = 0" "tc_send_buffer (clients ! j) = 0"
    and got: "tc_send_buffer (sv_tx_clients s ! i) \<noteq> 0" "tc_send_buffer (sv_tx_clients s ! j) \<noteq> 0"
    and room: "packet_words (length d1) \<le> free_words (sv_tx_mem_lp s) rdptr"
      "packet_words (length d2) \<le> free_words (sv_tx_mem_lp s) rdptr"
  shows "let b = tc_send_buffer (sv_tx_clients s ! i);
      s' = complete_send_packet j d2 t2 (complete_send_packet i d1 t1 s) in
    tc_send_buffer (sv_tx_clients s ! j) = b \<and>
    sv_tx_lp s' = mii_add_packet (mii_add_packet (sv_tx_lp s) b) b \<and>
    slot_bytes (sv_tx_mem_lp s) (sv_mem s') (data_slot (sv_tx_mem_lp s)) (length d2) = d2 \<and>
    getf (sv_mem s') b length_f = of_nat (length d2)"
proof -
  let ?p = "sv_tx_mem_lp s" and ?b = "mp_wrptr (sv_tx_mem_lp s)"
  have "tc_send_buffer (sv_tx_clients s ! k) = ?b"
    if "k < length clients" "tc_send_buffer (clients ! k) = 0" "tc_send_buffer (sv_tx_clients s ! k) \<noteq> 0" for k
    using that unfolding clients
    by (auto simp: reserve_def reserve_one_def mii_reserve_at_least_def Let_def split: if_splits)
  then have bi: "tc_send_buffer (sv_tx_clients s ! i) = ?b" and bj: "tc_send_buffer (sv_tx_clients s ! j) = ?b"
    using ij asked got by blast+
  let ?t1 = "Some (if t1 then of_nat (i + 1) else 0) :: u32 option"
  let ?t2 = "Some (if t2 then of_nat (j + 1) else 0) :: u32 option"
  obtain m1 p1 q1 where st1: "store_packet ?p (sv_mem s) (sv_tx_lp s) ?b d1 ?t1 = (m1, p1, q1)"
    by (cases "store_packet ?p (sv_mem s) (sv_tx_lp s) ?b d1 ?t1")
  let ?s1 = "complete_send_packet i d1 t1 s"
  note f1 = complete_send_store [OF st1 [folded bi]]
  have c1: "sv_tx_clients ?s1 ! j = sv_tx_clients s ! j"
    using ij by (simp add: complete_send_packet_def Let_def case_prod_unfold)
  obtain m2 p2 q2 where st2: "store_packet p1 m1 q1 ?b d2 ?t2 = (m2, p2, q2)"
    by (cases "store_packet p1 m1 q1 ?b d2 ?t2")
  note f2 = complete_send_store [of ?s1 j d2 t2 m2 p2 q2, unfolded f1 c1 bj, OF st2]
  have ok1: "mp_ok ?p m1" and p1: "p1 = ?p\<lparr>mp_wrptr := mp_wrptr p1\<rparr>"
    using store_packet_mem [OF ok rd room(1) st1] ok
    by (simp_all add: mp_ok_def mp_end_aligned [OF ok] free_addr_def in_pool_def)
  have st2': "fst (store_packet ?p m1 q1 ?b d2 ?t2) = m2" "snd (snd (store_packet ?p m1 q1 ?b d2 ?t2)) = q2"
    using st2 store_packet_wrptr [where p = ?p and w = "mp_wrptr p1" and m = m1 and q = q1 and b = ?b and data = d2 and t = ?t2] p1 by simp_all
  then obtain p3 where "store_packet ?p m1 q1 ?b d2 ?t2 = (m2, p3, q2)" by (metis prod.collapse)
  note sm2 = store_packet_mem [OF ok1 rd room(2) this]
  show ?thesis
    unfolding Let_def bi bj f2
    using sm2(1,2,6) store_packet_mem(6) [OF ok rd room(1) st1] by simp
qed

section \<open>Examples\<close>

text \<open>A server just started, with memories of 512 words; two clients have asked for 64 bytes.\<close>

definition server_pool :: "addr \<Rightarrow> mempool_info_t" where
  "server_pool a = \<lparr>mp_wrptr = a, mp_start = a, mp_end = a + 2048, mp_last_safe_wrptr = a + 1992\<rparr>"

definition waiting_client :: tx_client_state_t where
  "waiting_client = \<lparr>tc_requested_send_buffer_size = 64, tc_send_buffer = 0,
     tc_has_outgoing_timestamp_info = False, tc_outgoing_timestamp = 0\<rparr>"

definition example_server :: rt_server where
  "example_server = \<lparr>sv_mem = (\<lambda>_. 0)(0x1800 := 0x1000, 0x2800 := 0x2000, 0x3800 := 0x3000),
     sv_rx_mem = server_pool 0x1000, sv_tx_mem_lp = server_pool 0x2000, sv_tx_mem_hp = server_pool 0x3000,
     sv_rx_lp = mii_init_packet_queue, sv_rx_hp = mii_init_packet_queue,
     sv_tx_lp = mii_init_packet_queue, sv_tx_hp = mii_init_packet_queue,
     sv_ts_queue = mii_ts_queue_init (replicate 11 \<lparr>ts_timestamp_id = 0, ts_timestamp = 0\<rparr>) 3,
     sv_filter = ethernet_init_filter_table, sv_rd_index_lp = 0, sv_rd_index_hp = 0,
     sv_rx_clients = init_rx_client_state [example_client, example_client],
     sv_tx_clients = reserve (server_pool 0x2000) 0 [waiting_client, waiting_client],
     sv_tx_client_hp = reserve_one (server_pool 0x3000) 0 waiting_client,
     sv_port = init_server_port_state False, sv_mac_address = replicate 6 0, sv_rx_rdptr = 0,
     sv_prioritize_rx = 0, sv_ready = [], sv_hp_out = []\<rparr>"

definition example_data :: "u8 list" where
  "example_data = map of_nat [0..<60]"

lemma example_data_length [simp]: "length example_data = 60"
  by (simp add: example_data_def)

lemma server_pool_ok:
  "m (a + 2048) = word_of_int a \<Longrightarrow> 0 < a \<Longrightarrow> a mod 4 = 0 \<Longrightarrow> a + 2048 < 2 ^ 32 \<Longrightarrow> mp_ok (server_pool a) m"
  "rd_ok (server_pool a) 0" "free_words (server_pool a) 0 = 512"
  by (simp_all add: server_pool_def mp_ok_def in_pool_def MIN_USAGE_56 rd_ok_def free_words_def mp_words_def)

lemma waiting_client_reserved:
  "0 < a \<Longrightarrow> tc_send_buffer (reserve_one (server_pool a) 0 waiting_client) = a"
  by (simp add: reserve_one_def waiting_client_def mii_reserve_at_least_def server_pool_def Let_def)

lemma example_server_simps:
  "sv_tx_mem_lp example_server = server_pool 0x2000" "sv_tx_mem_hp example_server = server_pool 0x3000"
  "sv_tx_clients example_server =
     [reserve_one (server_pool 0x2000) 0 waiting_client, reserve_one (server_pool 0x2000) 0 waiting_client]"
  "sv_tx_client_hp example_server = reserve_one (server_pool 0x3000) 0 waiting_client"
  "sv_mem example_server 0x2800 = 0x2000" "sv_mem example_server 0x3800 = 0x3000"
  by (simp_all add: example_server_def reserve_def)

lemma server_pool_wrptr: "mp_wrptr (server_pool a) = a"
  by (simp add: server_pool_def)

lemma example_server_ok:
  "mp_ok (sv_tx_mem_lp example_server) (sv_mem example_server)" "rd_ok (sv_tx_mem_lp example_server) 0"
  "mp_ok (sv_tx_mem_hp example_server) (sv_mem example_server)" "rd_ok (sv_tx_mem_hp example_server) 0"
  "packet_words 60 \<le> free_words (sv_tx_mem_lp example_server) 0"
  "packet_words 60 \<le> free_words (sv_tx_mem_hp example_server) 0"
  "i < 2 \<Longrightarrow> tc_send_buffer (sv_tx_clients example_server ! i) = mp_wrptr (sv_tx_mem_lp example_server)"
  "tc_send_buffer (sv_tx_client_hp example_server) = mp_wrptr (sv_tx_mem_hp example_server)"
  "mp_wrptr (sv_tx_mem_lp example_server) = 0x2000"
proof -
  show "i < 2 \<Longrightarrow> tc_send_buffer (sv_tx_clients example_server ! i) = mp_wrptr (sv_tx_mem_lp example_server)"
    by (auto simp: example_server_simps waiting_client_reserved server_pool_wrptr less_Suc_eq numeral_2_eq_2)
qed (simp_all add: example_server_simps server_pool_ok packet_words_def waiting_client_reserved server_pool_wrptr)

lemma reserve_one_spec_witness:
  "tc_send_buffer (reserve_one (server_pool 0x2000) 0 waiting_client) = mp_wrptr (server_pool 0x2000) \<and>
    packet_words (unat (tc_requested_send_buffer_size waiting_client)) \<le> free_words (server_pool 0x2000) 0"
  by (rule reserve_one_spec [OF server_pool_ok(1) server_pool_ok(2)])
     (simp_all add: waiting_client_reserved, simp_all add: waiting_client_def
       sizeof_mii_packet_t_def MII_PACKET_DATA_BYTES_def mp_words_def server_pool_def)

lemma complete_send_packet_on_wire_witness:
  "let s' = complete_send_packet 1 example_data True example_server; b = mp_wrptr (sv_tx_mem_lp example_server) in
    wire_bits (fst (mii_transmit_packet (sv_tx_mem_lp s') (sv_mem s') b (\<lambda>_. 0))) = ethernet_frame example_data \<and>
    sv_tx_lp s' = mii_add_packet (sv_tx_lp example_server) b \<and>
    mp_ok (sv_tx_mem_lp s') (sv_mem s') \<and> getf (sv_mem s') b timestamp_id_f = 2"
  using complete_send_packet_on_wire [OF example_server_ok(1,2,7), of 1 example_data True "\<lambda>_. 0"] example_server_ok(5)
  by (simp add: Let_def)

lemma hp_send_packet_on_wire_witness:
  "let (n, ch) = ethernet_send_hp_packet example_data (length example_data);
      s' = hp_send_packet n ch example_server; b = mp_wrptr (sv_tx_mem_hp example_server) in
    wire_bits (fst (mii_transmit_packet (sv_tx_mem_hp s') (sv_mem s') b (\<lambda>_. 0))) = ethernet_frame example_data \<and>
    sv_tx_hp s' = mii_add_packet (sv_tx_hp example_server) b \<and> mp_ok (sv_tx_mem_hp s') (sv_mem s')"
  using hp_send_packet_on_wire [OF example_server_ok(3,4,8), of example_data "\<lambda>_. 0"] example_server_ok(6)
  by (auto simp: Let_def case_prod_beta)

lemma shared_send_buffer_witness:
  "let b = tc_send_buffer (sv_tx_clients example_server ! 0);
      s' = complete_send_packet 1 (rev example_data) False (complete_send_packet 0 example_data False example_server) in
    tc_send_buffer (sv_tx_clients example_server ! 1) = b \<and>
    sv_tx_lp s' = mii_add_packet (mii_add_packet (sv_tx_lp example_server) b) b \<and>
    slot_bytes (sv_tx_mem_lp example_server) (sv_mem s') (data_slot (sv_tx_mem_lp example_server))
      (length (rev example_data)) = rev example_data \<and>
    getf (sv_mem s') b length_f = of_nat (length (rev example_data))"
  by (rule shared_send_buffer [OF example_server_ok(1,2), of "[waiting_client, waiting_client]"])
     (use example_server_ok(5,7,9) in \<open>simp_all add: waiting_client_def\<close>,
      simp add: example_server_def waiting_client_def)

end
