(* ===== verification/Macaddr_Hash.thy ===== *)
theory Macaddr_Hash
  imports Macaddr_Filter Crc
begin

text \<open>
  The destination address filter of the 10/100/1000 MAC,
  \<^verbatim>\<open>lib_ethernet/src/macaddr_filter_hash.c\<close>: a table of 256 slots in which an address has two
  places, given by two hash functions. The filter threads look up in the active table while the
  server changes the backup table; the two are then swapped and the change applied again to the
  other, so that between operations the tables are equal. The loops that may run forever
  (rehashing until all addresses fit) are \<^theory_text>\<open>partial_function\<close>s: \<open>None\<close> is a loop that never ends.
\<close>

section \<open>State\<close>

record mii_macaddr_hash_table_entry_t =
  he_id0 :: u32
  he_id1 :: u32
  he_result :: u32
  he_appdata :: u32

record mii_macaddr_hash_table_t =
  ht_polys :: "u32 list"
  ht_num_entries :: u32
  ht_entries :: "mii_macaddr_hash_table_entry_t list"

abbreviation MII_MACADDR_HASH_TABLE_SIZE :: nat where "MII_MACADDR_HASH_TABLE_SIZE \<equiv> 256"
abbreviation MAX_NUM_FILTERS :: nat where "MAX_NUM_FILTERS \<equiv> 2"

text \<open>The static data of the file: the two tables and the flags shared with the filter threads.\<close>

record hash_state =
  hs_table :: mii_macaddr_hash_table_t
  hs_backup :: mii_macaddr_hash_table_t
  hs_filter_active :: "bool list"
  hs_waiting :: "bool list"

definition he_used :: "mii_macaddr_hash_table_entry_t \<Rightarrow> bool" where
  "he_used e \<longleftrightarrow> he_id0 e \<noteq> 0 \<or> he_id1 e \<noteq> 0"

definition he_key :: "mii_macaddr_hash_table_entry_t \<Rightarrow> u32 \<times> u32" where
  "he_key e = (he_id0 e, he_id1 e)"

section \<open>Operations\<close>

definition clear_entry :: "mii_macaddr_hash_table_entry_t \<Rightarrow> mii_macaddr_hash_table_entry_t" where
  "clear_entry e = e\<lparr>he_id0 := 0, he_id1 := 0\<rparr>"

definition clear_table :: "mii_macaddr_hash_table_t \<Rightarrow> mii_macaddr_hash_table_t" where
  "clear_table t = t\<lparr>ht_num_entries := 0, ht_entries := map clear_entry (ht_entries t),
     ht_polys := [0xedb88320, 0xba75fe21]\<rparr>"

definition mii_macaddr_hash_table_init :: "hash_state \<Rightarrow> hash_state" where
  "mii_macaddr_hash_table_init s = s\<lparr>hs_table := clear_table (hs_table s), hs_backup := clear_table (hs_backup s)\<rparr>"

definition mii_macaddr_set_num_active_filters :: "nat \<Rightarrow> hash_state \<Rightarrow> hash_state" where
  "mii_macaddr_set_num_active_filters num_active s =
     s\<lparr>hs_filter_active := map (\<lambda>i. i < num_active) [0..<MAX_NUM_FILTERS],
       hs_waiting := replicate MAX_NUM_FILTERS False\<rparr>"

definition entry_to_keys :: "ethernet_macaddr_filter_t \<Rightarrow> u32 \<times> u32" where
  "entry_to_keys entry = addr_words (mf_addr entry)"

definition hash :: "u32 \<Rightarrow> u32 \<Rightarrow> u32 \<Rightarrow> u32" where
  "hash key0 key1 poly =
     (let x = key0; x = crc32 x key1 poly; x = crc32 x 0 poly
      in x AND (of_nat MII_MACADDR_HASH_TABLE_SIZE - 1))"

text \<open>A filter thread takes the active table and clears its waiting flag.\<close>

definition mii_macaddr_get_hash_table :: "nat \<Rightarrow> hash_state \<Rightarrow> mii_macaddr_hash_table_t \<times> hash_state" where
  "mii_macaddr_get_hash_table filter_num s =
     (hs_table s, s\<lparr>hs_waiting := (hs_waiting s)[filter_num := False]\<rparr>)"

definition slot :: "mii_macaddr_hash_table_t \<Rightarrow> nat \<Rightarrow> u32 \<times> u32 \<Rightarrow> nat" where
  "slot t hashtype key = unat (hash (fst key) (snd key) (ht_polys t ! hashtype))"

text \<open>The result and the user data, which keeps its value when nothing matches.\<close>

definition mii_macaddr_hash_lookup ::
    "mii_macaddr_hash_table_t \<Rightarrow> u32 \<Rightarrow> u32 \<Rightarrow> u32 \<Rightarrow> u32 \<times> u32" where
  "mii_macaddr_hash_lookup t key0 key1 appdata =
     (if key0 = 0 \<and> key1 = 0 then (0, appdata)
      else (let x = ht_entries t ! slot t 0 (key0, key1); y = ht_entries t ! slot t 1 (key0, key1)
            in if key0 = he_id0 y \<and> key1 = he_id1 y then (he_result y, he_appdata y)
               else if key0 = he_id0 x \<and> key1 = he_id1 x then (he_result x, he_appdata x)
               else (0, appdata)))"

definition contains_different_entry ::
    "mii_macaddr_hash_table_t \<Rightarrow> nat \<Rightarrow> mii_macaddr_hash_table_entry_t \<Rightarrow> bool \<times> bool" where
  "contains_different_entry t index key =
     (let e = ht_entries t ! index;
          empty = (he_id0 e = 0 \<and> he_id1 e = 0);
          different = (he_id0 e \<noteq> he_id0 key \<or> he_id1 e \<noteq> he_id1 key)
      in (\<not> empty \<and> different, empty))"

definition put_entry ::
    "mii_macaddr_hash_table_t \<Rightarrow> nat \<Rightarrow> mii_macaddr_hash_table_entry_t \<Rightarrow> mii_macaddr_hash_table_t" where
  "put_entry t index e = t\<lparr>ht_entries := (ht_entries t)[index := e]\<rparr>"

text \<open>
  The loop of \<open>insert\<close>. The first conflict only switches to the second hash function; later ones
  exchange the entry in hand with the one found. \<open>limit\<close> is \<^verbatim>\<open>num_entries + 10\<close>.
\<close>

function insert_loop ::
    "nat \<Rightarrow> nat \<Rightarrow> nat \<Rightarrow> bool \<Rightarrow> mii_macaddr_hash_table_entry_t \<Rightarrow> mii_macaddr_hash_table_t \<Rightarrow>
     bool \<times> mii_macaddr_hash_table_t" where
  "insert_loop limit count hashtype set_not_or current t =
     (let index = slot t hashtype (he_id0 current, he_id1 current);
          old = ht_entries t ! index;
          (conflict, empty) = contains_different_entry t index current
      in if \<not> conflict
         then (True, put_entry t index
                 (current\<lparr>he_result := (if set_not_or \<or> empty then he_result current
                                       else he_result old OR he_result current)\<rparr>))
         else (let (t', current', set_not_or') =
                     (if count = 0 then (t, current, set_not_or)
                      else (put_entry t index current, old, True))
               in if count + 1 < limit
                  then insert_loop limit (count + 1) (1 - hashtype) set_not_or' current' t'
                  else (False, t')))"
  by pat_completeness auto
termination by (relation "measure (\<lambda>(limit, count, _). limit - count)") auto

declare insert_loop.simps [simp del]

definition insert_entry ::
    "mii_macaddr_hash_table_t \<Rightarrow> u32 \<Rightarrow> u32 \<Rightarrow> u32 \<Rightarrow> bool \<Rightarrow> u32 \<Rightarrow> bool \<times> mii_macaddr_hash_table_t" where
  "insert_entry t key0 key1 result set_not_or appdata =
     (let (success, t) = insert_loop (unat (ht_num_entries t + 10)) 0 0 set_not_or
            \<lparr>he_id0 = key0, he_id1 = key1, he_result = result, he_appdata = appdata\<rparr> t
      in (success, if success then t\<lparr>ht_num_entries := ht_num_entries t + 1\<rparr> else t))"

text \<open>
  Rehashing. The backup table is emptied once; each attempt changes both polynomials and inserts
  the used entries of the active table in order, stopping at the first that fails.
\<close>

abbreviation LCG_A :: u32 where "LCG_A \<equiv> 1664525"
abbreviation LCG_C :: u32 where "LCG_C \<equiv> 1013904223"

primrec refill_entries ::
    "mii_macaddr_hash_table_entry_t list \<Rightarrow> mii_macaddr_hash_table_t \<Rightarrow> bool \<times> mii_macaddr_hash_table_t" where
  "refill_entries [] t = (True, t)"
| "refill_entries (e # es) t =
     (if he_used e
      then (let (success, t) = insert_entry t (he_id0 e) (he_id1 e) (he_result e) True (he_appdata e)
            in if success then refill_entries es t else (False, t))
      else refill_entries es t)"

definition change_polys :: "mii_macaddr_hash_table_t \<Rightarrow> mii_macaddr_hash_table_t" where
  "change_polys t = t\<lparr>ht_polys := map (\<lambda>p. LCG_A * p + LCG_C) (ht_polys t)\<rparr>"

partial_function (option) refill_loop ::
    "mii_macaddr_hash_table_t \<Rightarrow> mii_macaddr_hash_table_t \<Rightarrow> mii_macaddr_hash_table_t option" where
  "refill_loop active t =
     (let (success, t) = refill_entries (ht_entries active) (change_polys t)
      in if success then Some t else refill_loop active t)"

declare refill_loop.simps [code]

definition refill_backup_table :: "hash_state \<Rightarrow> hash_state option" where
  "refill_backup_table s =
     map_option (\<lambda>t. s\<lparr>hs_backup := t\<rparr>)
       (refill_loop (hs_table s) ((hs_backup s)\<lparr>ht_num_entries := 0,
          ht_entries := map clear_entry (ht_entries (hs_backup s))\<rparr>))"

text \<open>
  Swapping. After the flip the server waits for the active filter threads to take the new table,
  with at most 100 polls each; \<open>taken i n\<close> says whether thread \<open>i\<close> has by poll \<open>n\<close>. It gives up the
  waiting altogether when one thread exhausts its polls.
\<close>

primrec poll_filter :: "(nat \<Rightarrow> bool) \<Rightarrow> nat \<Rightarrow> nat \<Rightarrow> bool \<times> nat" where
  "poll_filter taken n 0 = (\<not> taken n, 0)"
| "poll_filter taken n (Suc retries) =
     (if \<not> taken n then poll_filter taken (n + 1) retries else (False, Suc retries))"

primrec wait_filters :: "(nat \<Rightarrow> nat \<Rightarrow> bool) \<Rightarrow> nat \<Rightarrow> bool list \<Rightarrow> bool list" where
  "wait_filters taken i [] = []"
| "wait_filters taken i (w # ws) =
     (if \<not> w then w # wait_filters taken (i + 1) ws
      else (let (w, retries) = poll_filter (taken i) 0 100
            in if retries = 0 then w # ws else w # wait_filters taken (i + 1) ws))"

definition swap_tables :: "(nat \<Rightarrow> nat \<Rightarrow> bool) \<Rightarrow> bool \<Rightarrow> hash_state \<Rightarrow> hash_state" where
  "swap_tables taken do_memcpy s =
     (let old_table = hs_table s;
          s = s\<lparr>hs_table := hs_backup s\<rparr>;
          s = s\<lparr>hs_waiting := map2 (\<lambda>act w. act \<or> w) (hs_filter_active s) (hs_waiting s)\<rparr>;
          s = s\<lparr>hs_backup := old_table\<rparr>;
          s = s\<lparr>hs_waiting := wait_filters taken 0 (hs_waiting s)\<rparr>
      in if do_memcpy then s\<lparr>hs_backup := hs_table s\<rparr> else s)"

text \<open>
  Adding an address. The loop is \<^verbatim>\<open>while (!success)\<close>; an insertion that fails leaves the backup
  table to be refilled, and from then on the tables are kept equal by copying.
\<close>

definition insert_backup :: "u32 \<times> u32 \<Rightarrow> u32 \<Rightarrow> u32 \<Rightarrow> hash_state \<Rightarrow> bool \<times> hash_state" where
  "insert_backup key result appdata s =
     (let (success, t) = insert_entry (hs_backup s) (fst key) (snd key) result False appdata
      in (success, s\<lparr>hs_backup := t\<rparr>))"

partial_function (option) add_loop ::
    "(nat \<Rightarrow> nat \<Rightarrow> bool) \<Rightarrow> u32 \<times> u32 \<Rightarrow> u32 \<Rightarrow> u32 \<Rightarrow> bool \<Rightarrow> hash_state \<Rightarrow> (bool \<times> hash_state) option" where
  "add_loop taken key result appdata do_memcpy s =
     (let (success, s) = insert_backup key result appdata s
      in if success then Some (do_memcpy, swap_tables taken do_memcpy s)
         else Option.bind (refill_backup_table s) (\<lambda>s. add_loop taken key result appdata True s))"

declare add_loop.simps [code]

definition mii_macaddr_hash_table_add_entry ::
    "(nat \<Rightarrow> nat \<Rightarrow> bool) \<Rightarrow> u32 \<Rightarrow> u32 \<Rightarrow> ethernet_macaddr_filter_t \<Rightarrow> hash_state \<Rightarrow>
     (ethernet_macaddr_filter_result_t \<times> hash_state) option" where
  "mii_macaddr_hash_table_add_entry taken client_num is_hp entry s =
     (let key = entry_to_keys entry;
          result = ethernet_filter_result_set_hp (client_bit client_num) is_hp
      in case add_loop taken key result (mf_appdata entry) False s of
           None \<Rightarrow> None
         | Some (do_memcpy, s) \<Rightarrow>
             Some (ETHERNET_MACADDR_FILTER_SUCCESS,
                   if do_memcpy then s else snd (insert_backup key result (mf_appdata entry) s)))"

text \<open>Deleting a client from an address, in the backup table; the result says whether it changed.\<close>

definition delete_entry :: "u32 \<Rightarrow> u32 \<Rightarrow> ethernet_macaddr_filter_t \<Rightarrow> hash_state \<Rightarrow> bool \<times> hash_state" where
  "delete_entry client_num is_hp entry s =
     (let key = entry_to_keys entry; t = hs_backup s
      in if fst key = 0 \<and> snd key = 0 then (False, s)
         else (let x = slot t 0 key;
                   x = (if fst key \<noteq> he_id0 (ht_entries t ! x) \<or> snd key \<noteq> he_id1 (ht_entries t ! x)
                        then slot (hs_table s) 1 key else x);
                   e = ht_entries t ! x
               in if fst key \<noteq> he_id0 e \<or> snd key \<noteq> he_id1 e then (False, s)
                  else if ethernet_filter_result_is_hp (he_result e) \<noteq> is_hp then (False, s)
                  else (True, s\<lparr>hs_backup := put_entry t x
                         (e\<lparr>he_result := drop_client client_num is_hp (he_result e)\<rparr>)\<rparr>)))"

definition mii_macaddr_hash_table_delete_entry ::
    "(nat \<Rightarrow> nat \<Rightarrow> bool) \<Rightarrow> u32 \<Rightarrow> u32 \<Rightarrow> ethernet_macaddr_filter_t \<Rightarrow> hash_state \<Rightarrow> hash_state" where
  "mii_macaddr_hash_table_delete_entry taken client_num is_hp entry s =
     (let (deleted, s) = delete_entry client_num is_hp entry s
      in if deleted then snd (delete_entry client_num is_hp entry (swap_tables taken False s)) else s)"

definition mii_macaddr_hash_table_clear :: "(nat \<Rightarrow> nat \<Rightarrow> bool) \<Rightarrow> hash_state \<Rightarrow> hash_state" where
  "mii_macaddr_hash_table_clear taken s =
     (let s = swap_tables taken False (s\<lparr>hs_backup := clear_table (hs_backup s)\<rparr>)
      in s\<lparr>hs_backup := clear_table (hs_backup s)\<rparr>)"

section \<open>The table as a map\<close>

text \<open>The entry of an address: the slot that holds its key.\<close>

definition key_at :: "mii_macaddr_hash_table_t \<Rightarrow> u32 \<times> u32 \<Rightarrow> nat \<Rightarrow> bool" where
  "key_at t key s \<longleftrightarrow> s < MII_MACADDR_HASH_TABLE_SIZE \<and> key \<noteq> (0, 0) \<and> he_key (ht_entries t ! s) = key"

definition hash_entries :: "mii_macaddr_hash_table_t \<Rightarrow> u32 \<times> u32 \<Rightarrow> (u32 \<times> u32) option" where
  "hash_entries t key =
     (if key = (0, 0) then None
      else map_option (\<lambda>e. (he_result e, he_appdata e)) (find (\<lambda>e. he_key e = key) (ht_entries t)))"

text \<open>
  The invariant. Every key is in one of its two slots and in no other; a key is in its second
  slot only when its first is taken (so that an insertion, which tries the first slot first,
  finds it).
\<close>

definition ht_shape :: "mii_macaddr_hash_table_t \<Rightarrow> bool" where
  "ht_shape t \<longleftrightarrow> length (ht_entries t) = MII_MACADDR_HASH_TABLE_SIZE \<and> length (ht_polys t) = 2"

definition slot_used :: "mii_macaddr_hash_table_t \<Rightarrow> nat \<Rightarrow> bool" where
  "slot_used t s \<longleftrightarrow> he_used (ht_entries t ! s)"

definition ht_ok :: "mii_macaddr_hash_table_t \<Rightarrow> bool" where
  "ht_ok t \<longleftrightarrow> ht_shape t \<and>
     (\<forall>key s. key_at t key s \<longrightarrow> s = slot t 0 key \<or> s = slot t 1 key \<and> slot_used t (slot t 0 key)) \<and>
     (\<forall>key s s'. key_at t key s \<longrightarrow> key_at t key s' \<longrightarrow> s = s')"

lemma slot_less [simp]: "slot t h key < 256"
proof -
  have "(of_nat MII_MACADDR_HASH_TABLE_SIZE - 1 :: u32) = mask 8" by (simp add: mask_eq_exp_minus_1)
  then have "slot t h key = unat (take_bit 8 (crc32 (crc32 (fst key) (snd key) (ht_polys t ! h)) 0 (ht_polys t ! h)))"
    by (simp add: slot_def hash_def Let_def take_bit_eq_mask)
  also have "\<dots> < 2 ^ 8" by (simp only: unsigned_take_bit_eq) (simp add: take_bit_eq_mod)
  finally show ?thesis by simp
qed

lemma slot_put [simp]: "slot (put_entry t s e) h key = slot t h key"
  by (simp add: slot_def put_entry_def)

lemma polys_put [simp]: "ht_polys (put_entry t s e) = ht_polys t"
  "ht_num_entries (put_entry t s e) = ht_num_entries t"
  by (simp_all add: put_entry_def)

lemma entry_put:
  "ht_shape t \<Longrightarrow> s < 256 \<Longrightarrow> ht_entries (put_entry t s e) ! s' = (if s' = s then e else ht_entries t ! s')"
  by (simp add: ht_shape_def put_entry_def nth_list_update)

lemma he_used_key: "he_used e \<longleftrightarrow> he_key e \<noteq> (0, 0)"
  by (simp add: he_used_def he_key_def)

lemma key_at_put:
  "ht_shape t \<Longrightarrow> s < 256 \<Longrightarrow>
   key_at (put_entry t s e) key s' \<longleftrightarrow> (if s' = s then key \<noteq> (0, 0) \<and> he_key e = key else key_at t key s')"
  by (auto simp: key_at_def entry_put)

lemma shape_put [simp]: "ht_shape (put_entry t s e) = ht_shape t"
  by (simp add: ht_shape_def put_entry_def)

lemma hash_entries_None:
  "ht_shape t \<Longrightarrow> hash_entries t key = None \<longleftrightarrow> (\<forall>s. \<not> key_at t key s)"
  by (auto simp: hash_entries_def key_at_def ht_shape_def find_None_iff in_set_conv_nth)

lemma hash_entries_at:
  assumes "ht_ok t" "key_at t key s"
  shows "hash_entries t key = Some (he_result (ht_entries t ! s), he_appdata (ht_entries t ! s))"
proof -
  have shape: "ht_shape t" using assms(1) by (simp add: ht_ok_def)
  have k: "key \<noteq> (0, 0)" using assms(2) by (simp add: key_at_def)
  have "find (\<lambda>e. he_key e = key) (ht_entries t) \<noteq> None"
    using assms(2) shape nth_mem [of s "ht_entries t"] unfolding find_None_iff key_at_def ht_shape_def
    by metis
  then obtain e where e: "find (\<lambda>e. he_key e = key) (ht_entries t) = Some e" by auto
  then obtain s' where "s' < 256" "e = ht_entries t ! s'" "he_key e = key"
    using shape by (auto simp: find_Some_iff ht_shape_def)
  then have "key_at t key s'" using k by (simp add: key_at_def)
  then have "s' = s" using assms unfolding ht_ok_def by blast
  then show ?thesis using e k \<open>e = ht_entries t ! s'\<close> by (simp add: hash_entries_def)
qed

lemma hash_entries_SomeE:
  assumes "ht_ok t" "hash_entries t key = Some rd"
  obtains s where "key_at t key s" "rd = (he_result (ht_entries t ! s), he_appdata (ht_entries t ! s))"
proof -
  have "ht_shape t" using assms(1) by (simp add: ht_ok_def)
  then obtain s where "key_at t key s" using hash_entries_None [of t key] assms(2) by auto
  moreover from this have "rd = (he_result (ht_entries t ! s), he_appdata (ht_entries t ! s))"
    using hash_entries_at [OF assms(1)] assms(2) by simp
  ultimately show ?thesis by (rule that)
qed

lemma ht_ok_place: "ht_ok t \<Longrightarrow> key_at t key s \<Longrightarrow> s = slot t 0 key \<or> s = slot t 1 key \<and> slot_used t (slot t 0 key)"
  unfolding ht_ok_def by blast

lemma ht_ok_unique: "ht_ok t \<Longrightarrow> key_at t key s \<Longrightarrow> key_at t key s' \<Longrightarrow> s = s'"
  unfolding ht_ok_def by blast

text \<open>
  Putting an entry into one of its two slots, in place of the entry there: the map loses the key
  that was in the slot and gains the new one.
\<close>

definition place_ok :: "mii_macaddr_hash_table_t \<Rightarrow> nat \<Rightarrow> u32 \<times> u32 \<Rightarrow> bool" where
  "place_ok t s key \<longleftrightarrow> key \<noteq> (0, 0) \<and>
     (s = slot t 0 key \<or> s = slot t 1 key \<and> slot_used t (slot t 0 key)) \<and>
     (\<forall>s'. key_at t key s' \<longrightarrow> s' = s)"

lemma put_ok:
  assumes ok: "ht_ok t" and key: "he_key e = key" and p: "place_ok t s key"
  shows "ht_ok (put_entry t s e)"
    "hash_entries (put_entry t s e) =
      (hash_entries t)(he_key (ht_entries t ! s) := None, key \<mapsto> (he_result e, he_appdata e))"
proof -
  have shape: "ht_shape t" using ok by (simp add: ht_ok_def)
  have s: "s < 256" using p by (auto simp: place_ok_def)
  note at = key_at_put [OF shape s]
  have mono: "slot_used t s' \<Longrightarrow> slot_used (put_entry t s e) s'" for s'
    using p key by (simp add: slot_used_def entry_put [OF shape s] he_used_key place_ok_def)
  show ok': "ht_ok (put_entry t s e)"
    unfolding ht_ok_def
  proof (intro conjI allI impI)
    show "ht_shape (put_entry t s e)" using shape by simp
  next
    fix k s'
    assume a: "key_at (put_entry t s e) k s'"
    show "s' = slot (put_entry t s e) 0 k \<or>
        s' = slot (put_entry t s e) 1 k \<and> slot_used (put_entry t s e) (slot (put_entry t s e) 0 k)"
    proof (cases "s' = s")
      case True
      then show ?thesis using a p key mono by (auto simp: at place_ok_def)
    next
      case False
      then have "key_at t k s'" using a by (simp add: at)
      then show ?thesis using ht_ok_place [OF ok] mono by fastforce
    qed
  next
    fix k s1 s2
    assume "key_at (put_entry t s e) k s1" "key_at (put_entry t s e) k s2"
    then show "s1 = s2"
      using ht_ok_unique [OF ok, of k s1 s2] p key by (auto simp: at place_ok_def split: if_splits)
  qed
  show "hash_entries (put_entry t s e) =
      (hash_entries t)(he_key (ht_entries t ! s) := None, key \<mapsto> (he_result e, he_appdata e))"
  proof
    fix k
    consider "k = key" | "k \<noteq> key" "k = he_key (ht_entries t ! s)" | "k \<noteq> key" "k \<noteq> he_key (ht_entries t ! s)" by blast
    then show "hash_entries (put_entry t s e) k =
        ((hash_entries t)(he_key (ht_entries t ! s) := None, key \<mapsto> (he_result e, he_appdata e))) k"
    proof cases
      case 1
      then have "key_at (put_entry t s e) k s" using key p by (simp add: at place_ok_def)
      then show ?thesis using hash_entries_at [OF ok'] 1 by (simp add: entry_put [OF shape s])
    next
      case 2
      have "\<not> key_at (put_entry t s e) k s'" for s'
      proof
        assume a: "key_at (put_entry t s e) k s'"
        then have "s' \<noteq> s" "key_at t k s'" using 2 key by (auto simp: at split: if_splits)
        moreover from this have "key_at t k s" using 2 s by (simp add: key_at_def)
        ultimately show False using ht_ok_unique [OF ok] by blast
      qed
      then show ?thesis using 2 hash_entries_None [of "put_entry t s e" k] shape by simp
    next
      case 3
      have same: "key_at (put_entry t s e) k s' \<longleftrightarrow> key_at t k s' \<and> s' \<noteq> s" for s'
        using 3 key by (auto simp: at)
      have "key_at t k s' \<Longrightarrow> s' \<noteq> s" for s' using 3 by (auto simp: key_at_def)
      then have "(\<forall>s'. \<not> key_at (put_entry t s e) k s') \<longleftrightarrow> (\<forall>s'. \<not> key_at t k s')" using same by blast
      then show ?thesis
      proof (cases "hash_entries t k")
        case None
        then show ?thesis using 3 same hash_entries_None [of t k] hash_entries_None [of "put_entry t s e" k] shape
          by simp
      next
        case (Some rd)
        obtain s' where s': "key_at t k s'" "rd = (he_result (ht_entries t ! s'), he_appdata (ht_entries t ! s'))"
          by (rule hash_entries_SomeE [OF ok Some])
        then have "s' \<noteq> s" using 3 by (auto simp: key_at_def)
        then show ?thesis
          using hash_entries_at [OF ok', of k s'] same s' 3 Some by (simp add: entry_put [OF shape s])
      qed
    qed
  qed
qed

section \<open>Insertion\<close>



lemma conflict_iff:
  "contains_different_entry t s e = (conflict, vacant) \<Longrightarrow>
   (vacant \<longleftrightarrow> \<not> slot_used t s) \<and> (conflict \<longleftrightarrow> slot_used t s \<and> he_key (ht_entries t ! s) \<noteq> he_key e)"
  by (auto simp: contains_different_entry_def Let_def slot_used_def he_used_def he_key_def)










section \<open>Lookup, clearing and rehashing\<close>

lemma hash_lookup_entries:
  assumes ok: "ht_ok t"
  shows "mii_macaddr_hash_lookup t key0 key1 appdata =
    (case hash_entries t (key0, key1) of None \<Rightarrow> (0, appdata) | Some (r, d) \<Rightarrow> (r, d))"
proof (cases "(key0, key1) = (0, 0)")
  case True
  then show ?thesis by (simp add: mii_macaddr_hash_lookup_def hash_entries_def)
next
  case False
  let ?k = "(key0, key1)"
  let ?x = "slot t 0 ?k" and ?y = "slot t 1 ?k"
  have eq: "(key0 = he_id0 e \<and> key1 = he_id1 e) = (he_key e = ?k)" for e by (auto simp: he_key_def)
  have at: "key_at t ?k s \<longleftrightarrow> s < 256 \<and> he_key (ht_entries t ! s) = ?k" for s
    using False by (auto simp: key_at_def)
  consider "key_at t ?k ?y" | "\<not> key_at t ?k ?y" "key_at t ?k ?x" | "\<not> key_at t ?k ?y" "\<not> key_at t ?k ?x" by blast
  then show ?thesis
  proof cases
    case 1
    then show ?thesis
      using False hash_entries_at [OF ok 1] by (auto simp: mii_macaddr_hash_lookup_def Let_def eq at)
  next
    case 2
    then show ?thesis
      using False hash_entries_at [OF ok 2(2)] by (auto simp: mii_macaddr_hash_lookup_def Let_def eq at)
  next
    case 3
    then have "\<not> key_at t ?k s" for s using ht_ok_place [OF ok, of ?k s] by blast
    then have "hash_entries t ?k = None" using ok hash_entries_None [of t ?k] by (simp add: ht_ok_def)
    then show ?thesis using False 3 by (auto simp: mii_macaddr_hash_lookup_def Let_def eq at)
  qed
qed

lemma cleared_ok:
  assumes "length es = 256" "length ps = 2"
  shows "ht_ok \<lparr>ht_polys = ps, ht_num_entries = n, ht_entries = map clear_entry es\<rparr>"
    "hash_entries \<lparr>ht_polys = ps, ht_num_entries = n, ht_entries = map clear_entry es\<rparr> = Map.empty"
proof -
  have none: "\<not> key_at \<lparr>ht_polys = ps, ht_num_entries = n, ht_entries = map clear_entry es\<rparr> k s" for k s
    using assms by (auto simp: key_at_def he_key_def clear_entry_def)
  then show ok: "ht_ok \<lparr>ht_polys = ps, ht_num_entries = n, ht_entries = map clear_entry es\<rparr>"
    using assms by (simp add: ht_ok_def ht_shape_def)
  show "hash_entries \<lparr>ht_polys = ps, ht_num_entries = n, ht_entries = map clear_entry es\<rparr> = Map.empty"
    using none hash_entries_None ok unfolding ht_ok_def by blast
qed

lemma clear_table_ok:
  assumes "ht_shape t"
  shows "ht_ok (clear_table t)" "hash_entries (clear_table t) = Map.empty"
  using assms cleared_ok [of "ht_entries t" "[0xedb88320, 0xba75fe21]" 0]
  by (cases t, simp add: clear_table_def ht_shape_def)+





text \<open>One attempt at rehashing into an emptied table.\<close>

definition emptied :: "mii_macaddr_hash_table_t \<Rightarrow> mii_macaddr_hash_table_t" where
  "emptied t = t\<lparr>ht_num_entries := 0, ht_entries := map clear_entry (ht_entries t)\<rparr>"


section \<open>The filter: two tables in step\<close>

text \<open>Between operations both tables are equal and satisfy the invariant.\<close>

definition hs_ok :: "hash_state \<Rightarrow> bool" where
  "hs_ok s \<longleftrightarrow> ht_ok (hs_table s) \<and> hs_backup s = hs_table s"

text \<open>What the filter threads see.\<close>

definition hs_map :: "hash_state \<Rightarrow> u32 \<times> u32 \<Rightarrow> (u32 \<times> u32) option" where
  "hs_map s = hash_entries (hs_table s)"

lemma swap_tables_fields [simp]:
  "hs_table (swap_tables taken c s) = hs_backup s"
  "hs_backup (swap_tables taken c s) = (if c then hs_backup s else hs_table s)"
  by (simp_all add: swap_tables_def Let_def)


lemma insert_loop_shape: "ht_shape (snd (insert_loop limit count h sno e t)) = ht_shape t"
proof (induction "limit - count" arbitrary: count h sno e t rule: less_induct)
  case less
  have "count + 1 < limit \<Longrightarrow> limit - (count + 1) < limit - count" by simp
  note IH = less.hyps [OF this]
  show ?case
    using IH by (subst insert_loop.simps) (cases "count = 0", simp_all add: Let_def split: prod.splits)
qed

lemma insert_entry_shape: "ht_shape (snd (insert_entry t k0 k1 r sno d)) = ht_shape t"
  using insert_loop_shape [of "unat (ht_num_entries t + 10)" 0 0 sno
      "\<lparr>he_id0 = k0, he_id1 = k1, he_result = r, he_appdata = d\<rparr>" t]
  by (auto simp: insert_entry_def Let_def ht_shape_def split: prod.splits)


text \<open>Deleting: the client bit goes from the entry, whose slot stays taken.\<close>

lemma delete_entry_cases:
  assumes ok: "ht_ok t" and b: "hs_backup s = t" and polys: "ht_polys (hs_table s) = ht_polys t"
  shows "case hash_entries t (entry_to_keys entry) of
      None \<Rightarrow> delete_entry client_num is_hp entry s = (False, s)
    | Some (r, d) \<Rightarrow>
        if ethernet_filter_result_is_hp r \<noteq> is_hp then delete_entry client_num is_hp entry s = (False, s)
        else \<exists>t'. delete_entry client_num is_hp entry s = (True, s\<lparr>hs_backup := t'\<rparr>) \<and> ht_ok t' \<and>
          ht_polys t' = ht_polys t \<and>
          hash_entries t' = (hash_entries t)(entry_to_keys entry \<mapsto> (drop_client client_num is_hp r, d))"
proof -
  let ?k = "entry_to_keys entry"
  have shape: "ht_shape t" using ok by (simp add: ht_ok_def)
  have y: "slot (hs_table s) 1 ?k = slot t 1 ?k" using polys by (simp add: slot_def)
  have ne: "(fst ?k \<noteq> he_id0 e \<or> snd ?k \<noteq> he_id1 e) = (he_key e \<noteq> ?k)" for e by (cases ?k) (auto simp: he_key_def)
  have z: "(fst ?k = 0 \<and> snd ?k = 0) = (?k = (0, 0))" by (cases ?k) simp
  define x where "x = (if he_key (ht_entries t ! slot t 0 ?k) \<noteq> ?k then slot t 1 ?k else slot t 0 ?k)"
  have del: "delete_entry client_num is_hp entry s =
      (if ?k = (0, 0) then (False, s)
       else if he_key (ht_entries t ! x) \<noteq> ?k then (False, s)
       else if ethernet_filter_result_is_hp (he_result (ht_entries t ! x)) \<noteq> is_hp then (False, s)
       else (True, s\<lparr>hs_backup := put_entry t x ((ht_entries t ! x)\<lparr>he_result :=
              drop_client client_num is_hp (he_result (ht_entries t ! x))\<rparr>)\<rparr>))"
    unfolding delete_entry_def Let_def b ne z x_def y by (rule refl)
  have x: "x < 256" by (simp add: x_def)
  have found: "key_at t ?k s' \<Longrightarrow> s' = x" for s'
    using ht_ok_place [OF ok, of ?k s'] ht_ok_unique [OF ok, of ?k s' "slot t 0 ?k"]
    by (auto simp: x_def key_at_def)
  show ?thesis
  proof (cases "hash_entries t ?k")
    case None
    then have "?k = (0, 0) \<or> he_key (ht_entries t ! x) \<noteq> ?k"
      using hash_entries_None [OF shape, of ?k] x by (auto simp: key_at_def)
    then show ?thesis using None del by auto
  next
    case (Some rd)
    obtain s' where s': "key_at t ?k s'" "rd = (he_result (ht_entries t ! s'), he_appdata (ht_entries t ! s'))"
      by (rule hash_entries_SomeE [OF ok Some])
    then have at: "key_at t ?k x" "rd = (he_result (ht_entries t ! x), he_appdata (ht_entries t ! x))"
      using found by auto
    let ?e = "(ht_entries t ! x)\<lparr>he_result := drop_client client_num is_hp (he_result (ht_entries t ! x))\<rparr>"
    have key: "he_key ?e = ?k" using at(1) by (simp add: he_key_def key_at_def)
    have "place_ok t x ?k"
      using at(1) found ht_ok_place [OF ok at(1)] by (auto simp: place_ok_def key_at_def)
    from put_ok [OF ok key this]
    have put: "ht_ok (put_entry t x ?e)"
      "hash_entries (put_entry t x ?e) = (hash_entries t)(?k \<mapsto> (he_result ?e, he_appdata ?e))"
      using at(1) by (simp_all add: key_at_def)
    have "?k \<noteq> (0, 0)" "he_key (ht_entries t ! x) = ?k" using at(1) by (simp_all add: key_at_def)
    then show ?thesis
      using Some at(2) del put
      by (auto split: if_splits intro!: exI [of _ "put_entry t x ?e"])
  qed
qed

lemma delete_entry_again:
  assumes "delete_entry client_num is_hp entry s = (True, s\<lparr>hs_backup := t\<rparr>)"
    "hs_backup s' = hs_backup s" "ht_polys (hs_table s') = ht_polys (hs_table s)"
  shows "delete_entry client_num is_hp entry s' = (True, s'\<lparr>hs_backup := t\<rparr>)"
proof -
  have "slot (hs_table s') 1 k = slot (hs_table s) 1 k" for k using assms(3) by (simp add: slot_def)
  moreover have "s\<lparr>hs_backup := u\<rparr> = s\<lparr>hs_backup := t\<rparr> \<longleftrightarrow> u = t" for u by (cases s) auto
  ultimately show ?thesis using assms(1,2) by (auto simp: delete_entry_def Let_def split: if_splits)
qed

lemma delete_entry_map:
  assumes ok: "hs_ok s"
  shows "hs_ok (mii_macaddr_hash_table_delete_entry taken client_num is_hp entry s)"
    "hs_map (mii_macaddr_hash_table_delete_entry taken client_num is_hp entry s) =
      (case hs_map s (entry_to_keys entry) of
         None \<Rightarrow> hs_map s
       | Some (r, d) \<Rightarrow> if ethernet_filter_result_is_hp r \<noteq> is_hp then hs_map s
           else (hs_map s)(entry_to_keys entry \<mapsto> (drop_client client_num is_hp r, d)))"
proof -
  let ?t = "hs_table s" and ?k = "entry_to_keys entry"
  let ?del = "mii_macaddr_hash_table_delete_entry taken client_num is_hp entry s"
  have t: "ht_ok ?t" "hs_backup s = ?t" using ok by (simp_all add: hs_ok_def)
  note first = delete_entry_cases [OF t refl, where entry = entry and client_num = client_num and is_hp = is_hp]
  have "hs_ok ?del \<and> hs_map ?del = (case hs_map s ?k of None \<Rightarrow> hs_map s
       | Some (r, d) \<Rightarrow> if ethernet_filter_result_is_hp r \<noteq> is_hp then hs_map s
           else (hs_map s)(?k \<mapsto> (drop_client client_num is_hp r, d)))"
  proof (cases "delete_entry client_num is_hp entry s")
    case (Pair deleted s1)
    show ?thesis
    proof (cases deleted)
      case False
      then have "?del = s"
        using first Pair by (auto simp: mii_macaddr_hash_table_delete_entry_def split: option.splits if_splits)
      then show ?thesis
        using first Pair False ok by (auto simp: hs_map_def split: option.splits if_splits)
    next
      case True
      then obtain r d t' where e: "hash_entries ?t ?k = Some (r, d)" "ethernet_filter_result_is_hp r = is_hp"
        and s1: "s1 = s\<lparr>hs_backup := t'\<rparr>" and t': "ht_ok t'" "ht_polys t' = ht_polys ?t"
          "hash_entries t' = (hash_entries ?t)(?k \<mapsto> (drop_client client_num is_hp r, d))"
        using first Pair by (auto split: option.splits if_splits prod.splits)
      let ?s2 = "swap_tables taken False s1"
      have "delete_entry client_num is_hp entry ?s2 = (True, ?s2\<lparr>hs_backup := t'\<rparr>)"
        by (rule delete_entry_again) (use Pair True s1 t t'(2) in simp_all)
      then have "?del = ?s2\<lparr>hs_backup := t'\<rparr>"
        using Pair True by (simp add: mii_macaddr_hash_table_delete_entry_def Let_def)
      then show ?thesis using s1 t' e by (simp add: hs_ok_def hs_map_def)
    qed
  qed
  then show "hs_ok ?del" "hs_map ?del = (case hs_map s ?k of None \<Rightarrow> hs_map s
       | Some (r, d) \<Rightarrow> if ethernet_filter_result_is_hp r \<noteq> is_hp then hs_map s
           else (hs_map s)(?k \<mapsto> (drop_client client_num is_hp r, d)))"
    by simp_all
qed

section \<open>A full table\<close>

definition used_keys :: "mii_macaddr_hash_table_t \<Rightarrow> (u32 \<times> u32) set" where
  "used_keys t = {k. k \<noteq> (0, 0) \<and> k \<in> he_key ` set (ht_entries t)}"

lemma used_keys_put:
  assumes "ht_shape t" "s < 256" "he_used e"
  shows "used_keys t \<union> {he_key e} \<subseteq> used_keys (put_entry t s e) \<union> {he_key (ht_entries t ! s)} \<union> {he_key e}"
    "he_key e \<in> used_keys (put_entry t s e)"
proof -
  have len: "length (ht_entries t) = 256" using assms(1) by (simp add: ht_shape_def)
  have e: "e \<in> set (ht_entries (put_entry t s e))"
    using assms(2) len by (simp add: put_entry_def set_update_memI)
  then show "he_key e \<in> used_keys (put_entry t s e)" using assms(3) by (auto simp: used_keys_def he_used_key)
  have "k \<in> used_keys (put_entry t s e) \<union> {he_key (ht_entries t ! s)}" if k: "k \<in> used_keys t" for k
  proof -
    obtain i where i: "i < 256" "he_key (ht_entries t ! i) = k" "k \<noteq> (0, 0)"
      using k len by (auto simp: used_keys_def in_set_conv_nth)
    show ?thesis
    proof (cases "i = s")
      case False
      then have "ht_entries (put_entry t s e) ! i = ht_entries t ! i" using entry_put [OF assms(1,2)] by simp
      moreover have "i < length (ht_entries (put_entry t s e))" using i len by (simp add: put_entry_def)
      ultimately have "ht_entries t ! i \<in> set (ht_entries (put_entry t s e))" by (metis nth_mem)
      then show ?thesis using i by (auto simp: used_keys_def)
    qed (use i in simp)
  qed
  then show "used_keys t \<union> {he_key e} \<subseteq> used_keys (put_entry t s e) \<union> {he_key (ht_entries t ! s)} \<union> {he_key e}"
    by auto
qed

text \<open>A successful insertion loses no key, whatever the table.\<close>

lemma insert_loop_keys:
  assumes "ht_shape t" "he_used e" "insert_loop limit count h sno e t = (True, t')"
  shows "used_keys t \<union> {he_key e} \<subseteq> used_keys t'"
  using assms
proof (induction "limit - count" arbitrary: count h sno e t rule: less_induct)
  case less
  let ?s = "slot t h (he_key e)"
  have key: "slot t h (he_id0 e, he_id1 e) = ?s" by (simp add: he_key_def)
  obtain conflict vacant where c: "contains_different_entry t ?s e = (conflict, vacant)" by fastforce
  show ?case
  proof (cases conflict)
    case False
    let ?e = "e\<lparr>he_result := (if sno \<or> vacant then he_result e else he_result (ht_entries t ! ?s) OR he_result e)\<rparr>"
    have t': "t' = put_entry t ?s ?e"
      using less.prems(3) False c by (subst (asm) insert_loop.simps) (simp add: Let_def key)
    have "he_used ?e" "he_key ?e = he_key e" using less.prems(2) by (simp_all add: he_used_def he_key_def)
    note put = used_keys_put [OF less.prems(1) slot_less [of t h "he_key e"] this(1), unfolded this(2)]
    have "he_key (ht_entries t ! ?s) = (0, 0) \<or> he_key (ht_entries t ! ?s) = he_key e"
      using conflict_iff [OF c] False by (auto simp: slot_used_def he_used_key)
    moreover have "(0, 0) \<notin> used_keys t" by (simp add: used_keys_def)
    ultimately show ?thesis unfolding t' using put by auto
  next
    case True
    let ?t = "if count = 0 then t else put_entry t ?s e" and ?e = "if count = 0 then e else ht_entries t ! ?s"
    have used: "he_used ?e" using True conflict_iff [OF c] less.prems(2) by (simp add: slot_used_def)
    have run: "count + 1 < limit \<and>
        insert_loop limit (count + 1) (1 - h) (if count = 0 then sno else True) ?e ?t = (True, t')"
      using less.prems(3) True c by (subst (asm) insert_loop.simps) (simp add: Let_def key split: if_splits)
    have "used_keys ?t \<union> {he_key ?e} \<subseteq> used_keys t'"
      using less.hyps [OF _ _ used conjunct2 [OF run]] conjunct1 [OF run] less.prems(1) by simp
    then show ?thesis
      using used_keys_put [OF less.prems(1) slot_less [of t h "he_key e"] less.prems(2)]
      by (cases "count = 0") (simp_all, blast)
  qed
qed

lemma insert_entry_keys:
  assumes "ht_shape t" "(key0, key1) \<noteq> (0, 0)" "insert_entry t key0 key1 r sno d = (True, t')"
  shows "insert (key0, key1) (used_keys t) \<subseteq> used_keys t'" "ht_shape t'"
proof -
  let ?e = "\<lparr>he_id0 = key0, he_id1 = key1, he_result = r, he_appdata = d\<rparr>"
  obtain u where u: "insert_loop (unat (ht_num_entries t + 10)) 0 0 sno ?e t = (True, u)"
    and t': "t' = u\<lparr>ht_num_entries := ht_num_entries u + 1\<rparr>"
    using assms(3) by (auto simp: insert_entry_def Let_def split: prod.splits if_splits)
  have "he_used ?e" using assms(2) by (auto simp: he_used_def)
  from insert_loop_keys [OF assms(1) this u] show "insert (key0, key1) (used_keys t) \<subseteq> used_keys t'"
    by (auto simp: t' used_keys_def he_key_def)
  show "ht_shape t'" using insert_entry_shape [of t key0 key1 r sno d] assms(1,3) by simp
qed

lemma refill_entries_keys:
  "ht_shape t \<Longrightarrow> refill_entries es t = (True, t') \<Longrightarrow>
   used_keys t \<union> {k. k \<noteq> (0, 0) \<and> k \<in> he_key ` set es} \<subseteq> used_keys t' \<and> ht_shape t'"
proof (induction es arbitrary: t)
  case Nil
  then show ?case by auto
next
  case (Cons e es)
  show ?case
  proof (cases "he_used e")
    case False
    then show ?thesis using Cons by (auto simp: he_used_key)
  next
    case True
    obtain ok u where u: "insert_entry t (he_id0 e) (he_id1 e) (he_result e) True (he_appdata e) = (ok, u)" by fastforce
    with Cons.prems(2) True have run: "ok" "refill_entries es u = (True, t')" by (auto simp: Let_def split: if_splits)
    have "(he_id0 e, he_id1 e) \<noteq> (0, 0)" using True by (auto simp: he_used_def)
    note ins = insert_entry_keys [OF Cons.prems(1) this, of "he_result e" True "he_appdata e" u]
    have "insert (he_key e) (used_keys t) \<subseteq> used_keys u" "ht_shape u" using ins u run(1) by (simp_all add: he_key_def)
    then show ?thesis using Cons.IH [OF _ run(2)] by auto
  qed
qed

lemma change_polys_shape [simp]: "ht_shape (change_polys t) = ht_shape t"
  by (simp add: change_polys_def ht_shape_def)

lemma refill_entries_shape: "ht_shape (snd (refill_entries es t)) = ht_shape t"
proof (induction es arbitrary: t)
  case (Cons e es)
  obtain ok u where u: "insert_entry t (he_id0 e) (he_id1 e) (he_result e) True (he_appdata e) = (ok, u)" by fastforce
  then have "ht_shape u = ht_shape t"
    using insert_entry_shape [of t "he_id0 e" "he_id1 e" "he_result e" True "he_appdata e"] by simp
  then show ?case using u Cons by simp
qed simp

lemma refill_loop_keys:
  assumes "refill_loop active t = Some u"
  shows "ht_shape t \<longrightarrow> used_keys active \<subseteq> used_keys u \<and> ht_shape u"
  using assms
proof (induction rule: refill_loop.raw_induct [rotated, consumes 1])
  case (1 loop active t u)
  obtain ok v where v: "refill_entries (ht_entries active) (change_polys t) = (ok, v)" by fastforce
  show "ht_shape t \<longrightarrow> used_keys active \<subseteq> used_keys u \<and> ht_shape u"
  proof (intro impI)
    assume shape: "ht_shape t"
    show "used_keys active \<subseteq> used_keys u \<and> ht_shape u"
    proof (cases ok)
      case True
      then have "u = v" using 1(2) v by simp
      then show ?thesis
        using refill_entries_keys [of "change_polys t" "ht_entries active" v] v True shape by (auto simp: used_keys_def)
    next
      case False
      then have "loop active v = Some u" using 1(2) v by simp
      moreover have "ht_shape v" using refill_entries_shape [of "ht_entries active" "change_polys t"] v shape by simp
      ultimately show ?thesis using 1(1) by blast
    qed
  qed
qed

lemma full_insert_fails:
  assumes shape: "ht_shape t" and S: "S \<subseteq> used_keys t" "card S = 256" and key: "key \<notin> S" "key \<noteq> (0, 0)"
  shows "\<not> fst (insert_entry t (fst key) (snd key) r sno d)"
proof
  assume "fst (insert_entry t (fst key) (snd key) r sno d)"
  then obtain t' where run: "insert_entry t (fst key) (snd key) r sno d = (True, t')" by (metis prod.collapse)
  have "(fst key, snd key) \<noteq> (0, 0)" using key by simp
  note ins = insert_entry_keys [OF shape this run]
  have "finite S" using S(2) card.infinite by fastforce
  then have "card (insert key S) = 257" using S(2) key(1) by simp
  moreover have "insert key S \<subseteq> used_keys t'" using ins(1) S(1) by auto
  moreover have "used_keys t' \<subseteq> he_key ` set (ht_entries t')" by (auto simp: used_keys_def)
  ultimately have "257 \<le> card (he_key ` set (ht_entries t'))"
    using card_mono [of "he_key ` set (ht_entries t')" "insert key S"] by auto
  also have "\<dots> \<le> length (ht_entries t')" by (meson card_image_le card_length finite_set le_trans)
  finally show False using ins(2) by (simp add: ht_shape_def)
qed

lemma add_loop_full:
  assumes "add_loop taken key r d c s = Some res"
  shows "\<not> (ht_shape (hs_backup s) \<and> S \<subseteq> used_keys (hs_table s) \<and> S \<subseteq> used_keys (hs_backup s) \<and>
    card S = 256 \<and> key \<notin> S \<and> key \<noteq> (0, 0))"
  using assms
proof (induction rule: add_loop.raw_induct [rotated, consumes 1])
  case (1 loop taken key r d c s res)
  show ?case
  proof
    assume h: "ht_shape (hs_backup s) \<and> S \<subseteq> used_keys (hs_table s) \<and> S \<subseteq> used_keys (hs_backup s) \<and>
      card S = 256 \<and> key \<notin> S \<and> key \<noteq> (0, 0)"
    obtain ok t where t: "insert_entry (hs_backup s) (fst key) (snd key) r False d = (ok, t)" by fastforce
    have "\<not> ok" using full_insert_fails [of "hs_backup s" S key r False d] h t by simp
    then obtain s' where s': "refill_backup_table (s\<lparr>hs_backup := t\<rparr>) = Some s'" "loop taken key r d True s' = Some res"
      using 1(2) t by (auto simp: insert_backup_def bind_eq_Some_conv)
    then obtain u where u: "refill_loop (hs_table s) (emptied t) = Some u" "s' = s\<lparr>hs_backup := u\<rparr>"
      by (auto simp: refill_backup_table_def emptied_def)
    have "ht_shape t" using insert_entry_shape [of "hs_backup s" "fst key" "snd key" r False d] t h by simp
    then have "ht_shape (emptied t)" by (simp add: ht_shape_def emptied_def)
    then have "used_keys (hs_table s) \<subseteq> used_keys u" "ht_shape u" using refill_loop_keys [OF u(1)] by auto
    then show False using 1(1) [OF s'(2)] h u(2) by auto
  qed
qed

section \<open>Properties of the filter\<close>

text \<open>
  C19. A lookup, which always probes both slots of an address, returns the client bits and the
  user data of the entry of that address, and 0 with the user data unchanged when there is none.
\<close>

theorem mii_macaddr_hash_lookup_spec:
  assumes "ht_ok t"
  shows "mii_macaddr_hash_lookup t key0 key1 appdata =
    (case hash_entries t (key0, key1) of None \<Rightarrow> (0, appdata) | Some (r, d) \<Rightarrow> (r, d))"
  by (rule hash_lookup_entries [OF assms])


text \<open>
  Deleting an address for a client clears the client bit in both tables, when the priorities
  agree, and changes no other entry. The entry itself stays: an address without clients keeps its
  slot, with result 0.
\<close>

theorem mii_macaddr_hash_table_delete_entry_spec:
  assumes "hs_ok s"
  shows "hs_ok (mii_macaddr_hash_table_delete_entry taken client_num is_hp entry s) \<and>
    hs_map (mii_macaddr_hash_table_delete_entry taken client_num is_hp entry s) =
      (case hs_map s (entry_to_keys entry) of
         None \<Rightarrow> hs_map s
       | Some (r, d) \<Rightarrow> if ethernet_filter_result_is_hp r \<noteq> is_hp then hs_map s
           else (hs_map s)(entry_to_keys entry \<mapsto> (drop_client client_num is_hp r, d)))"
  using delete_entry_map [OF assms] by blast

text \<open>
  Initialising the zeroed static tables, and clearing in any state, gives two equal empty
  tables. Clearing takes no client: it removes the addresses of all of them.
\<close>

theorem mii_macaddr_hash_table_clear_spec:
  assumes "hs_ok s \<or> s = \<lparr>hs_table = z, hs_backup = z, hs_filter_active = as, hs_waiting = ws\<rparr> \<and> ht_shape z"
  shows "hs_ok (mii_macaddr_hash_table_clear taken s) \<and> hs_map (mii_macaddr_hash_table_clear taken s) = Map.empty \<and>
    hs_ok (mii_macaddr_hash_table_init s) \<and> hs_map (mii_macaddr_hash_table_init s) = Map.empty"
proof -
  have "ht_shape (hs_table s)" "hs_backup s = hs_table s" using assms by (auto simp: hs_ok_def ht_ok_def)
  then show ?thesis
    using clear_table_ok [of "hs_table s"]
    by (simp add: mii_macaddr_hash_table_clear_def mii_macaddr_hash_table_init_def Let_def hs_ok_def hs_map_def)
qed

text \<open>
  C31. The table never reports that it is full: once its 256 slots hold 256 addresses, deleted ones
  included, adding another address never returns, for no rehashing can make room for it.
\<close>

theorem hash_table_full_diverges:
  assumes "hs_backup s = hs_table s" "ht_shape (hs_table s)" "card (used_keys (hs_table s)) = 256"
    and "entry_to_keys entry \<notin> used_keys (hs_table s)" "entry_to_keys entry \<noteq> (0, 0)"
  shows "mii_macaddr_hash_table_add_entry taken client_num is_hp entry s = None"
proof (cases "add_loop taken (entry_to_keys entry)
    (ethernet_filter_result_set_hp (client_bit client_num) is_hp) (mf_appdata entry) False s")
  case None
  then show ?thesis by (simp add: mii_macaddr_hash_table_add_entry_def)
next
  case (Some res)
  then show ?thesis using add_loop_full [OF Some, of "used_keys (hs_table s)"] assms by simp
qed

section \<open>Examples\<close>

definition zero_table :: mii_macaddr_hash_table_t where
  "zero_table = \<lparr>ht_polys = [0, 0], ht_num_entries = 0,
     ht_entries = replicate 256 \<lparr>he_id0 = 0, he_id1 = 0, he_result = 0, he_appdata = 0\<rparr>\<rparr>"

definition zero_state :: hash_state where
  "zero_state = \<lparr>hs_table = zero_table, hs_backup = zero_table, hs_filter_active = [False, False], hs_waiting = [False, False]\<rparr>"

definition example_state :: hash_state where
  "example_state = mii_macaddr_hash_table_init zero_state"

definition example_filter :: ethernet_macaddr_filter_t where
  "example_filter = \<lparr>mf_addr = example_mac, mf_appdata = 1\<rparr>"

lemma mii_macaddr_hash_table_clear_spec_witness:
  "hs_ok (mii_macaddr_hash_table_clear (\<lambda>_ _. True) zero_state) \<and>
    hs_map (mii_macaddr_hash_table_clear (\<lambda>_ _. True) zero_state) = Map.empty \<and>
    hs_ok (mii_macaddr_hash_table_init zero_state) \<and> hs_map (mii_macaddr_hash_table_init zero_state) = Map.empty"
  by (rule mii_macaddr_hash_table_clear_spec [of zero_state zero_table "[False, False]" "[False, False]"])
     (simp add: zero_state_def zero_table_def ht_shape_def)

lemma example_state_ok: "hs_ok example_state" "hs_map example_state = Map.empty"
proof -
  have "ht_shape zero_table" by (simp add: zero_table_def ht_shape_def)
  from clear_table_ok [OF this] show "hs_ok example_state" "hs_map example_state = Map.empty"
    by (simp_all add: example_state_def zero_state_def mii_macaddr_hash_table_init_def hs_ok_def hs_map_def)
qed

lemma mii_macaddr_hash_lookup_spec_witness:
  "mii_macaddr_hash_lookup (hs_table example_state) 2 0x700 5 =
    (case hash_entries (hs_table example_state) (2, 0x700) of None \<Rightarrow> (0, 5) | Some (r, d) \<Rightarrow> (r, d))"
  by (rule mii_macaddr_hash_lookup_spec) (use example_state_ok in \<open>simp add: hs_ok_def\<close>)

lemma mii_macaddr_hash_table_delete_entry_spec_witness:
  "hs_map (mii_macaddr_hash_table_delete_entry (\<lambda>_ _. True) 0 0 example_filter example_state) = Map.empty"
  using mii_macaddr_hash_table_delete_entry_spec [OF example_state_ok(1), of "\<lambda>_ _. True" 0 0 example_filter]
  by (simp add: example_state_ok(2))



definition full_table :: mii_macaddr_hash_table_t where
  "full_table = zero_table\<lparr>ht_entries := map (\<lambda>i. \<lparr>he_id0 = of_nat (Suc i), he_id1 = 0, he_result = 1, he_appdata = 0\<rparr>) [0..<256]\<rparr>"

lemma full_table_keys: "used_keys full_table = (\<lambda>i. (of_nat (Suc i), 0)) ` {0..<256}"
proof -
  have "of_nat (Suc i) \<noteq> (0 :: u32)" if "i < 256" for i
    using that word_of_nat_eq_0_iff [of "Suc i", where 'a = 32] by (auto dest!: dvd_imp_le)
  then have "(of_nat (Suc i), 0) \<noteq> (0 :: u32, 0 :: u32)" if "i < 256" for i using that by blast
  moreover have "used_keys full_table = {k. k \<noteq> (0, 0) \<and> k \<in> (\<lambda>i. (of_nat (Suc i), 0)) ` {0..<256}}"
    by (simp add: used_keys_def full_table_def he_key_def image_image del: of_nat_Suc)
  ultimately show ?thesis by (auto simp del: of_nat_Suc)
qed

lemma hash_table_full_diverges_witness:
  "mii_macaddr_hash_table_add_entry (\<lambda>_ _. True) 3 0 example_filter
     (zero_state\<lparr>hs_table := full_table, hs_backup := full_table\<rparr>) = None"
proof (rule hash_table_full_diverges)
  have "inj_on (\<lambda>i. (of_nat (Suc i) :: u32, 0 :: u32)) {0..<256}"
  proof (rule inj_onI)
    fix i j :: nat
    assume "i \<in> {0..<256}" "j \<in> {0..<256}" "(of_nat (Suc i) :: u32, 0 :: u32) = (of_nat (Suc j), 0)"
    then have "unat (of_nat (Suc i) :: u32) = unat (of_nat (Suc j) :: u32)" "i < 256" "j < 256" by auto
    then show "i = j" by (simp add: unat_of_nat del: of_nat_Suc)
  qed
  then have "card (used_keys full_table) = 256" unfolding full_table_keys by (simp add: card_image)
  then show "card (used_keys (hs_table (zero_state\<lparr>hs_table := full_table, hs_backup := full_table\<rparr>))) = 256" by simp
  have "entry_to_keys example_filter = (2, 0x700)" by code_simp
  then show "entry_to_keys example_filter \<notin> used_keys (hs_table (zero_state\<lparr>hs_table := full_table, hs_backup := full_table\<rparr>))"
    "entry_to_keys example_filter \<noteq> (0, 0)"
    by (auto simp: full_table_keys)
  show "ht_shape (hs_table (zero_state\<lparr>hs_table := full_table, hs_backup := full_table\<rparr>))"
    by (simp add: ht_shape_def full_table_def zero_table_def)
qed simp

end
