(* ===== verification/Client_Ring.thy ===== *)
theory Client_Ring
  imports Rt_Mac
begin

text \<open>
  The queue of packets that a receive client has in the servers, for a ring of \<open>n\<close> entries: the real-time MAC
  keeps 4 queue slots in it, the RGMII MAC 16 buffers. The ring of a client is a FIFO, by interpretation of the
  contract of \<open>Fifo\<close> in the theories of the two servers.
\<close>

section \<open>The ring of a client\<close>

definition ring_queue :: "nat \<Rightarrow> rx_client_state_t \<Rightarrow> u32 list" where
  "ring_queue n c = map (\<lambda>k. rc_fifo c ! ((unat (rc_rd_index c) + k) mod n))
     [0..<ring_dist n (unat (rc_rd_index c)) (unat (rc_wr_index c))]"

definition ring_room :: "nat \<Rightarrow> rx_client_state_t \<Rightarrow> bool" where
  "ring_room n c \<longleftrightarrow> increment_and_wrap_to_zero (rc_wr_index c) (of_nat n) \<noteq> rc_rd_index c"

definition ring_push :: "nat \<Rightarrow> rx_client_state_t \<Rightarrow> u32 \<Rightarrow> rx_client_state_t" where
  "ring_push n c x = c\<lparr>rc_fifo := (rc_fifo c)[unat (rc_wr_index c) := x],
     rc_wr_index := increment_and_wrap_to_zero (rc_wr_index c) (of_nat n)\<rparr>"

definition ring_pop :: "nat \<Rightarrow> rx_client_state_t \<Rightarrow> rx_client_state_t" where
  "ring_pop n c = c\<lparr>rc_rd_index := increment_and_wrap_to_zero (rc_rd_index c) (of_nat n)\<rparr>"

definition ring_front :: "rx_client_state_t \<Rightarrow> u32 option" where
  "ring_front c = (if has_packet c then Some (rc_fifo c ! unat (rc_rd_index c)) else None)"

lemma wrap_n:
  "unat x < n \<Longrightarrow> n < 2 ^ 32 \<Longrightarrow> unat (increment_and_wrap_to_zero x (of_nat n)) = (unat x + 1) mod n"
  by (simp add: wrap_to_zero_unat word_less_nat_alt unat_of_nat)

lemma dist_n:
  "r < n \<Longrightarrow> w < n \<Longrightarrow> (w + 1) mod n \<noteq> r \<Longrightarrow> ring_dist n r ((w + 1) mod n) = Suc (ring_dist n r w)"
  "r < n \<Longrightarrow> w < n \<Longrightarrow> w \<noteq> r \<Longrightarrow> Suc (ring_dist n ((r + 1) mod n) w) = ring_dist n r w"
  by (auto simp: ring_dist_def mod_below_twice split: if_splits)

lemma ring_push_queue:
  assumes ok: "client_ok n c" and room: "ring_room n c" and n: "n < 2 ^ 32"
  shows "ring_queue n (ring_push n c x) = ring_queue n c @ [x]" "client_ok n (ring_push n c x)"
proof -
  let ?r = "unat (rc_rd_index c)" and ?w = "unat (rc_wr_index c)"
  have b: "?r < n" "?w < n" "length (rc_fifo c) = n" using ok by (simp_all add: client_ok_def)
  have w': "unat (rc_wr_index (ring_push n c x)) = (?w + 1) mod n" using b n by (simp add: ring_push_def wrap_n)
  have ne: "(?w + 1) mod n \<noteq> ?r"
    using room b w' by (auto simp: ring_room_def word_unat_eq_iff ring_push_def)
  let ?n = "ring_dist n ?r ?w"
  have n4: "?n < n" "(?r + ?n) mod n = ?w" using b by (simp_all add: ring_dist_below ring_dist_slot)
  have d: "ring_dist n (unat (rc_rd_index (ring_push n c x))) ((?w + 1) mod n) = Suc ?n"
    using dist_n(1) [OF b(1,2) ne] by (simp add: ring_push_def)
  show "ring_queue n (ring_push n c x) = ring_queue n c @ [x]"
    unfolding ring_queue_def w' d
    using b n4 ring_slot_inj [OF b(1) n4(1)]
    by (auto simp: ring_push_def nth_list_update dest: less_trans)
  show "client_ok n (ring_push n c x)" using ok b w' by (simp add: client_ok_def ring_push_def)
qed

lemma ring_has_packet: "client_ok n c \<Longrightarrow> has_packet c \<longleftrightarrow> ring_queue n c \<noteq> []"
  using ring_dist_eq_0 [of "unat (rc_rd_index c)" n "unat (rc_wr_index c)"]
  by (auto simp: ring_queue_def has_packet_def client_ok_def word_unat_eq_iff)

lemma ring_pop_queue:
  assumes ok: "client_ok n c" and ne: "ring_queue n c \<noteq> []" and n: "n < 2 ^ 32"
  shows "ring_queue n c = rc_fifo c ! unat (rc_rd_index c) # ring_queue n (ring_pop n c)" "client_ok n (ring_pop n c)"
proof -
  let ?r = "unat (rc_rd_index c)" and ?w = "unat (rc_wr_index c)"
  have b: "?r < n" "?w < n" using ok by (simp_all add: client_ok_def)
  have r': "unat (rc_rd_index (ring_pop n c)) = (?r + 1) mod n" using b n by (simp add: ring_pop_def wrap_n)
  have "?w \<noteq> ?r" using ne ring_dist_self [of n ?r] by (auto simp: ring_queue_def)
  then have d: "ring_dist n ?r ?w = Suc (ring_dist n ((?r + 1) mod n) ?w)" using dist_n(2) [OF b] by simp
  have "(Suc ?r mod n + k) mod n = (?r + Suc k) mod n" for k by (simp add: mod_simps)
  then show "ring_queue n c = rc_fifo c ! ?r # ring_queue n (ring_pop n c)"
    using b unfolding ring_queue_def r' d
    by (simp add: ring_pop_def map_upt_Suc del: upt_Suc)
  show "client_ok n (ring_pop n c)" using ok b r' by (simp add: client_ok_def ring_pop_def)
qed

lemma ring_front_queue:
  "client_ok n c \<Longrightarrow> n < 2 ^ 32 \<Longrightarrow> ring_front c = (case ring_queue n c of [] \<Rightarrow> None | x # _ \<Rightarrow> Some x)"
  using ring_pop_queue(1) [of n c] ring_has_packet [of n c]
  by (cases "ring_queue n c") (simp_all add: ring_front_def)

lemma ring_pop_tl:
  "client_ok n c \<Longrightarrow> ring_queue n c \<noteq> [] \<Longrightarrow> n < 2 ^ 32 \<Longrightarrow> ring_queue n (ring_pop n c) = tl (ring_queue n c)"
  by (simp add: ring_pop_queue(1))

section \<open>All the clients\<close>

text \<open>How often the clients hold \<open>x\<close>.\<close>

definition held_at :: "nat \<Rightarrow> rx_client_state_t list \<Rightarrow> u32 \<Rightarrow> nat" where
  "held_at n cs x = (\<Sum>c\<leftarrow>cs. count_list (ring_queue n c) x)"

lemma held_at_update:
  "i < length cs \<Longrightarrow> held_at n (cs[i := c]) x + count_list (ring_queue n (cs ! i)) x = held_at n cs x + count_list (ring_queue n c) x"
proof -
  assume i: "i < length cs"
  have "count_list (ring_queue n (cs ! i)) x \<le> held_at n cs x"
    unfolding held_at_def by (rule member_le_sum_list) (use i in auto)
  then show ?thesis using i by (simp add: held_at_def map_update sum_list_update)
qed

lemma held_at_member: "i < length cs \<Longrightarrow> x \<in> set (ring_queue n (cs ! i)) \<Longrightarrow> 0 < held_at n cs x"
proof -
  assume i: "i < length cs" and x: "x \<in> set (ring_queue n (cs ! i))"
  have "count_list (ring_queue n (cs ! i)) x \<le> held_at n cs x"
    unfolding held_at_def by (rule member_le_sum_list) (use i in auto)
  moreover have "count_list (ring_queue n (cs ! i)) x \<noteq> 0" using x by (simp add: count_list_0_iff)
  ultimately show ?thesis by linarith
qed

section \<open>Offering a packet to the clients\<close>

definition takes_at :: "nat \<Rightarrow> mem \<Rightarrow> addr \<Rightarrow> rx_client_state_t list \<Rightarrow> nat \<Rightarrow> bool" where
  "takes_at n m buf cs i \<longleftrightarrow> client_wants m buf i (cs ! i) \<and> ring_room n (cs ! i)"

text \<open>A client after the offer: it has the packet, or has lost it, or did not want it.\<close>

definition offered_at :: "nat \<Rightarrow> mem \<Rightarrow> addr \<Rightarrow> u32 \<Rightarrow> nat \<Rightarrow> rx_client_state_t \<Rightarrow> rx_client_state_t" where
  "offered_at n m buf x i c =
     (if \<not> client_wants m buf i c then c
      else if ring_room n c then ring_push n c x
      else c\<lparr>rc_dropped_pkt_cnt := rc_dropped_pkt_cnt c + 1\<rparr>)"

definition offer_upto_at :: "nat \<Rightarrow> mem \<Rightarrow> addr \<Rightarrow> u32 \<Rightarrow> nat \<Rightarrow> rx_client_state_t list \<Rightarrow> rx_client_state_t list" where
  "offer_upto_at n m buf x k cs = map (\<lambda>i. if i < k then offered_at n m buf x i (cs ! i) else cs ! i) [0..<length cs]"

lemma offer_upto_simps [simp]:
  "offer_upto_at n m buf x 0 cs = cs" "length (offer_upto_at n m buf x k cs) = length cs"
  "i < length cs \<Longrightarrow> offer_upto_at n m buf x k cs ! i = (if i < k then offered_at n m buf x i (cs ! i) else cs ! i)"
  by (simp_all add: offer_upto_at_def map_nth)

lemma offer_upto_Suc:
  "k < length cs \<Longrightarrow> offer_upto_at n m buf x (Suc k) cs = (offer_upto_at n m buf x k cs)[k := offered_at n m buf x k (cs ! k)]"
  by (rule nth_equalityI) (auto simp: nth_list_update less_Suc_eq)

text \<open>The loop over the clients, for every step that offers the packet to one client.\<close>

lemma offer_at_fold:
  assumes step: "\<And>i t cs ready. i < length cs \<Longrightarrow> P (cs ! i) \<Longrightarrow> f i (t, cs, ready) =
     (if takes_at n m buf cs i then (t + 1, cs[i := offered_at n m buf x i (cs ! i)], ready @ [i])
      else (t, cs[i := offered_at n m buf x i (cs ! i)], ready))"
    and P: "\<forall>c\<in>set cs. P c"
  shows "k \<le> length cs \<Longrightarrow> fold f [0..<k] (0, cs, []) =
     (length (filter (takes_at n m buf cs) [0..<k]), offer_upto_at n m buf x k cs, filter (takes_at n m buf cs) [0..<k])"
proof (induction k)
  case 0
  then show ?case by simp
next
  case (Suc k)
  have "takes_at n m buf (offer_upto_at n m buf x k cs) k = takes_at n m buf cs k"
    using Suc.prems by (simp add: takes_at_def)
  moreover have "P (offer_upto_at n m buf x k cs ! k)" using P Suc.prems by simp
  ultimately show ?case using Suc by (simp add: step offer_upto_Suc)
qed

lemma offered_at_queue:
  assumes "client_ok n c" "n < 2 ^ 32"
  shows "client_wants m buf i c \<Longrightarrow> ring_room n c \<Longrightarrow> ring_queue n (offered_at n m buf x i c) = ring_queue n c @ [x]"
    "\<not> (client_wants m buf i c \<and> ring_room n c) \<Longrightarrow> ring_queue n (offered_at n m buf x i c) = ring_queue n c"
    "client_ok n (offered_at n m buf x i c)"
  using assms ring_push_queue [OF assms(1) _ assms(2), of x]
  by (simp_all add: offered_at_def ring_queue_def client_ok_def)

lemma offer_upto_held_at:
  assumes "k \<le> length cs" "\<forall>c\<in>set cs. client_ok n c" "n < 2 ^ 32"
  shows "held_at n (offer_upto_at n m buf x k cs) y =
     held_at n cs y + (if y = x then length (filter (takes_at n m buf cs) [0..<k]) else 0)"
  using assms(1)
proof (induction k)
  case 0
  then show ?case by simp
next
  case (Suc k)
  let ?cs = "offer_upto_at n m buf x k cs"
  have k: "k < length ?cs" "?cs ! k = cs ! k" "client_ok n (cs ! k)" using Suc.prems assms(2) by auto
  have "held_at n (offer_upto_at n m buf x (Suc k) cs) y + count_list (ring_queue n (cs ! k)) y =
      held_at n ?cs y + count_list (ring_queue n (offered_at n m buf x k (cs ! k))) y"
    using held_at_update [OF k(1), of n "offered_at n m buf x k (cs ! k)" y] Suc.prems by (simp add: offer_upto_Suc k(2))
  moreover have "count_list (ring_queue n (offered_at n m buf x k (cs ! k))) y =
      count_list (ring_queue n (cs ! k)) y + (if takes_at n m buf cs k \<and> y = x then 1 else 0)"
    using offered_at_queue(1,2) [OF k(3) assms(3), of m buf k x] by (cases "takes_at n m buf cs k") (auto simp: takes_at_def)
  moreover have "held_at n ?cs y = held_at n cs y + (if y = x then length (filter (takes_at n m buf cs) [0..<k]) else 0)"
    using Suc by simp
  ultimately show ?case by (cases "takes_at n m buf cs k"; cases "y = x") simp_all
qed

lemma client_wants_header:
  assumes "f \<noteq> filter_result_f"
  shows "client_wants (setf m buf f v) buf i c = client_wants m buf i c"
    "packet_etype (setf m buf f v) buf = packet_etype m buf"
proof -
  have d: "ldb (setf m buf f v) (pkt_data buf + k) = ldb m (pkt_data buf + k)" if "0 \<le> k" for k
  proof -
    define w where "w = (pkt_data buf + k) mod 4"
    have "0 \<le> w" "w < 4" by (simp_all add: w_def)
    then have "pkt_data buf + k - w \<noteq> buf + fld_off f"
      using that fld_off_range [of f] by (simp add: pkt_data_def)
    then show ?thesis by (simp add: ldb_def setf_def flip: w_def)
  qed
  note d0 = d [of 12] d [of 13] d [of 16] d [of 17]
  show e: "packet_etype (setf m buf f v) buf = packet_etype m buf"
    using d0 by (simp add: packet_etype_def Let_def add.assoc)
  show "client_wants (setf m buf f v) buf i c = client_wants m buf i c"
    using assms by (simp add: client_wants_def e)
qed

end
