(* ===== verification/Rt_Receive.thy ===== *)
theory Rt_Receive
  imports Client_Ring
begin

text \<open>
  The receive side of the 10/100 real-time MAC: how a packet is shared by the clients that want it.
  A received packet stays in its queue slot until the last client that took it has read it or lost
  it; the number of clients still to come is kept in the packet itself. \<open>rx_inv\<close> states that this
  count is right for every slot, and every step of the receive side keeps it. The ring of
  a client is a FIFO, by interpretation of the contract of \<open>Fifo\<close>.
\<close>

section \<open>The ring of a client\<close>

abbreviation client_queue :: "rx_client_state_t \<Rightarrow> u32 list" where "client_queue \<equiv> ring_queue 4"
abbreviation client_room :: "rx_client_state_t \<Rightarrow> bool" where "client_room \<equiv> ring_room 4"
abbreviation client_push :: "rx_client_state_t \<Rightarrow> u32 \<Rightarrow> rx_client_state_t" where "client_push \<equiv> ring_push 4"
abbreviation client_pop :: "rx_client_state_t \<Rightarrow> rx_client_state_t" where "client_pop \<equiv> ring_pop 4"
abbreviation client_front :: "rx_client_state_t \<Rightarrow> u32 option" where "client_front \<equiv> ring_front"
abbreviation ring4 :: "rx_client_state_t \<Rightarrow> bool" where "ring4 \<equiv> client_ok 4"

lemma client_push_queue:
  "ring4 c \<Longrightarrow> client_room c \<Longrightarrow> client_queue (client_push c x) = client_queue c @ [x]"
  "ring4 c \<Longrightarrow> client_room c \<Longrightarrow> ring4 (client_push c x)"
  by (simp_all add: ring_push_queue)

lemmas has_packet_queue = ring_has_packet [where n = 4]

lemma client_pop_queue:
  "ring4 c \<Longrightarrow> client_queue c \<noteq> [] \<Longrightarrow> client_queue c = rc_fifo c ! unat (rc_rd_index c) # client_queue (client_pop c)"
  "ring4 c \<Longrightarrow> client_queue c \<noteq> [] \<Longrightarrow> ring4 (client_pop c)"
  by (rule ring_pop_queue; simp)+

lemma client_front_queue:
  "ring4 c \<Longrightarrow> client_front c = (case client_queue c of [] \<Rightarrow> None | x # _ \<Rightarrow> Some x)"
  by (simp add: ring_front_queue)

lemma client_pop_tl: "ring4 c \<Longrightarrow> client_queue c \<noteq> [] \<Longrightarrow> client_queue (client_pop c) = tl (client_queue c)"
  by (simp add: ring_pop_tl)

interpretation client_ring: fifo client_queue ring4 client_room "\<lambda>_. True" client_push client_pop client_front
  by unfold_locales (erule client_push_queue client_pop_queue(2) client_pop_tl client_front_queue; assumption?)+

section \<open>The reference count invariant\<close>

text \<open>How often the clients hold queue slot \<open>j\<close>.\<close>

abbreviation held :: "rx_client_state_t list \<Rightarrow> u32 \<Rightarrow> nat" where "held \<equiv> held_at 4"

text \<open>Two queued packets are at least a header apart, so their counts are different words.\<close>

definition apart :: "packet_queue_info_t \<Rightarrow> bool" where
  "apart q \<longleftrightarrow> (\<forall>i<32. \<forall>j<32. i \<noteq> j \<longrightarrow> pq_ptrs q ! i \<noteq> 0 \<longrightarrow> pq_ptrs q ! j \<noteq> 0 \<longrightarrow>
     pq_ptrs q ! i + 40 \<le> pq_ptrs q ! j \<or> pq_ptrs q ! j + 40 \<le> pq_ptrs q ! i)"

text \<open>The slots the server has not looked at yet: \<open>n\<close> of them, from its own read index on.\<close>

definition pending :: "u32 \<Rightarrow> nat \<Rightarrow> nat set" where
  "pending my n = (\<lambda>k. (unat my + k) mod 32) ` {..<n}"

definition counts_ok :: "mem \<Rightarrow> packet_queue_info_t \<Rightarrow> nat set \<Rightarrow> rx_client_state_t list \<Rightarrow> bool" where
  "counts_ok m q P cs \<longleftrightarrow> (\<forall>j<32. held cs (of_nat j) =
     (if j \<in> P \<or> pq_ptrs q ! j = 0 then 0 else unat (getf m (pq_ptrs q ! j) tcount_f) + 1))"

definition rx_inv_at :: "nat \<Rightarrow> rt_server \<Rightarrow> bool" where
  "rx_inv_at n s \<longleftrightarrow> pq_ok (sv_rx_lp s) \<and> apart (sv_rx_lp s) \<and>
     (\<forall>c\<in>set (sv_rx_clients s). ring4 c \<and> (\<forall>x\<in>set (client_queue c). unat x < 32)) \<and>
     length (sv_rx_clients s) < 2 ^ 32 \<and> unat (sv_rd_index_lp s) < 32 \<and> n \<le> 32 \<and>
     unat (pq_wr_index (sv_rx_lp s)) = (unat (sv_rd_index_lp s) + n) mod 32 \<and>
     (\<forall>j\<in>pending (sv_rd_index_lp s) n. pq_ptrs (sv_rx_lp s) ! j \<noteq> 0) \<and>
     counts_ok (sv_mem s) (sv_rx_lp s) (pending (sv_rd_index_lp s) n) (sv_rx_clients s)"

definition rx_inv :: "rt_server \<Rightarrow> bool" where
  "rx_inv s \<longleftrightarrow> (\<exists>n. rx_inv_at n s)"

lemmas held_update = held_at_update [where n = 4]

lemmas held_member = held_at_member [where n = 4]

lemma pending_0 [simp]: "pending my 0 = {}"
  by (simp add: pending_def)

lemma pending_first: "0 < n \<Longrightarrow> unat my < 32 \<Longrightarrow> unat my \<in> pending my n"
  unfolding pending_def by (rule image_eqI [of _ _ 0]) simp_all

lemma pending_tail:
  assumes my: "unat my < 32" and n: "n < 32" and my': "unat my' = (unat my + 1) mod 32"
  shows "pending my (Suc n) = insert (unat my) (pending my' n)" "unat my \<notin> pending my' n"
proof -
  have shift: "(unat my' + k) mod 32 = (unat my + Suc k) mod 32" for k by (simp add: my' mod_simps)
  show "pending my (Suc n) = insert (unat my) (pending my' n)"
    using my by (simp add: pending_def shift lessThan_Suc_eq_insert_0 image_image)
  have "unat my \<noteq> (unat my + Suc k) mod 32" if "k < n" for k
    using ring_slot_inj [of "unat my" 32 "Suc k" 0] my n that by simp
  then show "unat my \<notin> pending my' n" by (auto simp: pending_def shift)
qed

lemma mii_free_index_fields:
  "mii_free_index q i = Some (q', r) \<Longrightarrow>
     pq_ptrs q' = (pq_ptrs q)[unat i := 0] \<and> pq_wr_index q' = pq_wr_index q"
  by (auto simp: mii_free_index_def split: option.splits)

lemma mii_free_index_ok:
  assumes "pq_ok q" "unat i < 32"
  obtains q' r where "mii_free_index q i = Some (q', r)" "pq_ok q'" "pq_ptrs q' = (pq_ptrs q)[unat i := 0]"
    "pq_wr_index q' = pq_wr_index q"
  using pq_free_index [OF assms] mii_free_index_fields by blast

lemma move_my_one:
  assumes my: "unat my < 32" and n: "n < 32" and wr: "unat (pq_wr_index q) = (unat my + Suc n) mod 32"
    and used: "\<forall>j\<in>pending (increment_and_wrap_power_of_2 my 32) n. pq_ptrs q ! j \<noteq> 0"
  shows "mii_move_my_rd_index q my = Some (increment_and_wrap_power_of_2 my 32)"
    "unat (increment_and_wrap_power_of_2 my 32) = (unat my + 1) mod 32"
proof -
  show u: "unat (increment_and_wrap_power_of_2 my 32) = (unat my + 1) mod 32"
    using my by (simp add: wrap_power_of_2_unat word_less_nat_alt)
  have "increment_and_wrap_power_of_2 my 32 = pq_wr_index q \<or>
      pq_ptrs q ! unat (increment_and_wrap_power_of_2 my 32) \<noteq> 0"
  proof (cases "n = 0")
    case True
    then show ?thesis using u wr by (simp add: word_unat_eq_iff)
  next
    case False
    then show ?thesis using used pending_first [of n "increment_and_wrap_power_of_2 my 32"] u by simp
  qed
  then show "mii_move_my_rd_index q my = Some (increment_and_wrap_power_of_2 my 32)"
    by (subst mii_move_my_rd_index.simps) (auto simp: Let_def)
qed

section \<open>Offering a packet to the clients\<close>

abbreviation takes :: "mem \<Rightarrow> addr \<Rightarrow> rx_client_state_t list \<Rightarrow> nat \<Rightarrow> bool" where "takes \<equiv> takes_at 4"

abbreviation offered :: "mem \<Rightarrow> addr \<Rightarrow> u32 \<Rightarrow> nat \<Rightarrow> rx_client_state_t \<Rightarrow> rx_client_state_t" where
  "offered \<equiv> offered_at 4"

abbreviation offer_upto :: "mem \<Rightarrow> addr \<Rightarrow> u32 \<Rightarrow> nat \<Rightarrow> rx_client_state_t list \<Rightarrow> rx_client_state_t list" where
  "offer_upto \<equiv> offer_upto_at 4"

lemma offer_fold:
  "k \<le> length cs \<Longrightarrow> fold (offer_client m buf x) [0..<k] (0, cs, []) =
     (length (filter (takes m buf cs) [0..<k]), offer_upto m buf x k cs, filter (takes m buf cs) [0..<k])"
  by (rule offer_at_fold [where P = "\<lambda>_. True"])
    (auto simp: offer_client_def takes_at_def offered_at_def ring_room_def ring_push_def Let_def)

definition client_inv :: "rx_client_state_t \<Rightarrow> bool" where
  "client_inv c \<longleftrightarrow> ring4 c \<and> (\<forall>x\<in>set (client_queue c). unat x < 32)"

lemma offered_queue:
  "ring4 c \<Longrightarrow> client_wants m buf i c \<Longrightarrow> client_room c \<Longrightarrow> client_queue (offered m buf x i c) = client_queue c @ [x]"
  "ring4 c \<Longrightarrow> \<not> (client_wants m buf i c \<and> client_room c) \<Longrightarrow> client_queue (offered m buf x i c) = client_queue c"
  "ring4 c \<Longrightarrow> ring4 (offered m buf x i c)"
  by (rule offered_at_queue; simp)+

lemma offer_upto_held:
  assumes "k \<le> length cs" "\<forall>c\<in>set cs. ring4 c"
  shows "held (offer_upto m buf x k cs) j =
     held cs j + (if j = x then length (filter (takes m buf cs) [0..<k]) else 0)"
  using offer_upto_held_at [OF assms] by simp

lemma offer_upto_inv:
  assumes "\<forall>c\<in>set cs. client_inv c" "unat x < 32"
  shows "\<forall>c\<in>set (offer_upto m buf x k cs). client_inv c"
proof
  fix c assume "c \<in> set (offer_upto m buf x k cs)"
  then obtain i where i: "i < length cs" "c = (if i < k then offered m buf x i (cs ! i) else cs ! i)"
    by (auto simp: offer_upto_at_def)
  then have ci: "client_inv (cs ! i)" using assms(1) by simp
  then have "client_inv (offered m buf x i (cs ! i))"
    using offered_queue [where c = "cs ! i" and m = m and buf = buf and i = i and x = x] assms(2)
    by (cases "client_wants m buf i (cs ! i) \<and> client_room (cs ! i)") (auto simp: client_inv_def)
  then show "client_inv c" using i ci by simp
qed

lemma rx_inv_at_alt:
  "rx_inv_at n s \<longleftrightarrow> pq_ok (sv_rx_lp s) \<and> apart (sv_rx_lp s) \<and> (\<forall>c\<in>set (sv_rx_clients s). client_inv c) \<and>
     length (sv_rx_clients s) < 2 ^ 32 \<and> unat (sv_rd_index_lp s) < 32 \<and> n \<le> 32 \<and>
     unat (pq_wr_index (sv_rx_lp s)) = (unat (sv_rd_index_lp s) + n) mod 32 \<and>
     (\<forall>j\<in>pending (sv_rd_index_lp s) n. pq_ptrs (sv_rx_lp s) ! j \<noteq> 0) \<and>
     counts_ok (sv_mem s) (sv_rx_lp s) (pending (sv_rd_index_lp s) n) (sv_rx_clients s)"
  by (simp add: rx_inv_at_def client_inv_def)

lemma apart_clear:
  assumes "apart q" "length (pq_ptrs q) = 32" "pq_ptrs q' = (pq_ptrs q)[i := 0]"
  shows "apart q'"
proof -
  have "pq_ptrs q' ! k = pq_ptrs q ! k \<or> pq_ptrs q' ! k = 0" if "k < 32" for k
    using that assms(2,3) by (cases "k = i") simp_all
  then show ?thesis using assms(1) unfolding apart_def by metis
qed

text \<open>Writing the header of one queued packet leaves the counts of the others.\<close>

lemma other_count:
  assumes "apart q" "i < 32" "j < 32" "i \<noteq> j" "pq_ptrs q ! i \<noteq> 0" "pq_ptrs q ! j \<noteq> 0"
  shows "getf (setf m (pq_ptrs q ! i) f v) (pq_ptrs q ! j) g = getf m (pq_ptrs q ! j) g"
  using assms by (intro getf_setf_apart) (auto simp: apart_def)

lemma pending_packet:
  assumes inv: "rx_inv_at n s" and buf: "mii_get_my_next_buf (sv_rx_lp s) (sv_rd_index_lp s) \<noteq> 0"
  obtains k where "n = Suc k" "k < 31"
    "mii_get_my_next_buf (sv_rx_lp s) (sv_rd_index_lp s) = pq_ptrs (sv_rx_lp s) ! unat (sv_rd_index_lp s)"
proof -
  let ?q = "sv_rx_lp s" and ?my = "sv_rd_index_lp s"
  have ok: "pq_ok ?q" and my: "unat ?my < 32" and n: "n \<le> 32"
    and wr: "unat (pq_wr_index ?q) = (unat ?my + n) mod 32"
    and used: "\<forall>j\<in>pending ?my n. pq_ptrs ?q ! j \<noteq> 0"
    using inv by (simp_all add: rx_inv_at_def)
  have ne: "pq_rd_index ?q \<noteq> pq_wr_index ?q" and b: "pq_ptrs ?q ! unat ?my \<noteq> 0"
    using buf by (auto simp: mii_get_my_next_buf_def split: if_splits)
  have "\<not> mii_packet_queue_full ?q"
    using ne pq_wr_slot [OF ok] ok by (auto simp: pq_full_iff [OF ok] pq_ok_def word_unat_eq_iff)
  then have free: "pq_ptrs ?q ! unat (pq_wr_index ?q) = 0" by (simp add: mii_packet_queue_full_def)
  have "n \<noteq> 0" using free b wr my by (auto intro!: gr0I)
  moreover have "n \<noteq> 32" using free b wr my by auto
  ultimately obtain k where "n = Suc k" "k < 31" using n by (cases n) auto
  then show ?thesis using that buf by (auto simp: mii_get_my_next_buf_def split: if_splits)
qed

lemma offer_unwanted:
  assumes "getf m buf filter_result_f = 0"
  shows "filter (takes m buf cs) [0..<k] = []" "offer_upto m buf x k cs = cs"
proof -
  have w: "\<not> client_wants m buf i c" for i c using assms by (simp add: client_wants_def)
  show "filter (takes m buf cs) [0..<k] = []" by (simp add: takes_at_def w)
  show "offer_upto m buf x k cs = cs" by (rule nth_equalityI) (simp_all add: offered_at_def w)
qed

lemma offer_header:
  assumes "f \<noteq> filter_result_f"
  shows "takes (setf m buf f v) buf = takes m buf" "offer_upto (setf m buf f v) buf = offer_upto m buf"
  by (intro ext; simp add: takes_at_def offer_upto_at_def offered_at_def client_wants_header(1) [OF assms])+

text \<open>The memory after the offer: the VLAN mark, when some client looked at the packet.\<close>

definition vlan_mem :: "mem \<Rightarrow> addr \<Rightarrow> nat \<Rightarrow> mem" where
  "vlan_mem m buf n = (if getf m buf filter_result_f \<noteq> 0 \<and> n \<noteq> 0
     then setf m buf vlan_tagged_f (if snd (packet_etype m buf) then 1 else 0) else m)"

lemma vlan_mem_simps [simp]:
  "takes (vlan_mem m buf n) buf = takes m buf" "offer_upto (vlan_mem m buf n) buf = offer_upto m buf"
  "getf (vlan_mem m buf n) buf tcount_f = getf m buf tcount_f"
  by (simp_all add: vlan_mem_def offer_header)

lemma handle_incoming_eq:
  fixes s
  defines "q \<equiv> sv_rx_lp s" and "my \<equiv> sv_rd_index_lp s" and "cs \<equiv> sv_rx_clients s" and "m \<equiv> sv_mem s"
  assumes buf: "mii_get_my_next_buf q my = b" "b \<noteq> 0"
  shows "handle_incoming_packet s =
     (let t = filter (takes m b cs) [0..<length cs];
          s = s\<lparr>sv_rx_clients := offer_upto m b my (length cs) cs, sv_ready := sv_ready s @ t\<rparr>
      in bind (if t = [] then bind (from_loop (mii_free_index q my))
                 (\<lambda>(packets, _). Inr (s\<lparr>sv_mem := vlan_mem m b (length cs), sv_rx_lp := packets\<rparr>))
               else Inr (s\<lparr>sv_mem := setf (vlan_mem m b (length cs)) b tcount_f (of_nat (length t - 1))\<rparr>))
           (\<lambda>s. bind (from_loop (mii_move_my_rd_index (sv_rx_lp s) my)) (\<lambda>rd. Inr (s\<lparr>sv_rd_index_lp := rd\<rparr>))))"
proof -
  let ?t = "filter (takes m b cs) [0..<length cs]"
  have fold: "(if getf m b filter_result_f \<noteq> 0
       then fold (offer_client (vlan_mem m b (length cs)) b my) [0..<length cs] (0, cs, []) else (0, cs, [])) =
      (length ?t, offer_upto m b my (length cs) cs, ?t)"
    using offer_unwanted(1) [of m b cs "length cs"] offer_unwanted(2) [of m b my "length cs" cs]
    by (simp add: offer_fold)
  have len: "length ?t = 0 \<longleftrightarrow> ?t = []" by simp
  show ?thesis
    unfolding handle_incoming_packet_def Let_def
    using fold buf len
    by (simp only: vlan_mem_def q_def my_def cs_def m_def if_False prod.case split: if_split)
qed

lemma vlan_mem_other:
  "apart q \<Longrightarrow> i < 32 \<Longrightarrow> j < 32 \<Longrightarrow> i \<noteq> j \<Longrightarrow> pq_ptrs q ! i \<noteq> 0 \<Longrightarrow> pq_ptrs q ! j \<noteq> 0 \<Longrightarrow>
   getf (vlan_mem m (pq_ptrs q ! i) n) (pq_ptrs q ! j) f = getf m (pq_ptrs q ! j) f"
  by (simp add: vlan_mem_def other_count)

lemma counts_after_offer:
  assumes counts: "counts_ok m q (pending my (Suc k)) cs" and apart: "apart q"
    and k: "k < 31" and my: "unat my < 32" and my': "unat my' = (unat my + 1) mod 32"
    and b: "pq_ptrs q ! unat my \<noteq> 0"
    and cs: "\<forall>c\<in>set cs. client_inv c" "length cs < 2 ^ 32" "length (pq_ptrs q) = 32"
    and t: "t = filter (takes m (pq_ptrs q ! unat my) cs) [0..<length cs]"
  shows "t \<noteq> [] \<Longrightarrow> counts_ok (setf (vlan_mem m (pq_ptrs q ! unat my) (length cs)) (pq_ptrs q ! unat my)
       tcount_f (of_nat (length t - 1))) q (pending my' k) (offer_upto m (pq_ptrs q ! unat my) my (length cs) cs)"
    and "t = [] \<Longrightarrow> pq_ptrs q' = (pq_ptrs q)[unat my := 0] \<Longrightarrow>
       counts_ok (vlan_mem m (pq_ptrs q ! unat my) (length cs)) q' (pending my' k)
         (offer_upto m (pq_ptrs q ! unat my) my (length cs) cs)"
proof -
  let ?b = "pq_ptrs q ! unat my" and ?cs = "offer_upto m (pq_ptrs q ! unat my) my (length cs) cs"
  have ring: "\<forall>c\<in>set cs. ring4 c" using cs(1) by (simp add: client_inv_def)
  have held: "held ?cs (of_nat j) = held cs (of_nat j) + (if j = unat my then length t else 0)" if "j < 32" for j
  proof -
    have "of_nat j = my \<longleftrightarrow> j = unat my" using that by (auto simp: unat_of_nat)
    then show ?thesis using offer_upto_held [OF order_refl ring, of m ?b my "of_nat j"] by (simp add: t)
  qed
  have P: "pending my (Suc k) = insert (unat my) (pending my' k)" "unat my \<notin> pending my' k"
    using pending_tail [OF my _ my', of k] k by simp_all
  have old: "held cs (of_nat j) = (if j \<in> pending my (Suc k) \<or> pq_ptrs q ! j = 0 then 0
      else unat (getf m (pq_ptrs q ! j) tcount_f) + 1)" if "j < 32" for j
    using counts that by (simp add: counts_ok_def)
  have lt: "length t \<le> length cs" unfolding t by (metis length_filter_le length_upt diff_zero)
  show "counts_ok (setf (vlan_mem m ?b (length cs)) ?b tcount_f (of_nat (length t - 1))) q (pending my' k) ?cs"
    if ne: "t \<noteq> []"
    unfolding counts_ok_def
  proof (intro allI impI)
    fix j :: nat assume j: "j < 32"
    show "held ?cs (of_nat j) = (if j \<in> pending my' k \<or> pq_ptrs q ! j = 0 then 0 else
        unat (getf (setf (vlan_mem m ?b (length cs)) ?b tcount_f (of_nat (length t - 1))) (pq_ptrs q ! j) tcount_f) + 1)"
    proof (cases "j = unat my")
      case True
      have "unat (of_nat (length t - 1) :: u32) = length t - 1"
        using lt cs(2) by (simp add: unat_of_nat)
      then show ?thesis using True held [OF j] old [OF j] P b ne by (simp add: Suc_le_eq)
    next
      case False
      then show ?thesis
        using held [OF j] old [OF j] P other_count [OF apart my j _ b] vlan_mem_other [OF apart my j _ b]
        by simp
    qed
  qed
  show "counts_ok (vlan_mem m ?b (length cs)) q' (pending my' k) ?cs"
    if e: "t = []" and q': "pq_ptrs q' = (pq_ptrs q)[unat my := 0]"
    unfolding counts_ok_def
  proof (intro allI impI)
    fix j :: nat assume j: "j < 32"
    show "held ?cs (of_nat j) = (if j \<in> pending my' k \<or> pq_ptrs q' ! j = 0 then 0 else
        unat (getf (vlan_mem m ?b (length cs)) (pq_ptrs q' ! j) tcount_f) + 1)"
      using held [OF j] old [OF j] P j cs(3) vlan_mem_other [OF apart my j _ b]
      by (cases "j = unat my") (simp_all add: e q')
  qed
qed

lemma handle_incoming_inv:
  fixes s
  defines "q \<equiv> sv_rx_lp s" and "my \<equiv> sv_rd_index_lp s" and "cs \<equiv> sv_rx_clients s" and "m \<equiv> sv_mem s"
  assumes inv: "rx_inv_at n s" and buf: "mii_get_my_next_buf q my = b" "b \<noteq> 0"
    and t: "t = filter (takes m b cs) [0..<length cs]"
  obtains s' where "handle_incoming_packet s = Inr s'" "rx_inv_at (n - 1) s'"
    "sv_rx_clients s' = offer_upto m b my (length cs) cs" "sv_ready s' = sv_ready s @ t"
    "pq_ptrs (sv_rx_lp s') = (if t = [] then (pq_ptrs q)[unat my := 0] else pq_ptrs q)"
proof -
  obtain k where n: "n = Suc k" and k: "k < 31" and b: "b = pq_ptrs q ! unat my"
    using pending_packet [OF inv] buf by (auto simp: q_def my_def)
  have ok: "pq_ok q" and ap: "apart q" and my: "unat my < 32" and cs: "\<forall>c\<in>set cs. client_inv c" "length cs < 2 ^ 32"
    and wr: "unat (pq_wr_index q) = (unat my + Suc k) mod 32"
    and used: "\<forall>j\<in>pending my (Suc k). pq_ptrs q ! j \<noteq> 0"
    and counts: "counts_ok m q (pending my (Suc k)) cs"
    using inv by (simp_all add: rx_inv_at_alt n q_def my_def cs_def m_def)
  have len: "length (pq_ptrs q) = 32" using ok by (simp add: pq_ok_def)
  define my' where "my' = increment_and_wrap_power_of_2 my 32"
  have my': "unat my' = (unat my + 1) mod 32" using my by (simp add: my'_def wrap_power_of_2_unat word_less_nat_alt)
  have P: "pending my (Suc k) = insert (unat my) (pending my' k)" "unat my \<notin> pending my' k"
    using pending_tail [OF my _ my', of k] k by simp_all
  let ?cs = "offer_upto m b my (length cs) cs"
  have cs': "\<forall>c\<in>set ?cs. client_inv c" by (rule offer_upto_inv [OF cs(1) my])
  note counts' = counts_after_offer [OF counts ap k my my' _ cs len, folded b, OF buf(2) t]
  have wr': "unat (pq_wr_index q) = (unat my' + k) mod 32" using wr my' by (simp add: mod_simps)
  have eq: "handle_incoming_packet s = (let s = s\<lparr>sv_rx_clients := ?cs, sv_ready := sv_ready s @ t\<rparr>
      in bind (if t = [] then bind (from_loop (mii_free_index q my))
                 (\<lambda>(packets, _). Inr (s\<lparr>sv_mem := vlan_mem m b (length cs), sv_rx_lp := packets\<rparr>))
               else Inr (s\<lparr>sv_mem := setf (vlan_mem m b (length cs)) b tcount_f (of_nat (length t - 1))\<rparr>))
           (\<lambda>s. bind (from_loop (mii_move_my_rd_index (sv_rx_lp s) my)) (\<lambda>rd. Inr (s\<lparr>sv_rd_index_lp := rd\<rparr>))))"
    using handle_incoming_eq [of s b] buf by (simp add: q_def my_def cs_def m_def t Let_def)
  show ?thesis
  proof (cases "t = []")
    case False
    have used': "\<forall>j\<in>pending my' k. pq_ptrs q ! j \<noteq> 0" using used P by simp
    have mv: "mii_move_my_rd_index q my = Some my'"
      using move_my_one(1) [OF my _ wr] used' k by (simp add: my'_def)
    let ?s = "s\<lparr>sv_rx_clients := ?cs, sv_ready := sv_ready s @ t,
      sv_mem := setf (vlan_mem m b (length cs)) b tcount_f (of_nat (length t - 1)), sv_rd_index_lp := my'\<rparr>"
    have "handle_incoming_packet s = Inr ?s" unfolding eq using False mv by (simp add: q_def)
    moreover have "rx_inv_at (n - 1) ?s"
      using ok ap cs cs' my' k wr' used' counts'(1) [OF False] by (simp add: rx_inv_at_alt n q_def)
    ultimately show ?thesis using False by (intro that [of ?s]) (simp_all add: q_def)
  next
    case True
    obtain q' r where f: "mii_free_index q my = Some (q', r)" and q': "pq_ok q'" "pq_ptrs q' = (pq_ptrs q)[unat my := 0]"
        "pq_wr_index q' = pq_wr_index q"
      by (rule mii_free_index_ok [OF ok my])
    have used': "\<forall>j\<in>pending my' k. pq_ptrs q' ! j \<noteq> 0"
    proof
      fix j assume "j \<in> pending my' k"
      then show "pq_ptrs q' ! j \<noteq> 0" using used P by (cases "j = unat my") (auto simp: q'(2))
    qed
    have mv: "mii_move_my_rd_index q' my = Some my'"
      using move_my_one(1) [OF my _ wr [folded q'(3)]] used' k by (simp add: my'_def)
    let ?s = "s\<lparr>sv_rx_clients := ?cs, sv_ready := sv_ready s @ t, sv_mem := vlan_mem m b (length cs), sv_rx_lp := q',
      sv_rd_index_lp := my'\<rparr>"
    have "handle_incoming_packet s = Inr ?s" unfolding eq using True f mv by simp
    moreover have "rx_inv_at (n - 1) ?s"
      using apart_clear [OF ap len q'(2)] q' cs cs' my' k wr' used' counts'(2) [OF True q'(2)]
      by (simp add: rx_inv_at_alt n)
    ultimately show ?thesis using True q'(2) by (intro that [of ?s]) simp_all
  qed
qed

lemma oldest_slot:
  assumes inv: "rx_inv_at n s" and i: "i < length (sv_rx_clients s)" and ne: "client_queue (sv_rx_clients s ! i) \<noteq> []"
    and x: "x = hd (client_queue (sv_rx_clients s ! i))"
  shows "unat x < 32" "unat x \<notin> pending (sv_rd_index_lp s) n" "pq_ptrs (sv_rx_lp s) ! unat x \<noteq> 0"
    "held (sv_rx_clients s) x = unat (getf (sv_mem s) (pq_ptrs (sv_rx_lp s) ! unat x) tcount_f) + 1"
    "rc_fifo (sv_rx_clients s ! i) ! unat (rc_rd_index (sv_rx_clients s ! i)) = x"
proof -
  let ?c = "sv_rx_clients s ! i"
  have c: "client_inv ?c" using inv i by (simp add: rx_inv_at_alt)
  have mem: "x \<in> set (client_queue ?c)" using ne x by simp
  show x32: "unat x < 32" using c mem by (simp add: client_inv_def)
  have "0 < held (sv_rx_clients s) (of_nat (unat x))" using held_member [OF i mem] by simp
  then show "unat x \<notin> pending (sv_rd_index_lp s) n" "pq_ptrs (sv_rx_lp s) ! unat x \<noteq> 0"
      "held (sv_rx_clients s) x = unat (getf (sv_mem s) (pq_ptrs (sv_rx_lp s) ! unat x) tcount_f) + 1"
    using inv x32 by (auto simp: rx_inv_at_alt counts_ok_def split: if_splits)
  show "rc_fifo ?c ! unat (rc_rd_index ?c) = x"
    using client_pop_queue(1) [of ?c] c ne by (simp add: client_inv_def x)
qed

lemma release_oldest_inv:
  assumes inv: "rx_inv_at n s" and i: "i < length (sv_rx_clients s)"
    and ne: "client_queue (sv_rx_clients s ! i) = x # xs"
  obtains s' where "release_oldest i s = Inr s'" "rx_inv_at n s'"
    "sv_rx_clients s' = (sv_rx_clients s)[i := client_pop (sv_rx_clients s ! i)]"
    "client_queue (sv_rx_clients s' ! i) = xs"
    "pq_ptrs (sv_rx_lp s') = (if held (sv_rx_clients s) x = 1 then (pq_ptrs (sv_rx_lp s))[unat x := 0] else pq_ptrs (sv_rx_lp s))"
    "\<forall>a. a \<noteq> pq_ptrs (sv_rx_lp s) ! unat x + fld_off tcount_f \<longrightarrow> sv_mem s' a = sv_mem s a"
    "s' = s\<lparr>sv_mem := sv_mem s', sv_rx_lp := sv_rx_lp s', sv_rx_clients := sv_rx_clients s'\<rparr>"
proof -
  let ?q = "sv_rx_lp s" and ?cs = "sv_rx_clients s" and ?c = "sv_rx_clients s ! i" and ?m = "sv_mem s"
  let ?my = "sv_rd_index_lp s" and ?p = "pq_ptrs (sv_rx_lp s) ! unat x"
  have neq: "client_queue ?c \<noteq> []" and hd: "x = hd (client_queue ?c)" using ne by simp_all
  note o = oldest_slot [OF inv i neq hd]
  have ok: "pq_ok ?q" and ap: "apart ?q" and cs: "\<forall>c\<in>set ?cs. client_inv c" and counts: "counts_ok ?m ?q (pending ?my n) ?cs"
    and rest: "length ?cs < 2 ^ 32 \<and> unat ?my < 32 \<and> n \<le> 32" "unat (pq_wr_index ?q) = (unat ?my + n) mod 32"
    and used: "\<forall>j\<in>pending ?my n. pq_ptrs ?q ! j \<noteq> 0"
    using inv by (simp_all add: rx_inv_at_alt)
  have len: "length (pq_ptrs ?q) = 32" using ok by (simp add: pq_ok_def)
  have c: "client_inv ?c" using cs i by simp
  have pop: "client_queue (client_pop ?c) = xs" "ring4 (client_pop ?c)"
    using client_pop_queue [of ?c] c ne by (simp_all add: client_inv_def)
  let ?cs' = "?cs[i := client_pop ?c]"
  have cs': "\<forall>c\<in>set ?cs'. client_inv c"
    using cs pop c ne by (auto simp: client_inv_def dest!: set_update_subset_insert [THEN subsetD])
  have held': "held ?cs' j = held ?cs j - (if j = x then 1 else 0)" for j
    using held_update [OF i, of "client_pop ?c" j] ne by (auto simp: pop)
  let ?k = "getf ?m ?p tcount_f"
  have heldx: "held ?cs x = unat ?k + 1" by (rule o(4))
  have pop': "?c\<lparr>rc_rd_index := increment_and_wrap_to_zero (rc_rd_index ?c) 4\<rparr> = client_pop ?c"
    by (simp add: ring_pop_def)
  have slot: "of_nat j = x \<longleftrightarrow> j = unat x" if "j < 32" for j using that by (auto simp: unat_of_nat)
  have old: "held ?cs (of_nat j) = (if j \<in> pending ?my n \<or> pq_ptrs ?q ! j = 0 then 0 else
      unat (getf ?m (pq_ptrs ?q ! j) tcount_f) + 1)" if "j < 32" for j
    using counts that by (simp add: counts_ok_def)
  show ?thesis
  proof (cases "?k = 0")
    case True
    obtain q' r where f: "mii_free_index ?q x = Some (q', r)" and q': "pq_ok q'" "pq_ptrs q' = (pq_ptrs ?q)[unat x := 0]"
        "pq_wr_index q' = pq_wr_index ?q"
      by (rule mii_free_index_ok [OF ok o(1)])
    let ?s = "s\<lparr>sv_mem := ?m, sv_rx_lp := q', sv_rx_clients := ?cs'\<rparr>"
    have "release_oldest i s = Inr ?s"
      using True f o(5) by (simp add: release_oldest_def Let_def mii_get_and_dec_transmit_count_def pop')
    moreover have "counts_ok ?m q' (pending ?my n) ?cs'"
      unfolding counts_ok_def
    proof (intro allI impI)
      fix j :: nat assume j: "j < 32"
      show "held ?cs' (of_nat j) = (if j \<in> pending ?my n \<or> pq_ptrs q' ! j = 0 then 0 else
          unat (getf ?m (pq_ptrs q' ! j) tcount_f) + 1)"
      proof (cases "j = unat x")
        case True
        then show ?thesis using heldx \<open>?k = 0\<close> len j by (simp add: held' q'(2))
      next
        case False
        then have "pq_ptrs q' ! j = pq_ptrs ?q ! j" by (simp add: q'(2))
        then show ?thesis using old [OF j] slot [OF j] False by (simp add: held')
      qed
    qed
    moreover have "\<forall>j\<in>pending ?my n. pq_ptrs q' ! j \<noteq> 0"
    proof
      fix j assume "j \<in> pending ?my n"
      then show "pq_ptrs q' ! j \<noteq> 0" using used o(2) by (cases "j = unat x") (auto simp: q'(2))
    qed
    ultimately have "rx_inv_at n ?s"
      using q' apart_clear [OF ap len q'(2)] cs' rest by (simp add: rx_inv_at_alt)
    with \<open>release_oldest i s = Inr ?s\<close> show ?thesis
      using that [of ?s] i pop(1) q'(2) heldx True by simp
  next
    case False
    let ?m' = "setf ?m ?p tcount_f (?k - 1)"
    let ?s = "s\<lparr>sv_mem := ?m', sv_rx_lp := ?q, sv_rx_clients := ?cs'\<rparr>"
    have k1: "unat (?k - 1) = unat ?k - 1" "0 < unat ?k"
      using False by (simp_all add: unat_minus_one unat_gt_0)
    have "release_oldest i s = Inr ?s"
      using False o(5) by (simp add: release_oldest_def Let_def mii_get_and_dec_transmit_count_def pop')
    moreover have "counts_ok ?m' ?q (pending ?my n) ?cs'"
      unfolding counts_ok_def
    proof (intro allI impI)
      fix j :: nat assume j: "j < 32"
      show "held ?cs' (of_nat j) = (if j \<in> pending ?my n \<or> pq_ptrs ?q ! j = 0 then 0 else
          unat (getf ?m' (pq_ptrs ?q ! j) tcount_f) + 1)"
      proof (cases "j = unat x")
        case True
        then show ?thesis using heldx k1 o(2,3) by (simp add: held')
      next
        case False
        then show ?thesis using old [OF j] slot [OF j] other_count [OF ap o(1) j _ o(3)] by (simp add: held')
      qed
    qed
    ultimately have "rx_inv_at n ?s" using ok ap cs' rest used by (simp add: rx_inv_at_alt)
    with \<open>release_oldest i s = Inr ?s\<close> show ?thesis
      using that [of ?s] i pop(1) heldx k1 by (simp add: setf_def)
  qed
qed

end
