(* ===== verification/Rt_Share.thy ===== *)
theory Rt_Share
  imports Rt_Receive Rt_Send
begin

text \<open>
  What the clients of the 10/100 real-time MAC are promised on the receive side, over the invariant
  of \<open>Rt_Receive\<close>: a client that reads gets the bytes of the oldest packet it was offered, with or
  without the VLAN tag; a packet lives as long as a client holds it and no longer; every run of the
  receive side keeps this; high priority packets are drained. Two ways this fails are proved too.
\<close>

section \<open>The bytes a client gets\<close>

lemma put_bytes_fits: "k + length bs \<le> length d \<Longrightarrow> put_bytes d k bs = Inr (take k d @ bs @ drop (k + length bs) d)"
  by (simp add: put_bytes_def)

lemma split_len_range:
  assumes "dptr \<le> wrap" "0 \<le> len" "split_len wrap dptr len = (len1, len2)"
  shows "0 \<le> len1" "0 \<le> len2" "len1 + len2 = len" "len1 \<le> wrap - dptr" "len2 \<noteq> 0 \<Longrightarrow> len1 = wrap - dptr"
  using assms by (auto simp: split_len_def Let_def split: if_splits)

lemma int_min_length:
  fixes w :: u32
  shows "(if int n > uint w then uint w else int n) = int (min n (unat w))"
proof -
  define k where "k = unat w"
  have "uint w = int k" "unat w = k" by (simp_all add: k_def)
  then show ?thesis by (simp only: of_nat_less_iff) (simp add: min_def not_less)
qed

lemma read_packet_plain:
  fixes data :: "u8 list" and m :: mem and buf :: addr
  assumes d: "pkt_data buf \<le> mii_get_wrap_ptr p" and plain: "\<not> (strip \<and> getf m buf vlan_tagged_f \<noteq> 0)"
  defines "L \<equiv> min (length data) (unat (getf m buf length_f))"
  shows "read_packet p m buf strip data = Inr (copy_out p m (pkt_data buf) (int L) @ drop L data, getf m buf length_f)"
proof -
  let ?w = "mii_get_wrap_ptr p" and ?d = "pkt_data buf"
  have L: "(if int (length data) > uint (getf m buf length_f) then uint (getf m buf length_f) else int (length data)) = int L"
    unfolding L_def by (rule int_min_length)
  obtain len1 len2 where sp: "split_len ?w ?d (int L) = (len1, len2)" by (cases "split_len ?w ?d (int L)")
  note r = split_len_range [OF d _ sp]
  define a b where "a = nat len1" and "b = nat len2"
  have ab: "len1 = int a" "len2 = int b" "a + b = L" using r by (auto simp: a_def b_def)
  have n: "a + b \<le> length data" by (simp add: ab(3) L_def)
  then show ?thesis
    using plain unfolding read_packet_def Let_def L sp copy_out_def
    by (auto simp: ab(1,2) put_bytes_fits ab(3) [symmetric] add.commute)
qed

text \<open>Removing the VLAN tag from the bytes of a packet: bytes 12 to 15.\<close>

definition untagged :: "u8 list \<Rightarrow> u8 list" where
  "untagged bs = take 12 bs @ drop 16 bs"

lemma read_packet_strip:
  fixes data :: "u8 list" and m :: mem and buf :: addr
  assumes d: "pkt_data buf + 16 \<le> mii_get_wrap_ptr p" and tag: "strip" "getf m buf vlan_tagged_f \<noteq> 0"
  defines "L \<equiv> min (length data) (unat (getf m buf length_f))"
  assumes L: "16 \<le> L" "L + 8 \<le> length data"
  shows "\<exists>d. read_packet p m buf strip data = Inr (d, getf m buf length_f - 4) \<and> length d = length data \<and>
     take (L - 4) d = untagged (copy_out p m (pkt_data buf) (int L))"
proof -
  let ?w = "mii_get_wrap_ptr p" and ?d = "pkt_data buf"
  have Li: "(if int (length data) > uint (getf m buf length_f) then uint (getf m buf length_f) else int (length data)) = int L"
    unfolding L_def by (rule int_min_length)
  obtain len1 len2 where sp: "split_len ?w ?d (int L) = (len1, len2)" by (cases "split_len ?w ?d (int L)")
  have d0: "?d \<le> ?w" using d by simp
  note r = split_len_range [OF d0 _ sp]
  define a b where "a = nat len1" and "b = nat len2"
  have ab: "len1 = int a" "len2 = int b" "a + b = L" using r by (auto simp: a_def b_def)
  have a16: "16 \<le> a" using r(5) d ab L(1) by (cases "b = 0") auto
  let ?h = "ldbs m ?d 12" and ?f = "ldbs m (?d + 16) (a - 4)" and ?s = "ldbs m (uint (m ?w)) b"
  have na: "nat (len1 - 4) = a - 4" "\<not> len1 < 4" using a16 by (simp_all add: ab(1) nat_diff_distrib)
  have p1: "put_bytes data 0 ?h = Inr (?h @ drop 12 data)" using L by (simp add: put_bytes_fits)
  have p2: "put_bytes (?h @ drop 12 data) 12 ?f = Inr (?h @ ?f @ drop (12 + (a - 4)) data)"
    using L a16 ab(3) by (subst put_bytes_fits) simp_all
  have p3: "put_bytes (?h @ ?f @ drop (12 + (a - 4)) data) (a - 4) ?s =
      Inr (take (a - 4) (?h @ ?f) @ ?s @ drop (a - 4 + b) (?h @ ?f @ drop (12 + (a - 4)) data))"
    using L a16 ab(3) by (subst put_bytes_fits) simp_all
  have out: "copy_out p m ?d (int L) = ldbs m ?d a @ (if b \<noteq> 0 then ?s else [])"
    by (simp add: copy_out_def sp Let_def ab)
  have first: "take (a - 4) (?h @ ?f) = untagged (ldbs m ?d a)"
    using a16 by (intro nth_equalityI) (auto simp: untagged_def nth_append ac_simps)
  have cut: "untagged (ldbs m ?d a @ t) = untagged (ldbs m ?d a) @ t" "length (untagged (ldbs m ?d a)) = a - 4" for t
    using a16 by (simp_all add: untagged_def)
  show ?thesis
  proof (cases "b = 0")
    case True
    then have "read_packet p m buf strip data = Inr (?h @ ?f @ drop (12 + (a - 4)) data, getf m buf length_f - 4)"
      using tag p1 p2 na by (simp add: read_packet_def Let_def Li sp ab(2))
    moreover have "take (L - 4) (?h @ ?f @ drop (12 + (a - 4)) data) = untagged (copy_out p m ?d (int L))"
      using True ab(3) first a16 by (simp add: out)
    ultimately show ?thesis using L a16 ab(3) by simp
  next
    case False
    then have "read_packet p m buf strip data =
        Inr (untagged (ldbs m ?d a) @ ?s @ drop (a - 4 + b) (?h @ ?f @ drop (12 + (a - 4)) data), getf m buf length_f - 4)"
      using tag p1 p2 p3 na first by (simp add: read_packet_def Let_def Li sp ab(2))
    moreover have "a - 4 + b = L - 4" using ab(3) a16 by simp
    ultimately show ?thesis using False L a16 ab(3) cut by (simp add: out)
  qed
qed

lemma read_packet_strip_overrun:
  fixes data :: "u8 list" and m :: mem and buf :: addr
  assumes tag: "strip" "getf m buf vlan_tagged_f \<noteq> 0"
  defines "L \<equiv> min (length data) (unat (getf m buf length_f))"
  assumes L: "int L \<le> mii_get_wrap_ptr p - pkt_data buf" "length data < L + 8"
  shows "read_packet p m buf strip data = Inl Out_Of_Bounds"
proof -
  have Li: "(if int (length data) > uint (getf m buf length_f) then uint (getf m buf length_f) else int (length data)) = int L"
    unfolding L_def by (rule int_min_length)
  have sp: "split_len (mii_get_wrap_ptr p) (pkt_data buf) (int L) = (int L, 0)"
    using L by (simp add: split_len_def Let_def)
  show ?thesis
  proof (cases "12 \<le> length data \<and> 4 \<le> L")
    case True
    then show ?thesis using tag L by (simp add: read_packet_def Let_def Li sp put_bytes_def nat_diff_distrib)
  next
    case False
    then show ?thesis using tag by (auto simp: read_packet_def Let_def Li sp put_bytes_def)
  qed
qed

section \<open>Reading a packet\<close>

lemma rx_inv_at_frame [simp]:
  "rx_inv_at n (s\<lparr>sv_prioritize_rx := v\<rparr>) = rx_inv_at n s" "rx_inv_at n (s\<lparr>sv_ready := r\<rparr>) = rx_inv_at n s"
  by (simp_all add: rx_inv_at_def)

lemma get_packet_reads:
  assumes inv: "rx_inv_at n s" and i: "i < length (sv_rx_clients s)"
    and status: "rc_status_update_state (sv_rx_clients s ! i) \<noteq> STATUS_UPDATE_PENDING"
    and q: "client_queue (sv_rx_clients s ! i) = x # xs" and b: "b = pq_ptrs (sv_rx_lp s) ! unat x"
    and read: "read_packet (sv_rx_mem s) (sv_mem s) b (rc_strip_vlan_tags (sv_rx_clients s ! i)) data = Inr (d, len)"
  obtains s' info where "get_packet i data s = Inr (info, d, s')" "rx_inv_at n s'"
    "info = \<lparr>pi_type = ETH_DATA, pi_len = len, pi_timestamp = ingress_time s (sv_mem s) b,
       pi_src_ifnum = getf (sv_mem s) b src_port_f, pi_filter_data = getf (sv_mem s) b filter_data_f\<rparr>"
    "sv_rx_clients s' = (sv_rx_clients s)[i := client_pop (sv_rx_clients s ! i)]"
    "client_queue (sv_rx_clients s' ! i) = xs"
    "pq_ptrs (sv_rx_lp s') = (if held (sv_rx_clients s) x = 1 then (pq_ptrs (sv_rx_lp s))[unat x := 0] else pq_ptrs (sv_rx_lp s))"
    "sv_mem s' = (if held (sv_rx_clients s) x = 1 then sv_mem s
       else setf (sv_mem s) b tcount_f (getf (sv_mem s) b tcount_f - 1))"
proof -
  let ?c = "sv_rx_clients s ! i"
  define s0 where "s0 = s\<lparr>sv_prioritize_rx := sv_prioritize_rx s + 1\<rparr>"
  have s0: "sv_rx_clients s0 = sv_rx_clients s" "sv_rx_lp s0 = sv_rx_lp s" "sv_mem s0 = sv_mem s"
      "sv_rx_mem s0 = sv_rx_mem s" "sv_port s0 = sv_port s" "rx_inv_at n s0"
    using inv by (simp_all add: s0_def)
  have c: "ring4 ?c" using inv i by (simp add: rx_inv_at_alt client_inv_def)
  have hp: "has_packet ?c" using q c by (simp add: has_packet_queue)
  have slot: "rc_fifo ?c ! unat (rc_rd_index ?c) = x" "held (sv_rx_clients s) x = unat (getf (sv_mem s) b tcount_f) + 1"
    using oldest_slot(4,5) [OF inv i _ refl] q b by simp_all
  have last: "held (sv_rx_clients s) x = 1 \<longleftrightarrow> getf (sv_mem s) b tcount_f = 0"
    by (simp add: slot(2) word_unat_eq_iff)
  obtain s1 where r: "release_oldest i s0 = Inr s1" "rx_inv_at n s1"
      "sv_rx_clients s1 = (sv_rx_clients s)[i := client_pop ?c]" "client_queue (sv_rx_clients s1 ! i) = xs"
      "pq_ptrs (sv_rx_lp s1) = (if held (sv_rx_clients s) x = 1 then (pq_ptrs (sv_rx_lp s))[unat x := 0] else pq_ptrs (sv_rx_lp s))"
    using release_oldest_inv [of n s0 i x xs] s0 i q by metis
  have m1: "sv_mem s1 = (if held (sv_rx_clients s) x = 1 then sv_mem s
      else setf (sv_mem s) b tcount_f (getf (sv_mem s) b tcount_f - 1))"
    unfolding last using r(1) slot(1) b s0
    by (auto simp: release_oldest_def Let_def mii_get_and_dec_transmit_count_def split: if_splits)
  let ?info = "\<lparr>pi_type = ETH_DATA, pi_len = len, pi_timestamp = ingress_time s (sv_mem s) b,
       pi_src_ifnum = getf (sv_mem s) b src_port_f, pi_filter_data = getf (sv_mem s) b filter_data_f\<rparr>"
  let ?s' = "if has_packet (sv_rx_clients s1 ! i) then s1\<lparr>sv_ready := sv_ready s1 @ [i]\<rparr> else s1"
  have it: "ingress_time s0 m a = ingress_time s m a" for m a by (simp add: ingress_time_def s0)
  have "get_packet i data s = Inr (?info, d, ?s')"
    unfolding get_packet_def Let_def s0_def [symmetric] s0 slot(1) b [symmetric] it
    using status hp read r(1) by simp
  then show ?thesis by (rule that) (use r m1 in \<open>simp_all\<close>)
qed

section \<open>Dropping, and the settings of a client\<close>

text \<open>Changing a client without touching its ring keeps the invariant.\<close>

lemma rx_inv_at_client:
  assumes inv: "rx_inv_at n s" and i: "i < length (sv_rx_clients s)"
    and c: "client_queue c = client_queue (sv_rx_clients s ! i)" "ring4 c"
  shows "rx_inv_at n (s\<lparr>sv_rx_clients := (sv_rx_clients s)[i := c]\<rparr>)"
proof -
  have h: "held ((sv_rx_clients s)[i := c]) j = held (sv_rx_clients s) j" for j
    using held_update [OF i, of c j] c(1) by simp
  have "client_inv (sv_rx_clients s ! i)" using inv i by (simp add: rx_inv_at_alt)
  then have "client_inv c" using c by (simp add: client_inv_def)
  then have "\<forall>d\<in>set ((sv_rx_clients s)[i := c]). client_inv d"
    using inv by (auto simp: rx_inv_at_alt dest!: set_update_subset_insert [THEN subsetD])
  then show ?thesis using inv by (simp add: rx_inv_at_alt counts_ok_def h)
qed



lemma rx_inv_at_clients:
  assumes inv: "rx_inv_at n s" and len: "length cs = length (sv_rx_clients s)"
    and c: "\<And>i. i < length cs \<Longrightarrow> client_queue (cs ! i) = client_queue (sv_rx_clients s ! i) \<and> ring4 (cs ! i)"
  shows "rx_inv_at n (s\<lparr>sv_rx_clients := cs\<rparr>)"
proof -
  have "map client_queue cs = map client_queue (sv_rx_clients s)"
    using len c by (intro nth_equalityI) simp_all
  moreover have "held ds j = sum_list (map (\<lambda>q. count_list q j) (map client_queue ds))" for ds j
    by (simp add: held_at_def comp_def)
  ultimately have "held cs j = held (sv_rx_clients s) j" for j by (simp only:)
  moreover have "client_inv d" if "d \<in> set cs" for d
    using that inv len c by (fastforce simp: in_set_conv_nth rx_inv_at_alt client_inv_def)
  ultimately show ?thesis using inv len by (simp add: rx_inv_at_alt counts_ok_def)
qed

lemma del_ethertype_ring: "ring4 c \<Longrightarrow> ring4 (del_ethertype_filter e c) \<and> client_queue (del_ethertype_filter e c) = client_queue c"
  using del_etype_loop_spec [of 0 "rc_num_etype_filters c" "rc_etype_filters c" e]
  by (auto simp: del_ethertype_filter_def client_ok_def ring_queue_def split: prod.split)

lemma add_ethertype_ring:
  "ring4 c \<Longrightarrow> add_ethertype_filter e c = Some c' \<Longrightarrow> ring4 c' \<and> client_queue c' = client_queue c"
  by (auto simp: add_ethertype_filter_def client_ok_def ring_queue_def Let_def split: if_splits)

lemma on_client_inv:
  assumes inv: "rx_inv_at n s"
    and f: "i < length (sv_rx_clients s) \<Longrightarrow> ring4 (f (sv_rx_clients s ! i)) \<and>
      client_queue (f (sv_rx_clients s ! i)) = client_queue (sv_rx_clients s ! i)"
  shows "rx_inv_at n (on_client i f s)"
proof (cases "i < length (sv_rx_clients s)")
  case True
  then show ?thesis using rx_inv_at_client [OF inv True] f by (simp add: on_client_def)
next
  case False
  then show ?thesis using inv by (simp add: on_client_def list_update_beyond)
qed

lemma client_ring: "rx_inv_at n s \<Longrightarrow> i < length (sv_rx_clients s) \<Longrightarrow> ring4 (sv_rx_clients s ! i)"
  by (simp add: rx_inv_at_alt client_inv_def)

lemma update_client_state_inv:
  assumes inv: "rx_inv_at n s"
  shows "rx_inv_at n (update_client_state s)"
proof -
  let ?f = "\<lambda>c. if rc_status_update_state c = STATUS_UPDATE_WAITING
    then c\<lparr>rc_status_update_state := STATUS_UPDATE_PENDING\<rparr> else c"
  have "rx_inv_at n (s\<lparr>sv_rx_clients := map ?f (sv_rx_clients s)\<rparr>)"
    using client_ring [OF inv] by (intro rx_inv_at_clients [OF inv]) (simp_all add: ring_queue_def client_ok_def)
  then show ?thesis by (simp add: update_client_state_def rx_inv_at_def)
qed

lemma handle_cfg_inv:
  assumes inv: "rx_inv_at n s" and step: "handle_cfg tile_id time e s = Inr (r, s')"
  shows "rx_inv_at n s'"
proof -
  have port: "rx_inv_at n (s\<lparr>sv_port := p\<rparr>)" "rx_inv_at n (s\<lparr>sv_filter := f\<rparr>)" "rx_inv_at n (s\<lparr>sv_mac_address := a\<rparr>)" for p f a
    using inv by (simp_all add: rx_inv_at_def)
  note ring = client_ring [OF inv]
  show ?thesis
  proof (cases e)
    case (Add_Ethertype_Filter i t)
    then show ?thesis
      using step add_ethertype_ring [OF ring] by (auto split: option.splits intro!: on_client_inv [OF inv])
  next
    case (Del_Ethertype_Filter i t)
    then show ?thesis
      using step del_ethertype_ring [OF ring] by (auto intro!: on_client_inv [OF inv])
  next
    case (Set_Link_State l sp)
    then show ?thesis
      using step inv update_client_state_inv [OF port(1)] by (auto split: if_splits)
  qed (use step port ring inv in \<open>auto intro!: on_client_inv [OF inv] simp: client_ok_def ring_queue_def split: option.splits\<close>)
qed

section \<open>A packet arriving from the filter\<close>

text \<open>The packet at \<open>b\<close> does not overlap the header of a packet still queued.\<close>

definition fresh :: "addr \<Rightarrow> packet_queue_info_t \<Rightarrow> bool" where
  "fresh b q \<longleftrightarrow> (\<forall>j<32. pq_ptrs q ! j \<noteq> 0 \<longrightarrow> b + 40 \<le> pq_ptrs q ! j \<or> pq_ptrs q ! j + 40 \<le> b)"

text \<open>Memory outside the headers of the queued packets may change in any way.\<close>

definition same_headers :: "mem \<Rightarrow> mem \<Rightarrow> packet_queue_info_t \<Rightarrow> bool" where
  "same_headers m m' q \<longleftrightarrow> (\<forall>j<32. pq_ptrs q ! j \<noteq> 0 \<longrightarrow> (\<forall>f. getf m' (pq_ptrs q ! j) f = getf m (pq_ptrs q ! j) f))"

lemma same_headers_refl [simp]: "same_headers m m q"
  by (simp add: same_headers_def)

lemma same_headers_setf: "fresh b q \<Longrightarrow> same_headers m m' q \<Longrightarrow> same_headers m (setf m' b f v) q"
  by (auto simp: same_headers_def fresh_def getf_setf_apart)

lemma rx_inv_at_mem:
  "rx_inv_at n s \<Longrightarrow> same_headers (sv_mem s) m (sv_rx_lp s) \<Longrightarrow> rx_inv_at n (s\<lparr>sv_mem := m\<rparr>)"
  by (auto simp: rx_inv_at_def counts_ok_def same_headers_def)



section \<open>Runs of the receive side\<close>

text \<open>
  The steps of the tasks on the receive side, in any order: the receiver writes memory outside the
  queued packets, the filter takes a packet, the server offers a packet to its clients, drops packets
  under pressure, serves a client that reads, or serves a configuration call.
\<close>

inductive rx_step :: "rt_server \<Rightarrow> rt_server \<Rightarrow> bool" where
  receive: "same_headers (sv_mem s) m (sv_rx_lp s) \<Longrightarrow> rx_step s (s\<lparr>sv_mem := m\<rparr>)"
| filter_packet: "fresh (mii_get_next_buf incoming) (sv_rx_lp s) \<Longrightarrow>
    rx_step s (snd (mii_ethernet_filter incoming s))"
| incoming: "handle_incoming_packet s = Inr s' \<Longrightarrow> rx_step s s'"
| drop: "drop_lp_packets s = Inr s' \<Longrightarrow> rx_step s s'"
| read: "i < length (sv_rx_clients s) \<Longrightarrow> get_packet i data s = Inr (info, d, s') \<Longrightarrow> rx_step s s'"
| config: "handle_cfg tile_id time e s = Inr (r, s') \<Longrightarrow> rx_step s s'"

inductive rx_run :: "rt_server \<Rightarrow> rt_server \<Rightarrow> bool" where
  start: "rx_run s s"
| step: "rx_run s s1 \<Longrightarrow> rx_step s1 s2 \<Longrightarrow> rx_run s s2"

lemma handle_incoming_none:
  "mii_get_my_next_buf (sv_rx_lp s) (sv_rd_index_lp s) = 0 \<Longrightarrow> handle_incoming_packet s = Inr s"
  by (simp add: handle_incoming_packet_def Let_def)

lemma get_packet_inv:
  assumes inv: "rx_inv_at n s" and i: "i < length (sv_rx_clients s)" and g: "get_packet i data s = Inr (info, d, s')"
  shows "rx_inv_at n s'"
proof (cases "rc_status_update_state (sv_rx_clients s ! i) = STATUS_UPDATE_PENDING")
  case True
  let ?c = "(sv_rx_clients s ! i)\<lparr>rc_status_update_state := STATUS_UPDATE_WAITING\<rparr>"
  let ?s = "s\<lparr>sv_prioritize_rx := sv_prioritize_rx s + 1\<rparr>"
  have "rx_inv_at n (?s\<lparr>sv_rx_clients := (sv_rx_clients ?s)[i := ?c]\<rparr>)"
    using inv i client_ring [OF inv i]
    by (intro rx_inv_at_client) (simp_all add: ring_queue_def client_ok_def)
  then show ?thesis using g True by (auto simp: get_packet_def Let_def)
next
  case False
  have c: "ring4 (sv_rx_clients s ! i)" by (rule client_ring [OF inv i])
  show ?thesis
  proof (cases "client_queue (sv_rx_clients s ! i)")
    case Nil
    then show ?thesis using g False inv c by (auto simp: get_packet_def Let_def has_packet_queue)
  next
    case (Cons x xs)
    let ?b = "pq_ptrs (sv_rx_lp s) ! unat x"
    have hp: "has_packet (sv_rx_clients s ! i)" using Cons c by (simp add: has_packet_queue)
    have slot: "rc_fifo (sv_rx_clients s ! i) ! unat (rc_rd_index (sv_rx_clients s ! i)) = x"
      using oldest_slot(5) [OF inv i _ refl] Cons by simp
    obtain d' len where r: "read_packet (sv_rx_mem s) (sv_mem s) ?b (rc_strip_vlan_tags (sv_rx_clients s ! i)) data = Inr (d', len)"
      using g False hp slot by (auto simp: get_packet_def Let_def)
    show ?thesis using get_packet_reads [OF inv i False Cons refl r] g by (metis sum.inject(2) prod.inject)
  qed
qed



section \<open>Properties\<close>


text \<open>
  C15. A packet the filter has passed is offered to every client in turn: one that wants it and has
  room gets its index at the end of its ring and a notification, one that wants it and has no room
  counts it as dropped, the others are left alone; when nobody takes it its slot is free again.
\<close>

theorem handle_incoming_packet_shares:
  assumes "rx_inv s" and "mii_get_my_next_buf (sv_rx_lp s) (sv_rd_index_lp s) = b" and "b \<noteq> 0"
  shows "\<exists>s'. handle_incoming_packet s = Inr s' \<and> rx_inv s' \<and>
     (\<forall>i<length (sv_rx_clients s). let c = sv_rx_clients s ! i; c' = sv_rx_clients s' ! i in
        (if \<not> client_wants (sv_mem s) b i c then c' = c
         else if client_room c then client_queue c' = client_queue c @ [sv_rd_index_lp s]
         else c' = c\<lparr>rc_dropped_pkt_cnt := rc_dropped_pkt_cnt c + 1\<rparr>)) \<and>
     sv_ready s' = sv_ready s @ filter (takes (sv_mem s) b (sv_rx_clients s)) [0..<length (sv_rx_clients s)] \<and>
     pq_ptrs (sv_rx_lp s') = (if \<exists>i<length (sv_rx_clients s). takes (sv_mem s) b (sv_rx_clients s) i
       then pq_ptrs (sv_rx_lp s) else (pq_ptrs (sv_rx_lp s))[unat (sv_rd_index_lp s) := 0])"
proof -
  let ?cs = "sv_rx_clients s" and ?t = "filter (takes (sv_mem s) b (sv_rx_clients s)) [0..<length (sv_rx_clients s)]"
  obtain n where n: "rx_inv_at n s" using assms(1) by (auto simp: rx_inv_def)
  obtain s' where s': "handle_incoming_packet s = Inr s'" "rx_inv_at (n - 1) s'"
      "sv_rx_clients s' = offer_upto (sv_mem s) b (sv_rd_index_lp s) (length ?cs) ?cs" "sv_ready s' = sv_ready s @ ?t"
      "pq_ptrs (sv_rx_lp s') = (if ?t = [] then (pq_ptrs (sv_rx_lp s))[unat (sv_rd_index_lp s) := 0] else pq_ptrs (sv_rx_lp s))"
    using handle_incoming_inv [OF n assms(2,3) refl] by metis
  have "?t = [] \<longleftrightarrow> \<not> (\<exists>i<length ?cs. takes (sv_mem s) b ?cs i)" by (auto simp: filter_empty_conv)
  moreover have "let c = ?cs ! i; c' = sv_rx_clients s' ! i in
      (if \<not> client_wants (sv_mem s) b i c then c' = c
       else if client_room c then client_queue c' = client_queue c @ [sv_rd_index_lp s]
       else c' = c\<lparr>rc_dropped_pkt_cnt := rc_dropped_pkt_cnt c + 1\<rparr>)" if "i < length ?cs" for i
    using that client_push_queue(1) [OF client_ring [OF n that]] by (simp add: s'(3) offered_at_def)
  ultimately show ?thesis using s' by (intro exI [of _ s']) (auto simp: rx_inv_def)
qed

text \<open>
  C16. A client that reads gets the oldest packet it was offered: its bytes, wherever they lie with
  respect to the wrap of the memory, up to the length of its array, with the length, the corrected
  time and the filter data of the packet. The packet leaves the client's ring, and its queue slot is
  freed exactly when no other client still holds it.
\<close>

theorem get_packet_delivers:
  assumes "rx_inv s" and "i < length (sv_rx_clients s)"
    and "rc_status_update_state (sv_rx_clients s ! i) \<noteq> STATUS_UPDATE_PENDING"
    and "client_queue (sv_rx_clients s ! i) = x # xs" and "b = pq_ptrs (sv_rx_lp s) ! unat x"
    and "mp_ok (sv_rx_mem s) (sv_mem s)" and "pkt_data b = mp_slot (sv_rx_mem s) k" and "k < mp_words (sv_rx_mem s)"
    and "\<not> (rc_strip_vlan_tags (sv_rx_clients s ! i) \<and> getf (sv_mem s) b vlan_tagged_f \<noteq> 0)"
    and "L = min (length data) (unat (getf (sv_mem s) b length_f))" and "L \<le> 4 * mp_words (sv_rx_mem s)"
  shows "\<exists>s' info. get_packet i data s = Inr (info, slot_bytes (sv_rx_mem s) (sv_mem s) k L @ drop L data, s') \<and>
     info = \<lparr>pi_type = ETH_DATA, pi_len = getf (sv_mem s) b length_f,
       pi_timestamp = getf (sv_mem s) b timestamp_f - ps_ingress_ts_latency (sv_port s) ! speed_num (ps_link_speed (sv_port s)),
       pi_src_ifnum = getf (sv_mem s) b src_port_f, pi_filter_data = getf (sv_mem s) b filter_data_f\<rparr> \<and>
     rx_inv s' \<and> client_queue (sv_rx_clients s' ! i) = xs \<and>
     (\<forall>j<length (sv_rx_clients s). j \<noteq> i \<longrightarrow> sv_rx_clients s' ! j = sv_rx_clients s ! j) \<and>
     pq_ptrs (sv_rx_lp s') = (if held (sv_rx_clients s) x = 1
       then (pq_ptrs (sv_rx_lp s))[unat x := 0] else pq_ptrs (sv_rx_lp s))"
proof -
  obtain n where n: "rx_inv_at n s" using assms(1) by (auto simp: rx_inv_def)
  have d: "pkt_data b \<le> mii_get_wrap_ptr (sv_rx_mem s)"
    using slot_in_pool [OF assms(6), of k] by (simp add: assms(7) in_pool_def mii_get_wrap_ptr_def)
  have r: "read_packet (sv_rx_mem s) (sv_mem s) b (rc_strip_vlan_tags (sv_rx_clients s ! i)) data =
      Inr (slot_bytes (sv_rx_mem s) (sv_mem s) k L @ drop L data, getf (sv_mem s) b length_f)"
    using read_packet_plain [OF d assms(9), of data] copy_out_bytes [OF assms(6,8,11)]
    by (simp add: assms(7) flip: assms(10))
  show ?thesis
    by (rule get_packet_reads [OF n assms(2,3,4,5) r])
      (auto simp: rx_inv_def ingress_time_def nth_list_update)
qed

text \<open>
  When the client strips VLAN tags and its array has eight bytes more than it asks for, it gets
  the packet without its tag, and a length four less.
\<close>

theorem get_packet_strips_tag:
  assumes "rx_inv s" and "i < length (sv_rx_clients s)"
    and "rc_status_update_state (sv_rx_clients s ! i) \<noteq> STATUS_UPDATE_PENDING"
    and "client_queue (sv_rx_clients s ! i) = x # xs" and "b = pq_ptrs (sv_rx_lp s) ! unat x"
    and "mp_ok (sv_rx_mem s) (sv_mem s)" and "pkt_data b = mp_slot (sv_rx_mem s) k" and "k + 4 < mp_words (sv_rx_mem s)"
    and "rc_strip_vlan_tags (sv_rx_clients s ! i)" and "getf (sv_mem s) b vlan_tagged_f \<noteq> 0"
    and "L = unat (getf (sv_mem s) b length_f)" and "16 \<le> L" and "L + 8 \<le> length data"
    and "L \<le> 4 * mp_words (sv_rx_mem s)"
  shows "\<exists>s' info d. get_packet i data s = Inr (info, d, s') \<and> length d = length data \<and>
     take (L - 4) d = untagged (slot_bytes (sv_rx_mem s) (sv_mem s) k L) \<and>
     pi_type info = ETH_DATA \<and> unat (pi_len info) = L - 4 \<and>
     rx_inv s' \<and> client_queue (sv_rx_clients s' ! i) = xs"
proof -
  obtain n where n: "rx_inv_at n s" using assms(1) by (auto simp: rx_inv_def)
  have "mp_slot (sv_rx_mem s) k = mp_start (sv_rx_mem s) + 4 * int k" using assms(8) by (simp add: mp_slot_def)
  then have d: "pkt_data b + 16 \<le> mii_get_wrap_ptr (sv_rx_mem s)"
    using assms(7,8) mp_end_words(1) [OF assms(6)] by (simp add: mii_get_wrap_ptr_def)
  have L: "min (length data) (unat (getf (sv_mem s) b length_f)) = L" using assms(11,13) by simp
  obtain d where r: "read_packet (sv_rx_mem s) (sv_mem s) b (rc_strip_vlan_tags (sv_rx_clients s ! i)) data =
      Inr (d, getf (sv_mem s) b length_f - 4)" "length d = length data"
      "take (L - 4) d = untagged (copy_out (sv_rx_mem s) (sv_mem s) (pkt_data b) (int L))"
    using read_packet_strip [OF d assms(9,10), where data = data] assms(12,13) unfolding L by blast
  have out: "copy_out (sv_rx_mem s) (sv_mem s) (pkt_data b) (int L) = slot_bytes (sv_rx_mem s) (sv_mem s) k L"
    using copy_out_bytes [OF assms(6) _ assms(14), of k] assms(8) by (simp add: assms(7))
  have "unat (getf (sv_mem s) b length_f - 4) = L - 4" using assms(11,12) by (simp add: unat_sub word_le_nat_alt)
  moreover obtain s' info where "get_packet i data s = Inr (info, d, s')" "rx_inv_at n s'" "pi_type info = ETH_DATA"
      "pi_len info = getf (sv_mem s) b length_f - 4" "client_queue (sv_rx_clients s' ! i) = xs"
    by (rule get_packet_reads [OF n assms(2,3,4,5) r(1)]) simp
  ultimately show ?thesis using r(2,3) out by (auto simp: rx_inv_def)
qed

text \<open>
  C32. Stripping the tag copies twelve bytes too many: with an array of exactly the length of the
  packet, or anything less than eight bytes more, the server writes behind the end of the client's array.
\<close>

theorem strip_vlan_overruns:
  assumes "has_packet (sv_rx_clients s ! i)"
    and "rc_status_update_state (sv_rx_clients s ! i) \<noteq> STATUS_UPDATE_PENDING"
    and "b = pq_ptrs (sv_rx_lp s) ! unat (rc_fifo (sv_rx_clients s ! i) ! unat (rc_rd_index (sv_rx_clients s ! i)))"
    and "rc_strip_vlan_tags (sv_rx_clients s ! i)" and "getf (sv_mem s) b vlan_tagged_f \<noteq> 0"
    and "L = min (length data) (unat (getf (sv_mem s) b length_f))"
    and "pkt_data b + int L \<le> mii_get_wrap_ptr (sv_rx_mem s)" and "length data < L + 8"
  shows "get_packet i data s = Inl Out_Of_Bounds"
proof -
  have "read_packet (sv_rx_mem s) (sv_mem s) b (rc_strip_vlan_tags (sv_rx_clients s ! i)) data = Inl Out_Of_Bounds"
    using assms(6,7,8) by (intro read_packet_strip_overrun [OF assms(4,5)]) auto
  then show ?thesis using assms(1,2) by (simp add: get_packet_def Let_def flip: assms(3))
qed

section \<open>High priority packets\<close>

definition hp_wanted :: "mem \<Rightarrow> addr \<Rightarrow> bool" where
  "hp_wanted m b \<longleftrightarrow> (let r = getf m b filter_result_f
     in r \<noteq> 0 \<and> ethernet_filter_result_is_hp r \<noteq> 0 \<and> r AND 1 \<noteq> 0)"

text \<open>What \<open>send_hp\<close> puts on the channel for the packet at \<open>b\<close>.\<close>

definition hp_message :: "rt_server \<Rightarrow> addr \<Rightarrow> ethernet_packet_info_t \<times> u8 list" where
  "hp_message s b = last (sv_hp_out (send_hp s b))"

lemma send_hp_message: "send_hp s b = s\<lparr>sv_hp_out := sv_hp_out s @ [hp_message s b]\<rparr>"
  by (simp add: hp_message_def send_hp_def Let_def split: prod.split)

lemma hp_message_frame [simp]:
  "hp_message (s\<lparr>sv_hp_out := h\<rparr>) b = hp_message s b" "hp_message (s\<lparr>sv_rx_hp := q, sv_rd_index_hp := i\<rparr>) b = hp_message s b"
  by (simp_all add: hp_message_def send_hp_def ingress_time_def Let_def split: prod.split)

lemma hp_loop_step:
  "handle_incoming_hp_packets s =
     (let b = mii_get_my_next_buf (sv_rx_hp s) (sv_rd_index_hp s)
      in if b = 0 then Some s
         else Option.bind (mii_free_index (sv_rx_hp s) (sv_rd_index_hp s))
           (\<lambda>(q, i). handle_incoming_hp_packets
              (s\<lparr>sv_hp_out := sv_hp_out s @ (if hp_wanted (sv_mem s) b then [hp_message s b] else []),
                 sv_rx_hp := q, sv_rd_index_hp := i\<rparr>)))"
  by (subst handle_incoming_hp_packets.simps) (simp add: Let_def hp_wanted_def send_hp_message)

lemma hp_queue_empty:
  assumes ok: "pq_ok q" and room: "\<not> mii_packet_queue_full q"
  shows "mii_get_my_next_buf q (pq_rd_index q) = (case pq_items q of [] \<Rightarrow> 0 | p # _ \<Rightarrow> p)"
proof (cases "pq_rd_index q = pq_wr_index q")
  case True
  then have "mii_get_next_buf q = 0" using room by (simp add: mii_packet_queue_full_def mii_get_next_buf_def)
  then show ?thesis using True pq_items_empty_iff [OF ok] by (simp add: mii_get_my_next_buf_def)
next
  case False
  then show ?thesis using pq_front_items [OF ok] by (simp add: mii_get_my_next_buf_def mii_get_next_buf_def)
qed

lemma hp_drain:
  assumes "pq_ok (sv_rx_hp s)" "\<not> mii_packet_queue_full (sv_rx_hp s)" "sv_rd_index_hp s = pq_rd_index (sv_rx_hp s)"
    and "pq_items (sv_rx_hp s) = bs"
  shows "\<exists>q. handle_incoming_hp_packets s = Some (s\<lparr>sv_rx_hp := q, sv_rd_index_hp := pq_rd_index q,
       sv_hp_out := sv_hp_out s @ map (hp_message s) (filter (hp_wanted (sv_mem s)) bs)\<rparr>) \<and>
     pq_ok q \<and> pq_items q = [] \<and> \<not> mii_packet_queue_full q"
  using assms
proof (induction bs arbitrary: s)
  case Nil
  then have "mii_get_my_next_buf (sv_rx_hp s) (sv_rd_index_hp s) = 0" by (simp add: hp_queue_empty)
  then have "handle_incoming_hp_packets s = Some s" by (subst hp_loop_step) simp
  then show ?case using Nil by (intro exI [of _ "sv_rx_hp s"]) simp
next
  case (Cons b bs)
  let ?q = "sv_rx_hp s" and ?m = "sv_mem s"
  have b: "mii_get_my_next_buf ?q (sv_rd_index_hp s) = b" "b \<noteq> 0"
    using Cons.prems hp_queue_empty [of ?q] pq_items_nonzero [of b ?q] by simp_all
  obtain q where f: "mii_free_index ?q (pq_rd_index ?q) = Some (q, pq_rd_index q)" "pq_ok q" "pq_items q = bs"
  proof -
    from Cons.prems(1) obtain q where "mii_free_current ?q = Some q" "pq_ok q" "pq_items q = tl (pq_items ?q)"
      by (rule pq_free_current)
    moreover obtain q2 where "mii_free_index ?q (pq_rd_index ?q) = Some (q2, pq_rd_index q2)"
      using pq_free_oldest [OF Cons.prems(1)] by blast
    ultimately show ?thesis using that Cons.prems(4) by (auto simp: mii_free_current_def)
  qed
  have fields: "pq_ptrs q = (pq_ptrs ?q)[unat (pq_rd_index ?q) := 0]" "pq_wr_index q = pq_wr_index ?q"
    using mii_free_index_fields [OF f(1)] by simp_all
  have "\<not> mii_packet_queue_full q"
    using Cons.prems(1,2)
    by (cases "pq_wr_index q = pq_rd_index ?q")
      (auto simp: mii_packet_queue_full_def fields pq_ok_def word_unat_eq_iff)
  let ?s = "s\<lparr>sv_hp_out := sv_hp_out s @ (if hp_wanted ?m b then [hp_message s b] else []),
    sv_rx_hp := q, sv_rd_index_hp := pq_rd_index q\<rparr>"
  have "\<exists>q'. handle_incoming_hp_packets ?s = Some (?s\<lparr>sv_rx_hp := q', sv_rd_index_hp := pq_rd_index q',
       sv_hp_out := sv_hp_out ?s @ map (hp_message ?s) (filter (hp_wanted (sv_mem ?s)) bs)\<rparr>) \<and>
     pq_ok q' \<and> pq_items q' = [] \<and> \<not> mii_packet_queue_full q'"
    using f \<open>\<not> mii_packet_queue_full q\<close> by (intro Cons.IH) simp_all
  moreover have "handle_incoming_hp_packets s = handle_incoming_hp_packets ?s"
    using b Cons.prems(3) f(1) by (subst hp_loop_step) (simp add: Let_def)
  moreover have "hp_message ?s = hp_message s"
    by (intro ext) (simp add: hp_message_def send_hp_def ingress_time_def Let_def split: prod.split)
  ultimately show ?case by (cases "hp_wanted ?m b") simp_all
qed

text \<open>
  The high priority loop ends and empties its queue (unless that is full): every packet marked
  for the high priority client is put on the channel, in order, and the client that receives it with
  \<open>ethernet_receive_hp_packet\<close> gets exactly its bytes and its length, although the packet is sent in
  two parts when it wraps and each part travels backwards.
\<close>

theorem hp_packets_reach_client:
  assumes "pq_ok (sv_rx_hp s)" and "\<not> mii_packet_queue_full (sv_rx_hp s)"
    and "sv_rd_index_hp s = pq_rd_index (sv_rx_hp s)" and "mp_ok (sv_rx_mem s) (sv_mem s)"
    and "\<forall>b\<in>set (pq_items (sv_rx_hp s)). pkt_data b = mp_slot (sv_rx_mem s) (slot_of b) \<and>
      slot_of b < mp_words (sv_rx_mem s) \<and> unat (getf (sv_mem s) b length_f) < 2 ^ 16 \<and>
      unat (getf (sv_mem s) b length_f) \<le> 4 * mp_words (sv_rx_mem s)"
  shows "\<exists>s'. handle_incoming_hp_packets s = Some s' \<and> pq_items (sv_rx_hp s') = [] \<and>
     sv_hp_out s' = sv_hp_out s @ map (hp_message s) (filter (hp_wanted (sv_mem s)) (pq_items (sv_rx_hp s))) \<and>
     (\<forall>b\<in>set (pq_items (sv_rx_hp s)). \<exists>info. pi_len info = getf (sv_mem s) b length_f \<and> pi_type info = ETH_DATA \<and>
        ethernet_receive_hp_packet (hp_message s b) =
          ((slot_bytes (sv_rx_mem s) (sv_mem s) (slot_of b) (unat (getf (sv_mem s) b length_f)), info), []))"
proof -
  have recv: "\<exists>info. pi_len info = getf (sv_mem s) b length_f \<and> pi_type info = ETH_DATA \<and>
      ethernet_receive_hp_packet (hp_message s b) =
        ((slot_bytes (sv_rx_mem s) (sv_mem s) (slot_of b) (unat (getf (sv_mem s) b length_f)), info), [])"
    if "b \<in> set (pq_items (sv_rx_hp s))" for b
  proof -
    let ?p = "sv_rx_mem s" and ?m = "sv_mem s" and ?len = "getf (sv_mem s) b length_f"
    note b = assms(5) [rule_format, OF that]
    have d: "pkt_data b \<le> mii_get_wrap_ptr ?p"
      using slot_in_pool [OF assms(4), of "slot_of b"] b by (simp add: in_pool_def mii_get_wrap_ptr_def)
    obtain w ch where o: "hp_out ?p ?m (pkt_data b) (uint ?len) = (w, ch)"
      by (cases "hp_out ?p ?m (pkt_data b) (uint ?len)")
    define info where "info = \<lparr>pi_type = ETH_DATA, pi_len = w, pi_timestamp = ingress_time s ?m b,
      pi_src_ifnum = getf ?m b src_port_f, pi_filter_data = getf ?m b filter_data_f\<rparr>"
    have msg: "hp_message s b = (info, ch @ [])"
      by (simp add: hp_message_def send_hp_def o info_def Let_def)
    have "int (unat ?len) < 2 ^ 16" using b by (simp del: of_nat_unat)
    then have "uint ?len < 2 ^ 16" by simp
    then have "ethernet_receive_hp_packet (info, ch @ []) =
        ((copy_out ?p ?m (pkt_data b) (uint ?len), info\<lparr>pi_len := of_int (uint ?len)\<rparr>), [])"
      by (intro hp_out_receives [OF d _ _ o]) (simp_all add: info_def)
    moreover have "copy_out ?p ?m (pkt_data b) (uint ?len) = slot_bytes ?p ?m (slot_of b) (unat ?len)"
      using copy_out_bytes [OF assms(4), of "slot_of b" "unat ?len"] b by simp
    ultimately show ?thesis unfolding msg by (intro exI [of _ "info\<lparr>pi_len := ?len\<rparr>"]) (simp add: info_def)
  qed
  from hp_drain [OF assms(1,2,3) refl] recv show ?thesis by auto
qed

section \<open>A queue that fills up\<close>

lemma stuck_empty:
  assumes inv: "rx_inv_at 32 s"
  shows "mii_get_my_next_buf (sv_rx_lp s) (sv_rd_index_lp s) = 0" "mii_packet_queue_full (sv_rx_lp s)"
    "\<forall>i<length (sv_rx_clients s). client_queue (sv_rx_clients s ! i) = []"
proof -
  let ?q = "sv_rx_lp s" and ?my = "sv_rd_index_lp s"
  show get: "mii_get_my_next_buf ?q ?my = 0" using pending_packet [OF inv] by fastforce
  have my: "unat ?my < 32" and wr: "unat (pq_wr_index ?q) = unat ?my"
    and used: "\<forall>j\<in>pending ?my 32. pq_ptrs ?q ! j \<noteq> 0"
    using inv by (simp_all add: rx_inv_at_def)
  have all: "j \<in> pending ?my 32" if "j < 32" for j
    using ring_dist_slot [OF my that] ring_dist_below [of 32 "unat ?my" j]
    by (auto simp: pending_def intro!: image_eqI [of _ _ "ring_dist 32 (unat ?my) j"])
  show "mii_packet_queue_full ?q" using used all [OF my] by (simp add: mii_packet_queue_full_def wr)
  show "\<forall>i<length (sv_rx_clients s). client_queue (sv_rx_clients s ! i) = []"
  proof (intro allI impI)
    fix i assume i: "i < length (sv_rx_clients s)"
    have "x \<notin> set (client_queue (sv_rx_clients s ! i))" for x
    proof
      assume x: "x \<in> set (client_queue (sv_rx_clients s ! i))"
      then have "unat x < 32" using inv i by (auto simp: rx_inv_at_def)
      moreover have "\<forall>j<32. held (sv_rx_clients s) (of_nat j) = 0"
        using inv all by (simp add: rx_inv_at_def counts_ok_def)
      ultimately have "held (sv_rx_clients s) (of_nat (unat x)) = 0" by blast
      then show False using held_member [OF i x] by simp
    qed
    then show "client_queue (sv_rx_clients s ! i) = []" by (metis list.set_intros(1) neq_Nil_conv)
  qed
qed

lemma filter_full:
  assumes inv: "rx_inv_at n s" and full: "mii_packet_queue_full (sv_rx_lp s)"
    and fresh: "fresh (mii_get_next_buf incoming) (sv_rx_lp s)"
  shows "rx_inv_at n (snd (mii_ethernet_filter incoming s))" "sv_rx_lp (snd (mii_ethernet_filter incoming s)) = sv_rx_lp s"
proof -
  let ?b = "mii_get_next_buf incoming"
  have set4: "same_headers (sv_mem s) (setf (setf (setf (setf (sv_mem s) ?b f1 v1) ?b f2 v2) ?b f3 v3) ?b f4 v4) (sv_rx_lp s)"
    for f1 v1 f2 v2 f3 v3 f4 v4 by (intro same_headers_setf fresh same_headers_refl)
  have "rx_inv_at n (s\<lparr>sv_mem := m, sv_rx_hp := h\<rparr>)" if "same_headers (sv_mem s) m (sv_rx_lp s)" for m h
    using rx_inv_at_mem [OF inv that] by (simp add: rx_inv_at_def)
  then show "rx_inv_at n (snd (mii_ethernet_filter incoming s))"
    unfolding mii_ethernet_filter_def Let_def
    by (simp add: inv full rx_inv_at_mem [OF inv] set4 split: prod.split)
  show "sv_rx_lp (snd (mii_ethernet_filter incoming s)) = sv_rx_lp s"
    unfolding mii_ethernet_filter_def Let_def by (simp add: full split: prod.split)
qed

lemma handle_cfg_lp: "handle_cfg tile_id time e s = Inr (r, s') \<Longrightarrow> sv_rx_lp s' = sv_rx_lp s"
  by (cases e) (auto simp: on_client_def update_client_state_def split: option.splits if_splits)

lemma stuck_step:
  assumes step: "rx_step s s'" and inv: "rx_inv_at 32 s"
  shows "rx_inv_at 32 s' \<and> sv_rx_lp s' = sv_rx_lp s"
proof -
  note stuck = stuck_empty [OF inv]
  from step show ?thesis
  proof cases
    case (receive m)
    then show ?thesis using rx_inv_at_mem [OF inv] by simp
  next
    case (filter_packet inc)
    then show ?thesis using filter_full [OF inv stuck(2)] by simp
  next
    case incoming
    then show ?thesis using handle_incoming_none [OF stuck(1)] inv by simp
  next
    case drop
    have "\<not> has_packet c" if "c \<in> set (sv_rx_clients s)" for c
      using that stuck(3) client_ring [OF inv] by (auto simp: in_set_conv_nth has_packet_queue)
    then have "fold (\<lambda>i r. bind r (drop_oldest i)) [0..<k] (Inr s) = Inr s" if "k \<le> length (sv_rx_clients s)" for k
      using that by (induction k) (simp_all add: drop_oldest_def)
    then show ?thesis using drop inv by (simp add: drop_lp_packets_def)
  next
    case (read i data info d)
    have "\<not> has_packet (sv_rx_clients s ! i)"
      using read(1) stuck(3) client_ring [OF inv] by (simp add: has_packet_queue)
    then have "sv_rx_lp s' = sv_rx_lp s" using read(2) by (auto simp: get_packet_def Let_def split: if_splits)
    then show ?thesis using get_packet_inv [OF inv read] by simp
  next
    case (config tile_id time e r)
    then show ?thesis using handle_cfg_inv [OF inv config] handle_cfg_lp [OF config] by simp
  qed
qed

lemma stuck_run: "rx_run s s' \<Longrightarrow> rx_inv_at 32 s \<Longrightarrow> rx_inv_at 32 s' \<and> sv_rx_lp s' = sv_rx_lp s"
  by (induction rule: rx_run.induct) (use stuck_step in auto)

text \<open>
  C33. Once the low priority queue holds 32 packets the server has not looked at, it is stuck: its read
  and write index are equal, which the server takes for an empty queue and the filter for a full one.
  From then on, whatever the tasks do, no packet enters or leaves the queue, and every client that asks
  is told that there is no data.
\<close>

theorem full_queue_is_stuck:
  assumes "rx_run s s'" and "rx_inv_at 32 s"
  shows "sv_rx_lp s' = sv_rx_lp s \<and> handle_incoming_packet s' = Inr s' \<and> mii_packet_queue_full (sv_rx_lp s') \<and>
     (\<forall>i<length (sv_rx_clients s'). \<not> has_packet (sv_rx_clients s' ! i) \<and>
        (rc_status_update_state (sv_rx_clients s' ! i) \<noteq> STATUS_UPDATE_PENDING \<longrightarrow>
         (\<exists>s2. get_packet i data s' = Inr (no_info, data, s2))))"
proof -
  have inv: "rx_inv_at 32 s'" and lp: "sv_rx_lp s' = sv_rx_lp s" using stuck_run [OF assms] by simp_all
  note stuck = stuck_empty [OF inv]
  have "\<not> has_packet (sv_rx_clients s' ! i)" if "i < length (sv_rx_clients s')" for i
    using that stuck(3) client_ring [OF inv that] by (simp add: has_packet_queue)
  then show ?thesis
    using lp handle_incoming_none [OF stuck(1)] stuck(2) by (auto simp: get_packet_def Let_def)
qed

end
