(* ===== verification/Rt_Share_Examples.thy ===== *)
theory Rt_Share_Examples
  imports Rt_Share
begin

text \<open>
  Concrete servers at which the receive guarantees of \<open>Rt_Share\<close> apply: a packet of 64 bytes waiting
  for two clients, the same packet held by both, with and without a VLAN tag, a high priority packet,
  and a queue of 32 packets nobody has looked at.
\<close>

abbreviation eb :: addr where "eb \<equiv> 0x1100"

definition rx_mem_ex :: "u32 \<Rightarrow> u32 \<Rightarrow> mem" where
  "rx_mem_ex result tag = (\<lambda>a. if a mod 8 = 0 then 0x03020100 else 0x07060504)(0x1800 := 0x1000, eb := 64,
     eb + 8 := result, eb + 20 := 1, eb + 32 := tag)"

definition rx_client_ex :: rx_client_state_t where
  "rx_client_ex = \<lparr>rc_dropped_pkt_cnt = 0, rc_rd_index = 0, rc_wr_index = 0, rc_fifo = [0, 0, 0, 0],
     rc_status_update_state = STATUS_UPDATE_WAITING, rc_num_etype_filters = 0, rc_strip_vlan_tags = True,
     rc_etype_filters = [0, 0]\<rparr>"

definition lp_ex :: packet_queue_info_t where
  "lp_ex = mii_add_packet mii_init_packet_queue eb"

definition waiting_ex :: rt_server where
  "waiting_ex = example_server\<lparr>sv_mem := rx_mem_ex 3 0, sv_rx_mem := server_pool 0x1000, sv_rx_lp := lp_ex,
     sv_rd_index_lp := 0, sv_rx_clients := [rx_client_ex, rx_client_ex], sv_ready := []\<rparr>"

definition held_ex :: "u32 \<Rightarrow> rt_server" where
  "held_ex tag = waiting_ex\<lparr>sv_mem := rx_mem_ex 3 tag, sv_rd_index_lp := 1,
     sv_rx_clients := [client_push rx_client_ex 0, client_push rx_client_ex 0]\<rparr>"

definition stuck_queue_ex :: packet_queue_info_t where
  "stuck_queue_ex = \<lparr>pq_rd_index = 0, pq_wr_index = 0, pq_ptrs = map (\<lambda>i. 0x10000 + 64 * int i) [0..<32]\<rparr>"

definition stuck_ex :: rt_server where
  "stuck_ex = waiting_ex\<lparr>sv_rx_lp := stuck_queue_ex\<rparr>"

definition hp_ex :: rt_server where
  "hp_ex = waiting_ex\<lparr>sv_mem := rx_mem_ex 0x80000001 0, sv_rx_hp := lp_ex, sv_rd_index_hp := 0\<rparr>"

lemma rx_client_ex_ring: "ring4 rx_client_ex" "client_queue rx_client_ex = []" "client_room rx_client_ex"
  by (simp_all add: rx_client_ex_def client_ok_def ring_queue_def ring_dist_def ring_room_def increment_and_wrap_to_zero_def)

lemma pushed_ex: "ring4 (client_push rx_client_ex 0)" "client_queue (client_push rx_client_ex 0) = [0]"
  using client_push_queue [OF rx_client_ex_ring(1,3), of 0] by (simp_all add: rx_client_ex_ring(2))

lemma init_room: "\<not> mii_packet_queue_full mii_init_packet_queue"
  by (simp add: mii_packet_queue_full_def mii_init_packet_queue_def)

lemma lp_ex: "pq_ok lp_ex" "pq_items lp_ex = [eb]" "pq_ptrs lp_ex = (replicate 32 0)[0 := eb]"
    "pq_rd_index lp_ex = 0" "pq_wr_index lp_ex = 1" "\<not> mii_packet_queue_full lp_ex"
  using pq_add [OF conjunct1 [OF pq_init] init_room, of eb] pq_init
  by (simp_all add: lp_ex_def mii_add_packet_def mii_init_packet_queue_def increment_and_wrap_power_of_2_def
      mii_packet_queue_full_def)

lemma lp_ex_apart: "apart lp_ex"
  by (auto simp: apart_def lp_ex(3) nth_list_update split: if_splits)

lemma rx_mem_ex_fields: "rx_mem_ex r t 0x1800 = 0x1000" "getf (rx_mem_ex r t) eb length_f = 64"
    "getf (rx_mem_ex r t) eb filter_result_f = r" "getf (rx_mem_ex r t) eb tcount_f = 1"
    "getf (rx_mem_ex r t) eb vlan_tagged_f = t"
  by (simp_all add: rx_mem_ex_def getf_def)

lemma ex_pool: "mp_ok (server_pool 0x1000) (rx_mem_ex r t)" "pkt_data eb = mp_slot (server_pool 0x1000) 74"
    "mp_words (server_pool 0x1000) = 512" "mii_get_wrap_ptr (server_pool 0x1000) = 0x1800"
  by (rule server_pool_ok(1)) (simp_all add: rx_mem_ex_fields pkt_data_def mp_slot_def server_pool_def mp_words_def mii_get_wrap_ptr_def)

lemma waiting_ex_fields: "sv_rx_lp waiting_ex = lp_ex" "sv_rd_index_lp waiting_ex = 0"
    "sv_rx_clients waiting_ex = [rx_client_ex, rx_client_ex]" "sv_mem waiting_ex = rx_mem_ex 3 0" "sv_ready waiting_ex = []"
  by (simp_all add: waiting_ex_def)

lemma held_empty: "held [rx_client_ex, rx_client_ex] j = 0"
  by (simp add: held_at_def rx_client_ex_ring)

lemma waiting_ex_inv: "rx_inv_at 1 waiting_ex"
  by (auto simp: rx_inv_at_def waiting_ex_fields lp_ex lp_ex_apart rx_client_ex_ring pending_def counts_ok_def held_empty
      nth_list_update)

lemma held_ex_fields: "sv_rx_lp (held_ex t) = lp_ex" "sv_rd_index_lp (held_ex t) = 1" "sv_mem (held_ex t) = rx_mem_ex 3 t"
    "sv_rx_clients (held_ex t) = [client_push rx_client_ex 0, client_push rx_client_ex 0]"
    "sv_rx_mem (held_ex t) = server_pool 0x1000"
  by (simp_all add: held_ex_def waiting_ex_def)

lemma held_pushed: "held [client_push rx_client_ex 0, client_push rx_client_ex 0] j = (if j = 0 then 2 else 0)"
  by (simp add: held_at_def pushed_ex)

lemma held_ex_inv: "rx_inv_at 0 (held_ex t)"
proof -
  have "counts_ok (rx_mem_ex 3 t) lp_ex {} [client_push rx_client_ex 0, client_push rx_client_ex 0]"
    unfolding counts_ok_def
  proof (intro allI impI)
    fix j :: nat assume "j < 32"
    then have "(of_nat j :: u32) = 0 \<longleftrightarrow> j = 0" by (auto simp: word_unat_eq_iff unat_of_nat)
    then show "held [client_push rx_client_ex 0, client_push rx_client_ex 0] (of_nat j) =
        (if j \<in> {} \<or> pq_ptrs lp_ex ! j = 0 then 0 else unat (getf (rx_mem_ex 3 t) (pq_ptrs lp_ex ! j) tcount_f) + 1)"
      using \<open>j < 32\<close> by (simp add: held_pushed lp_ex(3) nth_list_update rx_mem_ex_fields)
  qed
  then show ?thesis
    by (simp add: rx_inv_at_def held_ex_fields lp_ex lp_ex_apart pushed_ex)
qed

lemma ex_next: "mii_get_my_next_buf (sv_rx_lp waiting_ex) (sv_rd_index_lp waiting_ex) = eb"
  by (simp add: waiting_ex_fields mii_get_my_next_buf_def lp_ex)

lemma ex_inv: "rx_inv waiting_ex" "rx_inv (held_ex t)"
  using waiting_ex_inv held_ex_inv by (auto simp: rx_inv_def)


lemma ex_takes: "client_wants (rx_mem_ex 3 0) eb 0 rx_client_ex" "client_wants (rx_mem_ex 3 0) eb 1 rx_client_ex"
  by (simp_all add: client_wants_def rx_mem_ex_fields) (simp_all add: rx_client_ex_def)

lemma handle_incoming_packet_shares_witness:
  "\<exists>s'. handle_incoming_packet waiting_ex = Inr s' \<and> rx_inv s' \<and>
     client_queue (sv_rx_clients s' ! 0) = [0] \<and> client_queue (sv_rx_clients s' ! 1) = [0] \<and> sv_ready s' = [0, 1]"
proof -
  have t: "takes (rx_mem_ex 3 0) eb [rx_client_ex, rx_client_ex] 0" "takes (rx_mem_ex 3 0) eb [rx_client_ex, rx_client_ex] 1"
    using ex_takes rx_client_ex_ring(3) by (simp_all add: takes_at_def)
  have two: "[0..<2] = [0, 1]" by (simp add: upt_rec)
  obtain s' where s': "handle_incoming_packet waiting_ex = Inr s'" "rx_inv s'"
    "\<forall>i<length (sv_rx_clients waiting_ex). let c = sv_rx_clients waiting_ex ! i; c' = sv_rx_clients s' ! i in
        (if \<not> client_wants (sv_mem waiting_ex) eb i c then c' = c
         else if client_room c then client_queue c' = client_queue c @ [sv_rd_index_lp waiting_ex]
         else c' = c\<lparr>rc_dropped_pkt_cnt := rc_dropped_pkt_cnt c + 1\<rparr>)"
    "sv_ready s' = sv_ready waiting_ex @ filter (takes (sv_mem waiting_ex) eb (sv_rx_clients waiting_ex))
       [0..<length (sv_rx_clients waiting_ex)]"
    using handle_incoming_packet_shares [OF ex_inv(1) ex_next] by auto
  have "client_queue (sv_rx_clients s' ! 0) = [0]" "client_queue (sv_rx_clients s' ! 1) = [0]"
    using s'(3) [THEN spec, of 0] s'(3) [THEN spec, of 1] ex_takes rx_client_ex_ring
    by (simp_all add: waiting_ex_fields Let_def)
  moreover have "sv_ready s' = [0, 1]" using s'(4) t by (simp add: waiting_ex_fields two numeral_2_eq_2)
  ultimately show ?thesis using s'(1,2) by blast
qed

text \<open>A client with an array of 100 bytes reads the untagged packet, then the tagged one.\<close>

lemma held_ex_client:
  "sv_rx_clients (held_ex t) ! 0 = client_push rx_client_ex 0" "client_queue (sv_rx_clients (held_ex t) ! 0) = 0 # []"
  "rc_status_update_state (sv_rx_clients (held_ex t) ! 0) \<noteq> STATUS_UPDATE_PENDING"
  "rc_strip_vlan_tags (sv_rx_clients (held_ex t) ! 0)" "pq_ptrs (sv_rx_lp (held_ex t)) ! unat 0 = eb"
  "has_packet (sv_rx_clients (held_ex t) ! 0)" "length (sv_rx_clients (held_ex t)) = 2"
  "rc_fifo (sv_rx_clients (held_ex t) ! 0) ! unat (rc_rd_index (sv_rx_clients (held_ex t) ! 0)) = 0"
  using pushed_ex
  by (simp_all add: held_ex_fields lp_ex has_packet_queue)
    (simp_all add: ring_push_def rx_client_ex_def)

lemma get_packet_delivers_witness:
  "\<exists>s' info. get_packet 0 (replicate 100 0) (held_ex 0) =
     Inr (info, slot_bytes (server_pool 0x1000) (rx_mem_ex 3 0) 74 64 @ replicate 36 0, s') \<and>
     pi_len info = 64 \<and> rx_inv s' \<and> client_queue (sv_rx_clients s' ! 0) = []"
  using get_packet_delivers [OF ex_inv(2), of 0 0 0 "[]" eb 74 64 "replicate 100 0"] held_ex_client [of 0] ex_pool
  by (auto simp: held_ex_fields rx_mem_ex_fields)

lemma get_packet_strips_tag_witness:
  "\<exists>s' info d. get_packet 0 (replicate 72 0) (held_ex 1) = Inr (info, d, s') \<and>
     take 60 d = untagged (slot_bytes (server_pool 0x1000) (rx_mem_ex 3 1) 74 64) \<and> unat (pi_len info) = 60"
  using get_packet_strips_tag [OF ex_inv(2), of 0 1 0 "[]" eb 74 64 "replicate 72 0"] held_ex_client [of 1] ex_pool
  by (auto simp: held_ex_fields rx_mem_ex_fields)

lemma strip_vlan_overruns_witness:
  "length (replicate 64 (0 :: u8)) = unat (getf (sv_mem (held_ex 1)) eb length_f) \<and>
     get_packet 0 (replicate 64 0) (held_ex 1) = Inl Out_Of_Bounds"
proof -
  have "get_packet 0 (replicate 64 0) (held_ex 1) = Inl Out_Of_Bounds"
    by (rule strip_vlan_overruns [where b = eb and L = 64])
      (use held_ex_client [of 1] in \<open>simp_all add: held_ex_fields rx_mem_ex_fields ex_pool pkt_data_def\<close>)
  then show ?thesis by (simp add: held_ex_fields rx_mem_ex_fields)
qed

lemma hp_ex_fields: "sv_rx_hp hp_ex = lp_ex" "sv_rd_index_hp hp_ex = 0" "sv_mem hp_ex = rx_mem_ex 0x80000001 0"
    "sv_rx_mem hp_ex = server_pool 0x1000" "sv_hp_out hp_ex = []"
  by (simp_all add: hp_ex_def waiting_ex_def) (simp add: example_server_def)

lemma hp_packets_reach_client_witness:
  "\<exists>s'. handle_incoming_hp_packets hp_ex = Some s' \<and> pq_items (sv_rx_hp s') = [] \<and>
     sv_hp_out s' = [hp_message hp_ex eb] \<and> (\<exists>info. pi_len info = 64 \<and> ethernet_receive_hp_packet (hp_message hp_ex eb) =
        ((slot_bytes (server_pool 0x1000) (rx_mem_ex 0x80000001 0) 74 64, info), []))"
proof -
  have "hp_wanted (rx_mem_ex 0x80000001 0) eb"
    by (simp add: hp_wanted_def rx_mem_ex_fields ethernet_filter_result_is_hp_def Let_def drop_bit_word_numeral)
  then show ?thesis
    using hp_packets_reach_client [of hp_ex "\<lambda>_. 74"] ex_pool
    by (auto simp: hp_ex_fields lp_ex rx_mem_ex_fields)
qed

lemma stuck_ex_inv: "rx_inv_at 32 stuck_ex"
proof -
  have len: "length (pq_ptrs stuck_queue_ex) = 32" by (simp add: stuck_queue_ex_def)
  have nth: "pq_ptrs stuck_queue_ex ! j = 0x10000 + 64 * int j" if "j < 32" for j
    using that by (simp add: stuck_queue_ex_def)
  have ring: "pq_ring stuck_queue_ex ! k \<noteq> 0" if "k < 32" for k
    using that by (simp add: pq_ring_nth [OF len] nth)
  have ok: "pq_ok stuck_queue_ex \<and> pq_used stuck_queue_ex = 32"
    by (rule pq_okI) (use ring len in \<open>simp_all add: stuck_queue_ex_def\<close>)
  have ap: "apart stuck_queue_ex"
    unfolding apart_def
  proof (intro allI impI)
    fix i j :: nat assume "i < 32" "j < 32" "i \<noteq> j"
    moreover from \<open>i \<noteq> j\<close> have "int i + 1 \<le> int j \<or> int j + 1 \<le> int i" by linarith
    ultimately show "pq_ptrs stuck_queue_ex ! i + 40 \<le> pq_ptrs stuck_queue_ex ! j \<or>
        pq_ptrs stuck_queue_ex ! j + 40 \<le> pq_ptrs stuck_queue_ex ! i"
      by (auto simp: nth)
  qed
  have P: "pending 0 32 = {..<32}" by (force simp: pending_def)
  have f: "sv_rx_lp stuck_ex = stuck_queue_ex" "sv_rd_index_lp stuck_ex = 0"
      "sv_rx_clients stuck_ex = [rx_client_ex, rx_client_ex]"
    by (simp_all add: stuck_ex_def waiting_ex_fields)
  have c: "counts_ok m stuck_queue_ex {..<32} [rx_client_ex, rx_client_ex]" for m
    by (simp add: counts_ok_def held_empty)
  have u: "\<forall>j\<in>{..<32}. pq_ptrs stuck_queue_ex ! j \<noteq> 0" by (simp add: nth)
  have w: "pq_wr_index stuck_queue_ex = 0" by (simp add: stuck_queue_ex_def)
  show ?thesis
    unfolding rx_inv_at_def f P using ok ap c u by (simp add: rx_client_ex_ring w)
qed

lemma full_queue_is_stuck_witness:
  "handle_incoming_packet stuck_ex = Inr stuck_ex \<and> mii_packet_queue_full (sv_rx_lp stuck_ex) \<and>
     (\<exists>s2. get_packet 0 [] stuck_ex = Inr (no_info, [], s2))"
  using full_queue_is_stuck [OF rx_run.start stuck_ex_inv, of "[]"]
  by (auto simp: stuck_ex_def waiting_ex_fields rx_client_ex_def)

end
