(* ===== verification/Mii_Tx_Pins.thy ===== *)
theory Mii_Tx_Pins
  imports Mii_Tx Packet_Queue Ts_Queue Client_State
begin

text \<open>
  The transmit task of the 10/100 MACs, \<open>mii_master_tx_pins\<close> of \<^verbatim>\<open>lib_ethernet/src/mii_master.xc\<close>:
  the choice between the high priority queue, under the credit of the 802.1Qav shaper, and the low
  priority queue, the transmission, the timestamp and the release of the packet. One turn of its loop
  is a function; \<open>now\<close> is what the credit timer reads in it and \<open>clk\<close> what the other timer reads.
\<close>

section \<open>The loop\<close>

record tx_pins =
  tp_credit :: u32
  tp_credit_time :: u32
  tp_ifg_time :: u32
  tp_mem :: mem
  tp_packets_lp :: packet_queue_info_t
  tp_packets_hp :: packet_queue_info_t
  tp_ts_queue :: mii_ts_queue_info_t

abbreviation MII_ETHERNET_IFS_AS_REF_CLOCK_COUNT :: u32 where
  "MII_ETHERNET_IFS_AS_REF_CLOCK_COUNT \<equiv> 96 + 96 - 9"

text \<open>
  The shaper: the credit earned since the last turn; a high priority packet is held back by a negative
  credit, and without one a positive credit is lost. The result is the credit and the packet to send.
\<close>

definition shape :: "u32 \<Rightarrow> u32 \<Rightarrow> addr \<Rightarrow> u32 \<Rightarrow> u32 \<times> addr" where
  "shape elapsed qav_idle_slope buf credit =
     (let credit = credit + elapsed * qav_idle_slope
      in if buf \<noteq> 0 then (credit, if credit <s 0 then 0 else buf)
         else (if 0 <s credit then 0 else credit, 0))"

text \<open>What a high priority packet of \<open>len\<close> bytes costs: its bits with preamble, gap and checksum.\<close>

definition credit_cost :: "u32 \<Rightarrow> u32" where
  "credit_cost len = push_bit (MII_CREDIT_FRACTIONAL_BITS + 3) (len + 8 + 96 div 8 + 4)"

text \<open>Sending the chosen packet; \<open>hp\<close> says from which queue it is.\<close>

definition send_chosen ::
    "bool \<Rightarrow> bool \<Rightarrow> mempool_info_t \<Rightarrow> addr \<Rightarrow> (nat \<Rightarrow> u32) \<Rightarrow> tx_pins \<Rightarrow> (wire list \<times> tx_pins) option" where
  "send_chosen enable_shaper hp pool buf clk s =
     (let m = tp_mem s; len = getf m buf length_f;
          (out, ifg_time, time) = mii_transmit_packet pool m buf clk;
          s = s\<lparr>tp_ifg_time := ifg_time + MII_ETHERNET_IFS_AS_REF_CLOCK_COUNT + (len AND 3) * 8,
                tp_credit := (if enable_shaper \<and> hp then tp_credit s - credit_cost len else tp_credit s)\<rparr>;
          (count, m) = mii_get_and_dec_transmit_count m buf;
          s = s\<lparr>tp_mem := m\<rparr>
      in if count \<noteq> 0 then Some (out, s)
         else if hp then map_option (\<lambda>q. (out, s\<lparr>tp_packets_hp := q\<rparr>)) (mii_free_current (tp_packets_hp s))
         else (let ts = (case time of None \<Rightarrow> tp_ts_queue s
                         | Some t \<Rightarrow> mii_ts_queue_add_entry (tp_ts_queue s) (getf m buf timestamp_id_f) t)
               in map_option (\<lambda>q. (out, s\<lparr>tp_ts_queue := ts, tp_packets_lp := q\<rparr>))
                    (mii_free_current (tp_packets_lp s))))"

text \<open>One turn: the outputs on the port and the state after it; \<open>None\<close> is a loop that never ends.\<close>

definition mii_master_tx_pins ::
    "bool \<Rightarrow> bool \<Rightarrow> mempool_info_t \<Rightarrow> mempool_info_t \<Rightarrow> u32 \<Rightarrow> u32 \<Rightarrow> (nat \<Rightarrow> u32) \<Rightarrow> tx_pins \<Rightarrow>
     (wire list \<times> tx_pins) option" where
  "mii_master_tx_pins hp_queues enable_shaper tx_mem_lp tx_mem_hp qav_idle_slope now clk s =
     (let buf = (if hp_queues then mii_get_next_buf (tp_packets_hp s) else 0);
          (s, buf) = (if enable_shaper
            then (let (credit, buf) = shape (now - tp_credit_time s) qav_idle_slope buf (tp_credit s)
                  in (s\<lparr>tp_credit := credit, tp_credit_time := now\<rparr>, buf))
            else (s, buf))
      in if buf \<noteq> 0 then send_chosen enable_shaper True tx_mem_hp buf clk s
         else (let buf = mii_get_next_buf (tp_packets_lp s)
               in if buf = 0 then Some ([], s) else send_chosen enable_shaper False tx_mem_lp buf clk s))"

section \<open>Signed credit\<close>

lemma sint_small: "- (2 ^ 31) \<le> x \<Longrightarrow> x < 2 ^ 31 \<Longrightarrow> sint (word_of_int x :: u32) = x"
  by (simp add: int_word_sint)


lemma sint_0_less: "(0 :: u32) <s x \<longleftrightarrow> 0 < sint x" "x <s (0 :: u32) \<longleftrightarrow> sint x < 0"
  by (simp_all add: word_sless_alt)



text \<open>Whether the turn sends a high priority packet, and which one.\<close>

definition hp_choice :: "u32 \<Rightarrow> u32 \<Rightarrow> tx_pins \<Rightarrow> addr" where
  "hp_choice slope now s =
     snd (shape (now - tp_credit_time s) slope (mii_get_next_buf (tp_packets_hp s)) (tp_credit s))"

lemma hp_choice_front: "hp_choice slope now s \<noteq> 0 \<Longrightarrow> hp_choice slope now s = mii_get_next_buf (tp_packets_hp s)"
  by (auto simp: hp_choice_def shape_def Let_def split: if_splits)

text \<open>The cost of the turn, as an integer.\<close>

definition turn_cost :: "u32 \<Rightarrow> u32 \<Rightarrow> tx_pins \<Rightarrow> int" where
  "turn_cost slope now s =
     (if hp_choice slope now s = 0 then 0
      else (int (unat (getf (tp_mem s) (hp_choice slope now s) length_f)) + 24) * 2 ^ 19)"




section \<open>The bandwidth of the high priority queue\<close>

text \<open>
  A run with the shaper on, as the transmitter and the other tasks make it: time passed, cost of the
  high priority packets sent, and the state. Between turns the other tasks change queues and memory
  but not the credit. A turn is one whose credit does not overflow 32 bits.
\<close>

inductive shaped_run ::
    "mempool_info_t \<Rightarrow> mempool_info_t \<Rightarrow> u32 \<Rightarrow> tx_pins \<Rightarrow> int \<Rightarrow> int \<Rightarrow> tx_pins \<Rightarrow> bool"
  for lp hp :: mempool_info_t and slope :: u32 and s :: tx_pins where
  start: "shaped_run lp hp slope s 0 0 s"
| others: "shaped_run lp hp slope s T K s1 \<Longrightarrow> tp_credit s2 = tp_credit s1 \<Longrightarrow>
    tp_credit_time s2 = tp_credit_time s1 \<Longrightarrow> shaped_run lp hp slope s T K s2"
| turn: "shaped_run lp hp slope s T K s1 \<Longrightarrow>
    mii_master_tx_pins True True lp hp slope now clk s1 = Some (out, s2) \<Longrightarrow>
    (hp_choice slope now s1 \<noteq> 0 \<Longrightarrow>
      unat (getf (tp_mem s1) (hp_choice slope now s1) length_f) \<le> nat ETHERNET_MAX_PACKET_SIZE) \<Longrightarrow>
    sint (tp_credit s1) + uint (now - tp_credit_time s1) * sint slope < 2 ^ 31 \<Longrightarrow>
    shaped_run lp hp slope s (T + uint (now - tp_credit_time s1)) (K + turn_cost slope now s1) s2"


text \<open>
  C34. The slope a port starts with earns more than 31 bits of credit in 2979 ticks, the time of a low
  priority packet of 373 bytes: the credit then turns negative, and a waiting high priority packet is
  held back although nothing was sent on its account.
\<close>

theorem default_slope_overflows:
  fixes elapsed :: u32
  assumes "slope = ps_qav_idle_slope (init_server_port_state True)" and "2979 \<le> elapsed" and "elapsed \<le> 5957"
    and "b \<noteq> 0"
  shows "snd (shape elapsed slope b 0) = 0 \<and> sint (fst (shape elapsed slope b 0)) < 0 \<and>
    0 < uint elapsed * sint slope"
proof -
  have slope: "slope = 720896" by (simp add: assms(1) init_server_port_state_def)
  have e: "2979 \<le> uint elapsed" "uint elapsed \<le> 5957" using assms(2,3) by (simp_all add: word_le_def)
  have "elapsed * slope = word_of_int (uint elapsed * 720896 - 2 ^ 32)"
    by (simp add: slope)
  moreover have "sint (word_of_int (uint elapsed * 720896 - 2 ^ 32) :: u32) = uint elapsed * 720896 - 2 ^ 32"
    using e by (intro sint_small) simp_all
  ultimately have "sint (elapsed * slope) = uint elapsed * 720896 - 2 ^ 32" by simp
  then have "sint (elapsed * slope) < 0" using e by simp
  then show ?thesis using assms(4) e by (simp add: shape_def Let_def sint_0_less slope)
qed

section \<open>What a turn sends\<close>

definition chosen :: "bool \<Rightarrow> bool \<Rightarrow> u32 \<Rightarrow> u32 \<Rightarrow> tx_pins \<Rightarrow> addr" where
  "chosen hp_queues sh slope now s =
     (if \<not> hp_queues then 0 else if sh then hp_choice slope now s else mii_get_next_buf (tp_packets_hp s))"

lemma tx_pins_eq:
  "mii_master_tx_pins hpq sh lp hp slope now clk s =
     (let b = chosen hpq sh slope now s; b_lp = mii_get_next_buf (tp_packets_lp s);
          s = (if sh then s\<lparr>tp_credit := fst (shape (now - tp_credit_time s) slope
                (if hpq then mii_get_next_buf (tp_packets_hp s) else 0) (tp_credit s)), tp_credit_time := now\<rparr> else s)
      in if b \<noteq> 0 then send_chosen sh True hp b clk s
         else if b_lp = 0 then Some ([], s) else send_chosen sh False lp b_lp clk s)"
proof -
  let ?b = "if hpq then mii_get_next_buf (tp_packets_hp s) else 0"
  obtain c d where e: "shape (now - tp_credit_time s) slope ?b (tp_credit s) = (c, d)"
    by (cases "shape (now - tp_credit_time s) slope ?b (tp_credit s)")
  have "\<not> hpq \<Longrightarrow> d = 0" using e by (auto simp: shape_def Let_def)
  then have ch: "chosen hpq True slope now s = d" using e by (cases hpq) (simp_all add: chosen_def hp_choice_def)
  show ?thesis
  proof (cases sh)
    case True
    then show ?thesis by (simp add: mii_master_tx_pins_def Let_def e ch)
  next
    case False
    then show ?thesis by (simp add: mii_master_tx_pins_def Let_def chosen_def)
  qed
qed

lemma send_chosen_frees:
  assumes "getf (tp_mem s) b tcount_f = 0" and "pq_ok (if hp then tp_packets_hp s else tp_packets_lp s)"
  obtains s' where "send_chosen sh hp pool b clk s = Some (fst (mii_transmit_packet pool (tp_mem s) b clk), s')"
    "tp_mem s' = tp_mem s"
    "hp \<Longrightarrow> pq_items (tp_packets_hp s') = tl (pq_items (tp_packets_hp s)) \<and> pq_ok (tp_packets_hp s') \<and>
       tp_packets_lp s' = tp_packets_lp s \<and> tp_ts_queue s' = tp_ts_queue s"
    "\<not> hp \<Longrightarrow> pq_items (tp_packets_lp s') = tl (pq_items (tp_packets_lp s)) \<and> pq_ok (tp_packets_lp s') \<and>
       tp_packets_hp s' = tp_packets_hp s \<and>
       tp_ts_queue s' = (if getf (tp_mem s) b timestamp_id_f = 0 then tp_ts_queue s
         else mii_ts_queue_add_entry (tp_ts_queue s) (getf (tp_mem s) b timestamp_id_f) (clk 1))"
proof -
  obtain out ifg t where tr: "mii_transmit_packet pool (tp_mem s) b clk = (out, ifg, t)"
    by (cases "mii_transmit_packet pool (tp_mem s) b clk")
  have t: "t = (if getf (tp_mem s) b timestamp_id_f \<noteq> 0 then Some (clk 1) else None)"
    using tr by (auto simp: mii_transmit_packet_def Let_def split: prod.splits)
  obtain q where q: "mii_free_current (if hp then tp_packets_hp s else tp_packets_lp s) = Some q" "pq_ok q"
      "pq_items q = tl (pq_items (if hp then tp_packets_hp s else tp_packets_lp s))"
    by (rule pq_free_current [OF assms(2)])
  show ?thesis
    using assms(1) q
    by (cases hp) (auto simp: send_chosen_def tr t Let_def mii_get_and_dec_transmit_count_def intro!: that)
qed

lemma tx_turn_cases:
  assumes "pq_ok (tp_packets_lp s)" and "pq_ok (tp_packets_hp s)"
    and "\<forall>b\<in>{chosen hpq sh slope now s, mii_get_next_buf (tp_packets_lp s)}. getf (tp_mem s) b tcount_f = 0"
    and "b = chosen hpq sh slope now s"
  shows "\<exists>out s'. mii_master_tx_pins hpq sh lp hp slope now clk s = Some (out, s') \<and>
     (if b \<noteq> 0 then
        pq_items (tp_packets_hp s) = b # pq_items (tp_packets_hp s') \<and> tp_packets_lp s' = tp_packets_lp s \<and>
        out = fst (mii_transmit_packet hp (tp_mem s) b clk) \<and> tp_ts_queue s' = tp_ts_queue s
      else case pq_items (tp_packets_lp s) of
        [] \<Rightarrow> out = [] \<and> tp_packets_lp s' = tp_packets_lp s \<and> tp_packets_hp s' = tp_packets_hp s
      | b # bs \<Rightarrow> out = fst (mii_transmit_packet lp (tp_mem s) b clk) \<and> pq_items (tp_packets_lp s') = bs \<and>
          tp_packets_hp s' = tp_packets_hp s \<and>
          tp_ts_queue s' = (if getf (tp_mem s) b timestamp_id_f = 0 then tp_ts_queue s
            else mii_ts_queue_add_entry (tp_ts_queue s) (getf (tp_mem s) b timestamp_id_f) (clk 1)))"
proof -
  let ?s = "if sh then s\<lparr>tp_credit := fst (shape (now - tp_credit_time s) slope
    (if hpq then mii_get_next_buf (tp_packets_hp s) else 0) (tp_credit s)), tp_credit_time := now\<rparr> else s"
  have fields: "tp_mem ?s = tp_mem s" "tp_packets_lp ?s = tp_packets_lp s" "tp_packets_hp ?s = tp_packets_hp s"
      "tp_ts_queue ?s = tp_ts_queue s" by simp_all
  note eq = tx_pins_eq [of hpq sh lp hp slope now clk s, unfolded Let_def, folded assms(4)]
  show ?thesis
  proof (cases "b = 0")
    case False
    have "b = mii_get_next_buf (tp_packets_hp s)"
      using False assms(4) hp_choice_front [of slope now s] by (auto simp: chosen_def split: if_splits)
    then have b: "pq_items (tp_packets_hp s) = b # tl (pq_items (tp_packets_hp s))"
      using False pq_front_items [OF assms(2)] by (cases "pq_items (tp_packets_hp s)") auto
    obtain s' where "send_chosen sh True hp b clk ?s = Some (fst (mii_transmit_packet hp (tp_mem s) b clk), s')"
        "pq_items (tp_packets_hp s') = tl (pq_items (tp_packets_hp s)) \<and> pq_ok (tp_packets_hp s') \<and>
         tp_packets_lp s' = tp_packets_lp s \<and> tp_ts_queue s' = tp_ts_queue s"
      using send_chosen_frees [of ?s b True sh hp clk] assms(2,3,4) unfolding fields by auto
    then show ?thesis using False b unfolding eq by simp
  next
    case True
    show ?thesis
    proof (cases "pq_items (tp_packets_lp s)")
      case Nil
      then show ?thesis using True pq_front_items [OF assms(1)] unfolding eq by simp
    next
      case (Cons x xs)
      then have x: "mii_get_next_buf (tp_packets_lp s) = x" "x \<noteq> 0"
        using pq_front_items [OF assms(1)] pq_items_nonzero [of x "tp_packets_lp s"] by simp_all
      obtain s' where "send_chosen sh False lp x clk ?s = Some (fst (mii_transmit_packet lp (tp_mem s) x clk), s')"
          "pq_items (tp_packets_lp s') = tl (pq_items (tp_packets_lp s)) \<and> pq_ok (tp_packets_lp s') \<and>
           tp_packets_hp s' = tp_packets_hp s \<and>
           tp_ts_queue s' = (if getf (tp_mem s) x timestamp_id_f = 0 then tp_ts_queue s
             else mii_ts_queue_add_entry (tp_ts_queue s) (getf (tp_mem s) x timestamp_id_f) (clk 1))"
        using send_chosen_frees [of ?s x False sh lp clk] assms(1,3) x unfolding fields by auto
      then show ?thesis using True x Cons unfolding eq by simp
    qed
  qed
qed

text \<open>
  A turn of the transmitter ends; it sends the oldest high priority packet when there is one and
  the shaper lets it pass, else the oldest low priority packet, else nothing; what is sent is the
  packet's frame, the packet leaves its queue and no other does, and the time of a low priority packet
  that asked for it goes to the timestamp queue with the packet's id.
\<close>

theorem tx_turn_serves:
  assumes "pq_ok (tp_packets_lp s)" and "pq_ok (tp_packets_hp s)"
    and "\<forall>b\<in>{chosen hpq sh slope now s, mii_get_next_buf (tp_packets_lp s)}. getf (tp_mem s) b tcount_f = 0"
    and "b = chosen hpq sh slope now s"
  shows "\<exists>out s'. mii_master_tx_pins hpq sh lp hp slope now clk s = Some (out, s') \<and>
     (if b \<noteq> 0 then
        pq_items (tp_packets_hp s) = b # pq_items (tp_packets_hp s') \<and> tp_packets_lp s' = tp_packets_lp s \<and>
        out = fst (mii_transmit_packet hp (tp_mem s) b clk) \<and> tp_ts_queue s' = tp_ts_queue s
      else case pq_items (tp_packets_lp s) of
        [] \<Rightarrow> out = [] \<and> tp_packets_lp s' = tp_packets_lp s \<and> tp_packets_hp s' = tp_packets_hp s
      | b # bs \<Rightarrow> out = fst (mii_transmit_packet lp (tp_mem s) b clk) \<and> pq_items (tp_packets_lp s') = bs \<and>
          tp_packets_hp s' = tp_packets_hp s \<and>
          tp_ts_queue s' = (if getf (tp_mem s) b timestamp_id_f = 0 then tp_ts_queue s
            else mii_ts_queue_add_entry (tp_ts_queue s) (getf (tp_mem s) b timestamp_id_f) (clk 1)))"
  by (rule tx_turn_cases [OF assms])

section \<open>Examples\<close>

text \<open>A packet of 64 bytes in each queue, and a shaper at three quarters of the line rate.\<close>

abbreviation slope_ex :: u32 where "slope_ex \<equiv> 49152"

definition tx_pins_ex :: tx_pins where
  "tx_pins_ex = \<lparr>tp_credit = 0, tp_credit_time = 0, tp_ifg_time = 0,
     tp_mem = (\<lambda>_. 0)(0x2000 := 64, 0x2010 := 1, 0x3000 := 64),
     tp_packets_lp = mii_add_packet mii_init_packet_queue 0x2000,
     tp_packets_hp = mii_add_packet mii_init_packet_queue 0x3000,
     tp_ts_queue = mii_ts_queue_init (replicate 11 \<lparr>ts_timestamp_id = 0, ts_timestamp = 0\<rparr>) 3\<rparr>"

lemma one_packet:
  assumes "b \<noteq> 0"
  shows "pq_ok (mii_add_packet mii_init_packet_queue b)" "pq_items (mii_add_packet mii_init_packet_queue b) = [b]"
    "mii_get_next_buf (mii_add_packet mii_init_packet_queue b) = b"
proof -
  have "\<not> mii_packet_queue_full mii_init_packet_queue" by (simp add: mii_packet_queue_full_def mii_init_packet_queue_def)
  with pq_add [OF conjunct1 [OF pq_init] this assms] pq_init
  show ok: "pq_ok (mii_add_packet mii_init_packet_queue b)" "pq_items (mii_add_packet mii_init_packet_queue b) = [b]"
    by simp_all
  then show "mii_get_next_buf (mii_add_packet mii_init_packet_queue b) = b" by (simp add: pq_front_items)
qed

lemma tx_pins_ex_fields:
  "pq_ok (tp_packets_lp tx_pins_ex)" "pq_ok (tp_packets_hp tx_pins_ex)" "mii_get_next_buf (tp_packets_lp tx_pins_ex) = 0x2000"
  "mii_get_next_buf (tp_packets_hp tx_pins_ex) = 0x3000" "pq_items (tp_packets_lp tx_pins_ex) = [0x2000]"
  "pq_items (tp_packets_hp tx_pins_ex) = [0x3000]" "getf (tp_mem tx_pins_ex) 0x2000 tcount_f = 0"
  "getf (tp_mem tx_pins_ex) 0x3000 tcount_f = 0" "getf (tp_mem tx_pins_ex) 0x3000 length_f = 64"
  "getf (tp_mem tx_pins_ex) 0x2000 timestamp_id_f = 1"
  "tp_credit tx_pins_ex = 0" "tp_credit_time tx_pins_ex = 0"
  by (simp_all add: tx_pins_ex_def one_packet getf_def)

lemma hp_choice_ex: "hp_choice slope_ex 100 tx_pins_ex = 0x3000"
  by (simp add: hp_choice_def shape_def Let_def tx_pins_ex_fields sint_0_less)

lemma chosen_ex: "0x3000 = chosen True True slope_ex 100 tx_pins_ex"
  by (simp add: chosen_def hp_choice_ex)

lemma counts_ex: "\<forall>b\<in>{chosen True True slope_ex 100 tx_pins_ex, mii_get_next_buf (tp_packets_lp tx_pins_ex)}.
    getf (tp_mem tx_pins_ex) b tcount_f = 0"
  by (simp add: tx_pins_ex_fields flip: chosen_ex)

lemma tx_turn_serves_witness:
  "\<forall>lp hp. \<exists>s'. mii_master_tx_pins True True lp hp slope_ex 100 (\<lambda>_. 7) tx_pins_ex =
       Some (fst (mii_transmit_packet hp (tp_mem tx_pins_ex) 0x3000 (\<lambda>_. 7)), s') \<and>
     pq_items (tp_packets_hp s') = [] \<and> pq_items (tp_packets_lp s') = [0x2000]"
proof (intro allI)
  fix lp hp :: mempool_info_t
  obtain out s' where "mii_master_tx_pins True True lp hp slope_ex 100 (\<lambda>_. 7) tx_pins_ex = Some (out, s')"
      "pq_items (tp_packets_hp tx_pins_ex) = 0x3000 # pq_items (tp_packets_hp s')"
      "tp_packets_lp s' = tp_packets_lp tx_pins_ex"
      "out = fst (mii_transmit_packet hp (tp_mem tx_pins_ex) 0x3000 (\<lambda>_. 7))"
    using tx_turn_serves [OF tx_pins_ex_fields(1,2) counts_ex chosen_ex, of lp hp "\<lambda>_. 7"]
    unfolding if_P [OF zero_neq_numeral [symmetric]] by blast
  then show "\<exists>s'. mii_master_tx_pins True True lp hp slope_ex 100 (\<lambda>_. 7) tx_pins_ex =
       Some (fst (mii_transmit_packet hp (tp_mem tx_pins_ex) 0x3000 (\<lambda>_. 7)), s') \<and>
     pq_items (tp_packets_hp s') = [] \<and> pq_items (tp_packets_lp s') = [0x2000]" by (intro exI [of _ s']) (simp add: tx_pins_ex_fields)
qed


lemma default_slope_overflows_witness:
  "snd (shape 3000 720896 0x3000 0) = 0 \<and> sint (fst (shape 3000 720896 0x3000 0)) < 0 \<and> (0 :: int) < 3000 * 720896"
  using default_slope_overflows [of 720896 3000 "0x3000"] by (simp add: init_server_port_state_def)

end
