(* ===== verification/Mii_Lite.thy ===== *)
theory Mii_Lite
  imports Memory Crc
begin

text \<open>
  The buffer manager of the MII driver without the real-time MAC, \<^verbatim>\<open>lib_ethernet/src/mii_lite_driver.xc\<close>
  and \<^verbatim>\<open>mii_lite_driver.h\<close>: two banks of memory, each a circular chain of buffers. A buffer is a
  word with its length (negative when it is free again, 0 where the chain goes back to the head
  of the bank, 1 at the write pointer), a time stamp and the bytes of a frame. The functions are called by
  the interrupt handler when a frame has come in (\<open>mii_client_user\<close>) and by the task that serves
  \<open>mii_if\<close> (\<^verbatim>\<open>mii.xc\<close>). Pointers are kept as addresses; the differences the code takes of unsigned
  pointers are written out modulo \<open>2 ^ 32\<close>.
\<close>

section \<open>State\<close>

text \<open>The arrays of two are functions of the bank number; the kernel stack and padding are left out.\<close>

record mii_lite_data_t =
  next_buffer :: addr
  packet_in_lld :: addr
  mii_packets_overran :: u32
  refill_bank_number :: nat
  free_ptr :: "nat \<Rightarrow> addr"
  wr_ptr :: "nat \<Rightarrow> addr"
  last_safe_ptr :: "nat \<Rightarrow> addr"
  first_ptr :: "nat \<Rightarrow> addr"
  read_ptr :: "nat \<Rightarrow> addr"
  notify_last :: bool
  notify_seen :: bool
  read_bank :: u32
  read_bank_rd_ptr :: u32
  read_bank_wr_ptr :: u32
  ml_mem :: mem
  ml_notified :: "bool list"

text \<open>
  \<open>ml_mem\<close> is the memory the code reaches through its \<open>get\<close> and \<open>set\<close>; \<open>ml_notified\<close> the bytes sent
  on the notification channel.
\<close>

definition set_word :: "addr \<Rightarrow> int \<Rightarrow> mii_lite_data_t \<Rightarrow> mii_lite_data_t" where
  "set_word a v t = t\<lparr>ml_mem := (ml_mem t)(a := word_of_int v)\<rparr>"

definition get_word :: "addr \<Rightarrow> mii_lite_data_t \<Rightarrow> int" where
  "get_word a t = sint (ml_mem t a)"

abbreviation MAXPACKET :: int where "MAXPACKET \<equiv> 1530"

definition round_bytes :: "int \<Rightarrow> int" where
  "round_bytes n_bytes = ((n_bytes + 3) AND NOT 3) + 4"

text \<open>The room from \<open>wr\<close> to \<open>free\<close>, as the code computes it, with unsigned arithmetic.\<close>

definition room :: "addr \<Rightarrow> addr \<Rightarrow> int" where
  "room free wr = (free - wr) mod 2 ^ 32"

section \<open>The check of a frame\<close>

text \<open>
  The tail of a frame that ends within a word, as the low level receiver leaves it behind the last
  word: the left over bits, their number, the checksum so far. The number of \<open>crc8shr\<close> steps
  depends on the number of nibbles.
\<close>

fun crc8_steps :: "nat \<Rightarrow> u32 \<Rightarrow> u32 \<Rightarrow> u32" where
  "crc8_steps 0 crc bits = crc"
| "crc8_steps (Suc n) crc bits = (let (crc, bits) = crc8shr crc bits POLY in crc8_steps n crc bits)"

definition CRCBad :: "mem \<Rightarrow> addr \<Rightarrow> addr \<Rightarrow> int" where
  "CRCBad m base end_ptr =
     (let tail_bits = m (end_ptr + 4); tail_length = m (end_ptr + 8); part_crc = m (end_ptr + 12);
          len = end_ptr - base + uint (drop_bit 3 tail_length);
          nibbles = unat (drop_bit 2 tail_length);
          part_crc =
            (if nibbles = 2 then crc8_steps 1 part_crc (drop_bit 24 tail_bits)
             else if nibbles = 3 then crc8_steps 1 part_crc (drop_bit 20 tail_bits)
             else if nibbles = 4 then crc8_steps 2 part_crc (drop_bit 16 tail_bits)
             else if nibbles = 5 then crc8_steps 2 part_crc (drop_bit 12 tail_bits)
             else if nibbles = 6 then crc8_steps 3 part_crc (drop_bit 8 tail_bits)
             else if nibbles = 7 then crc8_steps 3 part_crc (drop_bit 4 tail_bits)
             else part_crc)
      in if NOT part_crc = 0 then len else 0)"

section \<open>Operations\<close>

text \<open>
  Initialisation. The handler is installed with the write pointer of the first bank (\<open>packet_in_lld\<close>,
  set by \<^verbatim>\<open>mii_lite_install_handler\<close>); the next buffer is in the second.
\<close>

definition mii_lite_buffer_init :: "addr \<Rightarrow> int \<Rightarrow> mem \<Rightarrow> mii_lite_data_t" where
  "mii_lite_buffer_init address number_words m =
     (let first = (\<lambda>b. if b = 0 then address else address + (2 * number_words AND NOT 3))
      in set_word (first 1) 1 (set_word (first 0) 1
           \<lparr>next_buffer = first 1 + 4, packet_in_lld = first 0 + 4, mii_packets_overran = 0,
            refill_bank_number = 0, free_ptr = first, wr_ptr = (\<lambda>b. first b + 4),
            last_safe_ptr = (\<lambda>b. if b = 0 then first 1 - MAXPACKET else address + 4 * number_words - MAXPACKET),
            first_ptr = first, read_ptr = first, notify_last = True, notify_seen = True,
            read_bank = 0, read_bank_rd_ptr = 0, read_bank_wr_ptr = 0, ml_mem = m, ml_notified = []\<rparr>))"

definition mii_notify :: "mii_lite_data_t \<Rightarrow> mii_lite_data_t" where
  "mii_notify t =
     (if notify_last t = notify_seen t
      then t\<lparr>notify_last := \<not> notify_last t, ml_notified := ml_notified t @ [\<not> notify_last t]\<rparr>
      else t)"

text \<open>The select handler that takes a notification from the channel (\<open>mii_incoming_packet_\<close>).\<close>

definition mii_notified :: "mii_lite_data_t \<Rightarrow> mii_lite_data_t option" where
  "mii_notified t =
     (case ml_notified t of [] \<Rightarrow> None | b # bs \<Rightarrow> Some (t\<lparr>notify_seen := b, ml_notified := bs\<rparr>))"

text \<open>The oldest frame: the address of its bytes, their number without the checksum, its time stamp.\<close>

definition mii_lite_get_in_buffer :: "mii_lite_data_t \<Rightarrow> (addr \<times> int \<times> u32) \<times> mii_lite_data_t" where
  "mii_lite_get_in_buffer t =
     (if read_bank_rd_ptr t = read_bank_wr_ptr t then ((0, 0, 0), t)
      else (let bank = (if bit (read_bank t) (unat (read_bank_rd_ptr t)) then 1 else 0);
                n_bytes = get_word (read_ptr t bank) t;
                t = (if n_bytes = 0 then t\<lparr>read_ptr := (read_ptr t)(bank := first_ptr t bank)\<rparr> else t);
                n_bytes = (if n_bytes = 0 then get_word (read_ptr t bank) t else n_bytes)
            in if n_bytes = 1 then ((0, 0, 0), t)
               else (let ret_val = read_ptr t bank + 4;
                         t = t\<lparr>read_ptr := (read_ptr t)(bank := read_ptr t bank + round_bytes n_bytes),
                               read_bank_rd_ptr := increment_and_wrap_power_of_2 (read_bank_rd_ptr t) 32\<rparr>;
                         t = (if get_word (read_ptr t bank) t = 0
                              then t\<lparr>read_ptr := (read_ptr t)(bank := first_ptr t bank)\<rparr> else t);
                         t = (if read_bank_rd_ptr t \<noteq> read_bank_wr_ptr t then mii_notify t else t)
                     in ((ret_val + 4, n_bytes - 4, ml_mem t ret_val), t))))"

text \<open>
  Finding the next buffer after the write pointer has moved; shared by the commit of a frame and by
  \<open>mii_lite_restart_buffer\<close>, which differ in what they do when there is no room (\<open>None\<close> here).
\<close>

definition wrap_to_head :: "nat \<Rightarrow> mii_lite_data_t \<Rightarrow> mii_lite_data_t" where
  "wrap_to_head bn t =
     (let t = set_word (wr_ptr t bn - 4) 0 t; t = t\<lparr>wr_ptr := (wr_ptr t)(bn := first_ptr t bn + 4)\<rparr>
      in set_word (wr_ptr t bn - 4) 1 t)"

definition mii_commit_buffer :: "addr \<Rightarrow> int \<Rightarrow> mii_lite_data_t \<Rightarrow> mii_lite_data_t" where
  "mii_commit_buffer current_buffer n_bytes t =
     (let bn = (if current_buffer < first_ptr t 1 then 0 else 1);
          new_read_bank_wr_ptr = increment_and_wrap_power_of_2 (read_bank_wr_ptr t) 32;
          full = (\<lambda>t. t\<lparr>next_buffer := -1, refill_bank_number := bn\<rparr>)
      in if read_bank_rd_ptr t = new_read_bank_wr_ptr then full t
         else (let w = unat (read_bank_wr_ptr t);
                   t = t\<lparr>read_bank := (read_bank t AND NOT (push_bit w 1)) OR push_bit w (of_nat bn),
                         read_bank_wr_ptr := new_read_bank_wr_ptr\<rparr>;
                   t = set_word (wr_ptr t bn - 4) n_bytes t;
                   t = t\<lparr>wr_ptr := (wr_ptr t)(bn := wr_ptr t bn + round_bytes n_bytes)\<rparr>;
                   t = mii_notify t
               in if wr_ptr t bn > last_safe_ptr t bn
                  then (if free_ptr t bn \<noteq> first_ptr t bn
                        then (let t = wrap_to_head bn t
                              in if room (free_ptr t bn) (wr_ptr t bn) \<ge> MAXPACKET
                                 then t\<lparr>next_buffer := wr_ptr t bn\<rparr> else full t)
                        else full (set_word (wr_ptr t bn - 4) 1 t))
                  else (let t = set_word (wr_ptr t bn - 4) 1 t
                        in if wr_ptr t bn > free_ptr t bn \<or> room (free_ptr t bn) (wr_ptr t bn) \<ge> MAXPACKET
                           then t\<lparr>next_buffer := wr_ptr t bn\<rparr> else full t)))"

definition mii_reject_buffer :: "addr \<Rightarrow> mii_lite_data_t \<Rightarrow> mii_lite_data_t" where
  "mii_reject_buffer current_buffer t = t\<lparr>next_buffer := current_buffer\<rparr>"

definition mii_lite_restart_buffer :: "mii_lite_data_t \<Rightarrow> mii_lite_data_t" where
  "mii_lite_restart_buffer t =
     (if next_buffer t \<noteq> -1 then t
      else (let bn = refill_bank_number t
            in if wr_ptr t bn > last_safe_ptr t bn
               then (if free_ptr t bn \<noteq> first_ptr t bn
                     then (let t = wrap_to_head bn t
                           in if room (free_ptr t bn) (wr_ptr t bn) \<ge> MAXPACKET
                              then t\<lparr>next_buffer := wr_ptr t bn\<rparr> else t)
                     else t)
               else if wr_ptr t bn > free_ptr t bn \<or> room (free_ptr t bn) (wr_ptr t bn) \<ge> MAXPACKET
               then t\<lparr>next_buffer := wr_ptr t bn\<rparr> else t))"

text \<open>The loop that moves the free pointer over the buffers already freed.\<close>

partial_function (option) free_loop :: "nat \<Rightarrow> mii_lite_data_t \<Rightarrow> mii_lite_data_t option" where
  "free_loop bank t =
     (let l = get_word (free_ptr t bank) t
      in if l > 0 then Some t
         else if l = 0 then free_loop bank (t\<lparr>free_ptr := (free_ptr t)(bank := first_ptr t bank)\<rparr>)
         else free_loop bank (t\<lparr>free_ptr := (free_ptr t)(bank := free_ptr t bank + round_bytes (- l))\<rparr>))"

declare free_loop.simps [code]

definition mii_lite_free_in_buffer :: "addr \<Rightarrow> mii_lite_data_t \<Rightarrow> mii_lite_data_t option" where
  "mii_lite_free_in_buffer base0 t =
     map_option mii_lite_restart_buffer
       (if base0 = 0 then Some t
        else (let bank_number = (if base0 < first_ptr t 1 then 0 else 1); base = base0 - 4;
                  t = set_word (base - 4) (- get_word (base - 4) t) t
              in free_loop bank_number t))"

definition mii_client_user :: "addr \<Rightarrow> addr \<Rightarrow> mii_lite_data_t \<Rightarrow> mii_lite_data_t" where
  "mii_client_user base end_ptr t =
     (let n_bytes = CRCBad (ml_mem t) base end_ptr
      in if n_bytes \<ge> 64 then mii_commit_buffer base n_bytes t else mii_reject_buffer base t)"

text \<open>
  The interrupt handler of \<^verbatim>\<open>mii_lite_interrupt.S\<close>: at the end of a frame the low level receiver is given
  the next buffer; without one it keeps the buffer it has, and the frame is lost.
\<close>

definition mii_interrupt_handler :: "addr \<Rightarrow> mii_lite_data_t \<Rightarrow> mii_lite_data_t" where
  "mii_interrupt_handler end_ptr t =
     (if next_buffer t = -1 then t\<lparr>mii_packets_overran := mii_packets_overran t + 1\<rparr>
      else mii_client_user (packet_in_lld t) end_ptr (t\<lparr>packet_in_lld := next_buffer t\<rparr>))"

section \<open>Sending\<close>

text \<open>The labels of the code that sends the last bytes, one for each number of bytes left over.\<close>

definition tail_values :: "int \<Rightarrow> u32" where
  "tail_values odd_bytes = word_of_int odd_bytes"

text \<open>
  \<open>mii_lite_out_packet\<close> prepares the end of the packet for the transmitter: behind the whole
  words come the bytes left over, the label and the negative word count; the pointer it sends is
  that of the last whole word.
\<close>

definition mii_lite_out_packet :: "mem \<Rightarrow> addr \<Rightarrow> int \<Rightarrow> mem \<times> addr" where
  "mii_lite_out_packet m b len =
     (let odd_bytes = len mod 4; rounded_length = len div 4;
          m = m(b + 4 * (rounded_length + 1) := tail_values odd_bytes);
          m = m(b + 4 * rounded_length := m (b + 4 * rounded_length) AND (push_bit (nat (8 * odd_bytes)) 1 - 1));
          m = m(b + 4 * (rounded_length + 2) := word_of_int (- rounded_length + 1))
      in (m, b + len - odd_bytes - 4))"

section \<open>The interface\<close>

text \<open>
  The task that serves \<open>mii_if\<close>, \<^verbatim>\<open>mii.xc\<close>: what each call returns, and the pointer handed to the
  transmitter. \<open>address\<close> and \<open>number_words\<close> are those of its array \<^verbatim>\<open>rxbuf\<close>.
\<close>

datatype mii_if =
    Init
  | Release_Packet addr
  | Get_Incoming_Packet
  | Send_Packet addr int

datatype mii_reply = Done | Incoming_Packet addr int u32 | To_Transmitter addr

fun mii_handler :: "addr \<Rightarrow> int \<Rightarrow> mii_if \<Rightarrow> mii_lite_data_t \<Rightarrow> (mii_reply \<times> mii_lite_data_t) option" where
  "mii_handler address number_words Init t = Some (Done, mii_lite_buffer_init address number_words (ml_mem t))"
| "mii_handler address number_words (Release_Packet data) t =
     map_option (\<lambda>t. (Done, t)) (mii_lite_free_in_buffer data t)"
| "mii_handler address number_words Get_Incoming_Packet t =
     (let ((data, nbytes, timestamp), t) = mii_lite_get_in_buffer t in Some (Incoming_Packet data nbytes timestamp, t))"
| "mii_handler address number_words (Send_Packet txbuf n) t =
     (let (m, p) = mii_lite_out_packet (ml_mem t) txbuf n in Some (To_Transmitter p, t\<lparr>ml_mem := m\<rparr>))"

end
