(* ===== verification/Mii_Mac.thy ===== *)
theory Mii_Mac
  imports Mii_Lite Interfaces
begin

text \<open>
  The MAC without real-time features, \<^verbatim>\<open>lib_ethernet/src/mii_ethernet_mac.xc\<close>, on top of the MII driver it reaches through
  \<open>mii_if\<close> (\<^verbatim>\<open>mii.xc\<close>). It keeps one received frame at a time: the frame stays in the driver's
  buffers until every client it was offered to has read it, and frames that come in meanwhile are
  released at once. A call that aborts (\<^verbatim>\<open>fail\<close>, \<^verbatim>\<open>assert\<close>) or writes outside an array is a fault.
\<close>

section \<open>State\<close>

record client_state_t =
  cs_status_update_state :: status_update_state_t
  cs_incoming_packet :: bool
  cs_num_etype_filters :: nat
  cs_etype_filters :: "u16 list"

text \<open>
  The local variables of \<open>mii_ethernet_aux\<close>; \<open>ms_mii\<close> is the state of the driver, \<open>ms_ready\<close> the clients
  notified, \<open>ms_txbuf\<close> the buffer for outgoing packets (at address 0), \<open>ms_sent\<close> the pointers handed to
  the transmitter.
\<close>

record mac_server =
  ms_mac_address :: "u8 list"
  ms_link_status :: ethernet_link_state_t
  ms_link_speed :: ethernet_speed_t
  ms_client_state :: "client_state_t list"
  ms_filter :: eth_global_filter_info_t
  ms_incoming_data :: addr
  ms_incoming_nbytes :: int
  ms_incoming_timestamp :: u32
  ms_incoming_tcount :: int
  ms_incoming_appdata :: u32
  ms_mii :: mii_lite_data_t
  ms_ready :: "nat list"
  ms_txbuf :: mem
  ms_sent :: "addr list"

definition init_client_state :: "client_state_t list \<Rightarrow> client_state_t list" where
  "init_client_state client_state =
     map (\<lambda>c. c\<lparr>cs_status_update_state := STATUS_UPDATE_IGNORING, cs_incoming_packet := False,
            cs_num_etype_filters := 0\<rparr>) client_state"

text \<open>Clients waiting for the link status are told that it has changed.\<close>

definition update_client_state_mac :: "mac_server \<Rightarrow> mac_server" where
  "update_client_state_mac s =
     s\<lparr>ms_client_state := map (\<lambda>c. if cs_status_update_state c = STATUS_UPDATE_WAITING
          then c\<lparr>cs_status_update_state := STATUS_UPDATE_PENDING\<rparr> else c) (ms_client_state s),
       ms_ready := ms_ready s @ filter (\<lambda>i. cs_status_update_state (ms_client_state s ! i) = STATUS_UPDATE_WAITING)
         [0..<length (ms_client_state s)]\<rparr>"

definition client_wants_packet :: "u32 \<Rightarrow> u16 \<Rightarrow> nat \<Rightarrow> client_state_t \<Rightarrow> bool" where
  "client_wants_packet filter_result len_type i c \<longleftrightarrow> bit filter_result i \<and>
     (cs_num_etype_filters c \<noteq> 0 \<and> len_type \<ge> 1536 \<longrightarrow>
      len_type \<in> set (take (cs_num_etype_filters c) (cs_etype_filters c)))"

definition send_to_clients :: "u32 \<Rightarrow> u16 \<Rightarrow> mac_server \<Rightarrow> mac_server" where
  "send_to_clients filter_result len_type s =
     (let wanting = filter (\<lambda>i. client_wants_packet filter_result len_type i (ms_client_state s ! i))
            [0..<length (ms_client_state s)]
      in s\<lparr>ms_client_state := map (\<lambda>i. if i \<in> set wanting then (ms_client_state s ! i)\<lparr>cs_incoming_packet := True\<rparr>
             else ms_client_state s ! i) [0..<length (ms_client_state s)],
           ms_ready := ms_ready s @ wanting,
           ms_incoming_tcount := ms_incoming_tcount s + int (length wanting)\<rparr>)"

text \<open>
  The state when the loop starts: \<open>address\<close>, \<open>number_words\<close> and \<open>m\<close> are the array and the memory of the driver,
  \<open>clients\<close> the array of clients before its initialisation; variables the code leaves unset are 0.
\<close>

definition mii_mac_start :: "addr \<Rightarrow> int \<Rightarrow> mem \<Rightarrow> client_state_t list \<Rightarrow> mac_server" where
  "mii_mac_start address number_words m clients =
     \<lparr>ms_mac_address = replicate 6 0, ms_link_status = ETHERNET_LINK_DOWN, ms_link_speed = LINK_100_MBPS_FULL_DUPLEX,
      ms_client_state = init_client_state clients, ms_filter = ethernet_init_filter_table, ms_incoming_data = 0,
      ms_incoming_nbytes = 0, ms_incoming_timestamp = 0, ms_incoming_tcount = 0, ms_incoming_appdata = 0,
      ms_mii = mii_lite_buffer_init address number_words m, ms_ready = [], ms_txbuf = (\<lambda>_. 0), ms_sent = []\<rparr>"

section \<open>Receiving\<close>

definition release_packet :: "addr \<Rightarrow> mac_server \<Rightarrow> fault + mac_server" where
  "release_packet data s =
     bind (from_loop (mii_lite_free_in_buffer data (ms_mii s))) (\<lambda>t. Inr (s\<lparr>ms_mii := t\<rparr>))"

definition on_client_mac :: "nat \<Rightarrow> (client_state_t \<Rightarrow> client_state_t) \<Rightarrow> mac_server \<Rightarrow> mac_server" where
  "on_client_mac i f s = s\<lparr>ms_client_state := (ms_client_state s)[i := f (ms_client_state s ! i)]\<rparr>"

text \<open>The length field of a frame is right, or is an Ethertype.\<close>

definition len_type_of :: "mem \<Rightarrow> addr \<Rightarrow> u16 \<times> int" where
  "len_type_of m data =
     (let len_type = NTOH_U16_ALIGNED (m (data + 12))
      in if len_type = 0x8100 then (NTOH_U16_ALIGNED (m (data + 16)), 18) else (len_type, 14))"

definition len_type_ok :: "mem \<Rightarrow> addr \<Rightarrow> int \<Rightarrow> bool" where
  "len_type_ok m data nbytes \<longleftrightarrow>
     (let (len_type, header_len) = len_type_of m data
      in \<not> (len_type < 1536 \<and> uint len_type > (nbytes - header_len) mod 2 ^ 32))"

text \<open>The case \<open>mii_incoming_packet\<close>: the notification is taken and the next frame read.\<close>

definition incoming_packet :: "mac_server \<Rightarrow> fault + mac_server" where
  "incoming_packet s =
     (let ((data, nbytes, timestamp), t) = mii_lite_get_in_buffer (ms_mii s); s = s\<lparr>ms_mii := t\<rparr>
      in if ms_incoming_data s \<noteq> 0 then release_packet data s
         else if data \<noteq> 0
         then (let s = s\<lparr>ms_incoming_timestamp := timestamp, ms_incoming_nbytes := nbytes, ms_incoming_data := data,
                         ms_incoming_tcount := 0\<rparr>;
                   s = (if \<not> len_type_ok (ml_mem t) data nbytes then s
                        else (let (filter_result, appdata) =
                                    ethernet_do_filtering (ms_filter s) (ldbs (ml_mem t) data 6) (ms_incoming_appdata s);
                                  s = s\<lparr>ms_incoming_appdata := appdata\<rparr>
                              in if filter_result \<noteq> 0
                                 then send_to_clients filter_result (fst (len_type_of (ml_mem t) data)) s else s))
               in if ms_incoming_tcount s = 0
                  then bind (release_packet (ms_incoming_data s) s) (\<lambda>s. Inr (s\<lparr>ms_incoming_data := 0\<rparr>))
                  else Inr s)
         else Inr s)"

text \<open>The frame goes back to the driver when its last reader is done.\<close>

definition release_if_read :: "mac_server \<Rightarrow> fault + mac_server" where
  "release_if_read s =
     (if ms_incoming_data s \<noteq> 0 \<and> ms_incoming_tcount s = 0
      then bind (release_packet (ms_incoming_data s) s) (\<lambda>s. Inr (s\<lparr>ms_incoming_data := 0\<rparr>))
      else Inr s)"

text \<open>The call \<open>get_packet\<close> of client \<open>i\<close> with its array \<open>data\<close>.\<close>

definition get_packet_mac ::
    "nat \<Rightarrow> u8 list \<Rightarrow> mac_server \<Rightarrow> fault + (ethernet_packet_info_t \<times> u8 list \<times> mac_server)" where
  "get_packet_mac i data s =
     (let c = ms_client_state s ! i
      in bind
           (if cs_status_update_state c = STATUS_UPDATE_PENDING
            then bind (put_bytes data 0 [of_nat (link_num (ms_link_status s)), of_nat (speed_num (ms_link_speed s))])
                   (\<lambda>data. Inr (status_info, data, on_client_mac i (\<lambda>c. c\<lparr>cs_status_update_state := STATUS_UPDATE_WAITING\<rparr>) s))
            else if cs_incoming_packet c
            then bind (put_bytes data 0 (ldbs (ml_mem (ms_mii s)) (ms_incoming_data s) (nat (ms_incoming_nbytes s))))
                   (\<lambda>data. Inr (\<lparr>pi_type = ETH_DATA, pi_len = of_int (ms_incoming_nbytes s),
                                 pi_timestamp = ms_incoming_timestamp s, pi_src_ifnum = 0,
                                 pi_filter_data = ms_incoming_appdata s\<rparr>, data,
                                (on_client_mac i (\<lambda>c. c\<lparr>cs_incoming_packet := False\<rparr>) s)
                                  \<lparr>ms_incoming_tcount := ms_incoming_tcount s - 1\<rparr>))
            else Inr (no_info, data, s))
           (\<lambda>(desc, data, s). bind (release_if_read s) (\<lambda>s. Inr (desc, data, s))))"

section \<open>Sending\<close>

abbreviation TXBUF_BYTES :: int where "TXBUF_BYTES \<equiv> 1520"

text \<open>The call \<open>_complete_send_packet\<close>; the transmission has ended when it returns.\<close>

definition complete_send_packet_mac :: "u8 list \<Rightarrow> mac_server \<Rightarrow> fault + mac_server" where
  "complete_send_packet_mac data s =
     (let n = int (length data)
      in if n > TXBUF_BYTES \<or> 4 * (n div 4 + 3) > TXBUF_BYTES then Inl Out_Of_Bounds
         else (let (m, p) = mii_lite_out_packet (stbs (ms_txbuf s) 0 data) 0 n
               in Inr (s\<lparr>ms_txbuf := m, ms_sent := ms_sent s @ [p]\<rparr>)))"

section \<open>The configuration calls\<close>

definition add_ethertype_filter_mac :: "u16 \<Rightarrow> client_state_t \<Rightarrow> client_state_t option" where
  "add_ethertype_filter_mac ethertype c =
     (let n = cs_num_etype_filters c
      in if n < ETHERNET_MAX_ETHERTYPE_FILTERS
         then Some (c\<lparr>cs_etype_filters := (cs_etype_filters c)[n := ethertype], cs_num_etype_filters := n + 1\<rparr>)
         else None)"

definition del_ethertype_filter_mac :: "u16 \<Rightarrow> client_state_t \<Rightarrow> client_state_t" where
  "del_ethertype_filter_mac ethertype c =
     (let (n, filters) = del_etype_loop ethertype 0 (cs_num_etype_filters c) (cs_etype_filters c)
      in c\<lparr>cs_num_etype_filters := n, cs_etype_filters := filters\<rparr>)"

fun handle_cfg_mac :: "ethernet_cfg_if \<Rightarrow> mac_server \<Rightarrow> fault + (reply \<times> mac_server)" where
  "handle_cfg_mac Get_Macaddr s = Inr (Macaddr (ms_mac_address s), s)"
| "handle_cfg_mac (Set_Macaddr mac) s = Inr (No_Reply, s\<lparr>ms_mac_address := mac\<rparr>)"
| "handle_cfg_mac (Set_Link_State status speed) s =
     Inr (No_Reply, if ms_link_status s \<noteq> status
       then update_client_state_mac (s\<lparr>ms_link_status := status, ms_link_speed := speed\<rparr>) else s)"
| "handle_cfg_mac (Add_Macaddr_Filter client_num is_hp entry) s =
     (if is_hp \<noteq> 0 then Inl Assertion
      else case ethernet_add_filter_table_entry (ms_filter s) client_num is_hp entry of
        None \<Rightarrow> Inl Assertion
      | Some (result, t) \<Rightarrow> Inr (Filter_Result result, s\<lparr>ms_filter := t\<rparr>))"
| "handle_cfg_mac (Del_Macaddr_Filter client_num is_hp entry) s =
     (if is_hp \<noteq> 0 then Inl Assertion
      else Inr (No_Reply, s\<lparr>ms_filter := ethernet_del_filter_table_entry (ms_filter s) client_num is_hp entry\<rparr>))"
| "handle_cfg_mac (Del_All_Macaddr_Filters client_num is_hp) s =
     (if is_hp \<noteq> 0 then Inl Assertion
      else Inr (No_Reply, s\<lparr>ms_filter := ethernet_clear_filter_table (ms_filter s) client_num is_hp\<rparr>))"
| "handle_cfg_mac (Add_Ethertype_Filter i ethertype) s =
     (case add_ethertype_filter_mac ethertype (ms_client_state s ! i) of
        None \<Rightarrow> Inl Assertion | Some c \<Rightarrow> Inr (No_Reply, on_client_mac i (\<lambda>_. c) s))"
| "handle_cfg_mac (Del_Ethertype_Filter i ethertype) s = Inr (No_Reply, on_client_mac i (del_ethertype_filter_mac ethertype) s)"
| "handle_cfg_mac Get_Tile_Id_And_Timer s = Inl Assertion"
| "handle_cfg_mac (Set_Egress_Qav_Idle_Slope slope) s = Inl Assertion"
| "handle_cfg_mac (Set_Ingress_Timestamp_Latency speed v) s = Inl Assertion"
| "handle_cfg_mac (Set_Egress_Timestamp_Latency speed v) s = Inl Assertion"
| "handle_cfg_mac (Enable_Strip_Vlan_Tag i) s = Inl Assertion"
| "handle_cfg_mac (Disable_Strip_Vlan_Tag i) s = Inl Assertion"
| "handle_cfg_mac (Enable_Link_Status_Notification i) s =
     Inr (No_Reply, on_client_mac i (\<lambda>c. c\<lparr>cs_status_update_state := STATUS_UPDATE_WAITING\<rparr>) s)"
| "handle_cfg_mac (Disable_Link_Status_Notification i) s =
     Inr (No_Reply, on_client_mac i (\<lambda>c. c\<lparr>cs_status_update_state := STATUS_UPDATE_IGNORING\<rparr>) s)"

section \<open>The server loop\<close>

datatype mac_event =
    Mac_Cfg ethernet_cfg_if
  | Mac_Rx nat ethernet_rx_if
  | Mac_Tx nat ethernet_tx_if
  | Incoming

fun handle_rx_mac :: "nat \<Rightarrow> ethernet_rx_if \<Rightarrow> mac_server \<Rightarrow> fault + (reply \<times> mac_server)" where
  "handle_rx_mac i Get_Index s = Inr (Index i, s)"
| "handle_rx_mac i (Get_Packet data) s =
     bind (get_packet_mac i data s) (\<lambda>(info, data, s). Inr (Packet info data, s))"

fun handle_tx_mac :: "ethernet_tx_if \<Rightarrow> mac_server \<Rightarrow> fault + (reply \<times> mac_server)" where
  "handle_tx_mac (Init_Send_Packet n) s = Inr (No_Reply, s)"
| "handle_tx_mac (Complete_Send_Packet data ts) s = bind (complete_send_packet_mac data s) (\<lambda>s. Inr (No_Reply, s))"
| "handle_tx_mac Get_Outgoing_Timestamp s = Inl Assertion"

text \<open>One turn of the loop; \<open>Incoming\<close> can be taken when a notification is in the channel.\<close>

fun mii_ethernet_aux :: "mac_event \<Rightarrow> mac_server \<Rightarrow> fault + (reply \<times> mac_server)" where
  "mii_ethernet_aux (Mac_Cfg e) s = handle_cfg_mac e s"
| "mii_ethernet_aux (Mac_Rx i e) s = handle_rx_mac i e s"
| "mii_ethernet_aux (Mac_Tx i e) s = handle_tx_mac e s"
| "mii_ethernet_aux Incoming s =
     (case mii_notified (ms_mii s) of
        None \<Rightarrow> Inr (No_Reply, s)
      | Some t \<Rightarrow> bind (incoming_packet (s\<lparr>ms_mii := t\<rparr>)) (\<lambda>s. Inr (No_Reply, s)))"

end
