(* ===== verification/Mii_Lite_Chain.thy ===== *)
theory Mii_Lite_Chain
  imports Mii_Lite
begin

text \<open>
  The chain of buffers in one bank of the MII driver, as a list of header addresses and signed
  lengths (negative once released). A chain lies in one piece from the free pointer to the write
  pointer, or, when it has wrapped, in two: from the free pointer to a word 0, and from the head of the
  bank to the write pointer. Each update of the headers the driver makes is one lemma.
\<close>

section \<open>Sizes\<close>

lemma and_not_3: "x AND NOT 3 = 4 * (x div 4)" for x :: int
proof -
  have m: "(3 :: int) = mask 2" by (simp add: mask_eq_exp_minus_1)
  have "x AND NOT 3 = push_bit 2 (drop_bit 2 x)"
    unfolding m by (rule bit_eqI) (auto simp: bit_simps simp del: add_2_eq_Suc add_2_eq_Suc')
  then show ?thesis by (simp add: push_bit_eq_mult drop_bit_eq_div)
qed

lemma round_bytes_eq: "round_bytes n = 4 * ((n + 3) div 4) + 4"
  unfolding round_bytes_def and_not_3 ..

text \<open>The lengths the driver keeps: 64 to 1522 bytes, released or not.\<close>

definition len_ok :: "int \<Rightarrow> bool" where
  "len_ok l \<longleftrightarrow> 64 \<le> \<bar>l\<bar> \<and> \<bar>l\<bar> \<le> 1522"

lemma round_range: "len_ok l \<Longrightarrow> 68 \<le> round_bytes \<bar>l\<bar> \<and> round_bytes \<bar>l\<bar> \<le> 1528 \<and> round_bytes \<bar>l\<bar> mod 4 = 0 \<and>
    \<bar>l\<bar> + 4 \<le> round_bytes \<bar>l\<bar>"
  unfolding round_bytes_eq len_ok_def by presburger

lemma mod4_shift: "(b :: int) mod 4 = 0 \<Longrightarrow> (a - b) mod 4 = 0 \<Longrightarrow> a mod 4 = 0"
  by presburger

lemma mod4_chain: "(b :: int) mod 4 = 0 \<Longrightarrow> (a - (p + b)) mod 4 = 0 \<Longrightarrow> (a - p) mod 4 = 0"
  by presburger

section \<open>Segments\<close>

type_synonym buffer = "addr \<times> int"

fun seg :: "mem \<Rightarrow> addr \<Rightarrow> buffer list \<Rightarrow> addr \<Rightarrow> bool" where
  "seg m p [] q \<longleftrightarrow> p = q"
| "seg m p ((a, l) # bs) q \<longleftrightarrow> a = p \<and> sint (m p) = l \<and> len_ok l \<and> seg m (p + round_bytes \<bar>l\<bar>) bs q"

lemma seg_append: "seg m p (xs @ ys) q \<longleftrightarrow> (\<exists>r. seg m p xs r \<and> seg m r ys q)"
  by (induction xs arbitrary: p) auto

lemma seg_le: "seg m p bs q \<Longrightarrow> p \<le> q \<and> (q - p) mod 4 = 0"
proof (induction bs arbitrary: p)
  case Nil
  then show ?case by simp
next
  case (Cons b bs)
  obtain a l where b: "b = (a, l)" by (cases b)
  have "68 \<le> round_bytes \<bar>l\<bar>" "round_bytes \<bar>l\<bar> mod 4 = 0" using Cons.prems round_range [of l] by (simp_all add: b)
  moreover have "p + round_bytes \<bar>l\<bar> \<le> q" "(q - (p + round_bytes \<bar>l\<bar>)) mod 4 = 0"
    using Cons by (auto simp: b)
  ultimately show ?case by presburger
qed

lemma seg_member:
  "seg m p bs q \<Longrightarrow> (a, l) \<in> set bs \<Longrightarrow>
     p \<le> a \<and> a + round_bytes \<bar>l\<bar> \<le> q \<and> (a - p) mod 4 = 0 \<and> sint (m a) = l \<and> len_ok l"
proof (induction bs arbitrary: p)
  case Nil
  then show ?case by simp
next
  case (Cons b bs)
  obtain c k where b: "b = (c, k)" by (cases b)
  have k: "68 \<le> round_bytes \<bar>k\<bar>" "round_bytes \<bar>k\<bar> mod 4 = 0" using Cons.prems round_range [of k] by (simp_all add: b)
  show ?case
  proof (cases "(a, l) = b")
    case True
    then show ?thesis using Cons.prems seg_le [of m "p + round_bytes \<bar>k\<bar>" bs q] by (auto simp: b)
  next
    case False
    then have "p + round_bytes \<bar>k\<bar> \<le> a \<and> a + round_bytes \<bar>l\<bar> \<le> q \<and> (a - (p + round_bytes \<bar>k\<bar>)) mod 4 = 0 \<and>
        sint (m a) = l \<and> len_ok l"
      using Cons by (auto simp: b)
    moreover from this have "(a - p) mod 4 = 0" using mod4_chain [OF k(2)] by simp
    ultimately show ?thesis using k by simp
  qed
qed

lemma seg_frame: "seg m p bs q \<Longrightarrow> (\<And>a. p \<le> a \<Longrightarrow> a < q \<Longrightarrow> m' a = m a) \<Longrightarrow> seg m' p bs q"
proof (induction bs arbitrary: p)
  case Nil
  then show ?case by simp
next
  case (Cons b bs)
  obtain a l where b: "b = (a, l)" by (cases b)
  have l: "68 \<le> round_bytes \<bar>l\<bar>" using Cons.prems(1) round_range [of l] by (simp add: b)
  have tail: "seg m (p + round_bytes \<bar>l\<bar>) bs q" using Cons.prems(1) by (simp add: b)
  have "p < q" using seg_le [OF tail] l by simp
  then have "m' p = m p" using Cons.prems(2) by simp
  moreover have "seg m' (p + round_bytes \<bar>l\<bar>) bs q"
    using Cons.IH [OF tail] Cons.prems(2) l by simp
  ultimately show ?case using Cons.prems(1) by (simp add: b)
qed

text \<open>What follows a buffer in a segment starts where the buffer ends.\<close>

definition head_of :: "buffer list \<Rightarrow> addr \<Rightarrow> addr" where
  "head_of bs q = (case bs of [] \<Rightarrow> q | (a, _) # _ \<Rightarrow> a)"

lemma head_of_simps [simp]: "head_of [] q = q" "head_of ((a, l) # bs) q = a"
  by (simp_all add: head_of_def)

lemma head_of_append: "head_of (xs @ ys) q = head_of xs (head_of ys q)"
  by (simp add: head_of_def split: list.split)

lemma seg_head: "seg m p bs q \<Longrightarrow> head_of bs q = p"
  by (cases bs) auto

lemma seg_next: "seg m p (xs @ (a, l) # ys) q \<Longrightarrow> head_of ys q = a + round_bytes \<bar>l\<bar>"
  by (auto simp: seg_append dest!: seg_head)

text \<open>Two different buffers of a segment do not overlap.\<close>

lemma seg_disjoint:
  "seg m p bs q \<Longrightarrow> (a, l) \<in> set bs \<Longrightarrow> (c, k) \<in> set bs \<Longrightarrow>
     (a, l) = (c, k) \<or> a + round_bytes \<bar>l\<bar> \<le> c \<or> c + round_bytes \<bar>k\<bar> \<le> a"
proof (induction bs arbitrary: p)
  case Nil
  then show ?case by simp
next
  case (Cons b bs)
  obtain x y where b: "b = (x, y)" by (cases b)
  have tail: "seg m (p + round_bytes \<bar>y\<bar>) bs q" "x = p" using Cons.prems(1) by (simp_all add: b)
  show ?case
    using Cons.IH [OF tail(1)] Cons.prems(2,3) seg_member [OF tail(1), of a l] seg_member [OF tail(1), of c k] tail(2)
    by (auto simp: b)
qed

lemma seg_distinct: "seg m p bs q \<Longrightarrow> distinct (map fst bs)"
proof (induction bs arbitrary: p)
  case Nil
  then show ?case by simp
next
  case (Cons b bs)
  obtain x y where b: "b = (x, y)" by (cases b)
  have tail: "seg m (p + round_bytes \<bar>y\<bar>) bs q" "x = p" "68 \<le> round_bytes \<bar>y\<bar>"
    using Cons.prems round_range [of y] by (simp_all add: b)
  then have "(x, k) \<notin> set bs" for k using seg_member [OF tail(1), of x k] by auto
  then show ?case using Cons.IH [OF tail(1)] by (auto simp: b)
qed

text \<open>A buffer of a segment is released by negating its length.\<close>

definition release :: "addr \<Rightarrow> buffer list \<Rightarrow> buffer list" where
  "release a bs = map (\<lambda>(c, k). if c = a then (c, - k) else (c, k)) bs"

lemma release_append: "release a (xs @ ys) = release a xs @ release a ys"
  by (simp add: release_def)

lemma release_id: "(\<And>l. (a, l) \<notin> set bs) \<Longrightarrow> release a bs = bs"
  unfolding release_def by (rule map_idI) auto

lemma set_release: "(x, y) \<in> set (release a bs) \<longleftrightarrow> (if x = a then (x, - y) \<in> set bs else (x, y) \<in> set bs)"
  by (induction bs) (auto simp: release_def split: if_splits)

lemma seg_release:
  "seg m p bs q \<Longrightarrow> (a, l) \<in> set bs \<Longrightarrow> sint v = - l \<Longrightarrow> seg (m(a := v)) p (release a bs) q"
proof (induction bs arbitrary: p)
  case Nil
  then show ?case by simp
next
  case (Cons b bs)
  obtain x y where b: "b = (x, y)" by (cases b)
  have tail: "seg m (p + round_bytes \<bar>y\<bar>) bs q" and x: "x = p" "sint (m x) = y" "len_ok y"
    using Cons.prems(1) by (simp_all add: b)
  have len: "68 \<le> round_bytes \<bar>y\<bar>" using x round_range by blast
  show ?case
  proof (cases "a = x")
    case True
    have none: "(a, k) \<notin> set bs" for k using seg_member [OF tail, of a k] True x len by auto
    then have rel: "release a bs = bs" and l: "l = y" using Cons.prems(2) by (auto simp: release_id b)
    have "seg (m(a := v)) (p + round_bytes \<bar>y\<bar>) bs q"
      by (rule seg_frame [OF tail]) (use len True x in auto)
    then show ?thesis
      using True x rel l Cons.prems(3) by (auto simp: release_def b len_ok_def fun_upd_def)
  next
    case False
    have "seg (m(a := v)) (p + round_bytes \<bar>y\<bar>) (release a bs) q"
      by (rule Cons.IH [OF tail]) (use Cons.prems(2,3) False b in auto)
    then show ?thesis using False x by (simp add: release_def b fun_upd_def)
  qed
qed

lemma seg_release_other:
  "seg m p bs q \<Longrightarrow> a < p \<or> q \<le> a \<Longrightarrow> seg (m(a := v)) p (release a bs) q"
proof -
  assume s: "seg m p bs q" and a: "a < p \<or> q \<le> a"
  have "\<And>k. (a, k) \<notin> set bs" using seg_member [OF s] round_range a by fastforce
  then have "release a bs = bs" by (rule release_id)
  moreover have "seg (m(a := v)) p bs q" by (rule seg_frame [OF s]) (use a in auto)
  ultimately show ?thesis by simp
qed

section \<open>Chains\<close>

text \<open>
  A chain in the bank from \<open>F\<close> to \<open>E\<close>: \<open>fr\<close> is the free pointer, \<open>wr\<close> the write pointer, \<open>b1\<close> the
  buffers from the free pointer on, \<open>b2\<close> those at the head of the bank when the chain has wrapped, that
  is when the write pointer is below the free pointer.
\<close>

definition chain :: "mem \<Rightarrow> addr \<Rightarrow> addr \<Rightarrow> addr \<Rightarrow> addr \<Rightarrow> buffer list \<Rightarrow> buffer list \<Rightarrow> bool" where
  "chain m F E fr wr b1 b2 \<longleftrightarrow>
     0 < F \<and> E \<le> 2 ^ 32 \<and> F mod 4 = 0 \<and> E mod 4 = 0 \<and> F \<le> fr \<and> fr mod 4 = 0 \<and> wr mod 4 = 0 \<and> wr \<le> E - 4 \<and>
     m (wr - 4) = 1 \<and> (\<forall>(a, l)\<in>set (b1 @ b2). a \<le> E - 1536) \<and>
     (if wr \<le> fr
      then b1 \<noteq> [] \<and> (\<exists>z. seg m fr b1 z \<and> m z = 0 \<and> z \<le> E - 8) \<and> seg m F b2 (wr - 4)
      else b2 = [] \<and> seg m fr b1 (wr - 4))"

text \<open>The write pointer has room for a buffer, as the code tests it.\<close>

definition ready :: "addr \<Rightarrow> addr \<Rightarrow> addr \<Rightarrow> bool" where
  "ready E fr wr \<longleftrightarrow> (if wr \<le> fr then wr + 1532 \<le> fr else wr \<le> E - 1532)"

lemma len_not_special: "len_ok l \<Longrightarrow> l \<noteq> 0 \<and> l \<noteq> 1"
  by (auto simp: len_ok_def)

lemma chain_cases [consumes 1, case_names wrapped straight]:
  assumes "chain m F E fr wr b1 b2"
  obtains z where "wr \<le> fr" "b1 \<noteq> []" "seg m fr b1 z" "m z = 0" "z \<le> E - 8" "seg m F b2 (wr - 4)"
      "F + 4 \<le> wr" "fr \<le> E - 1536"
  | "fr < wr" "b2 = []" "seg m fr b1 (wr - 4)" "F + 4 \<le> wr" "fr \<le> wr - 4"
proof (cases "wr \<le> fr")
  case True
  obtain z where "b1 \<noteq> []" "seg m fr b1 z" "m z = 0" "z \<le> E - 8" "seg m F b2 (wr - 4)"
    using assms True by (auto simp: chain_def)
  moreover have "fr \<le> E - 1536"
    using assms \<open>b1 \<noteq> []\<close> seg_head [OF \<open>seg m fr b1 z\<close>] by (auto simp: chain_def neq_Nil_conv)
  moreover have "F + 4 \<le> wr" using seg_le [OF \<open>seg m F b2 (wr - 4)\<close>] by simp
  ultimately show ?thesis using that(1) True by blast
next
  case False
  then have s: "b2 = []" "seg m fr b1 (wr - 4)" "F \<le> fr" using assms by (simp_all add: chain_def)
  then show ?thesis using that(2) False seg_le [OF s(2)] by simp
qed

lemma chain_member:
  assumes c: "chain m F E fr wr b1 b2" and b: "(a, l) \<in> set (b1 @ b2)"
  shows "F \<le> a" "a + round_bytes \<bar>l\<bar> \<le> E - 8" "a mod 4 = 0" "sint (m a) = l" "len_ok l"
    "a + round_bytes \<bar>l\<bar> \<le> wr - 4 \<or> wr \<le> a"
    "ready E fr wr \<Longrightarrow> a + round_bytes \<bar>l\<bar> \<le> wr - 4 \<or> wr + 1532 \<le> a"
proof -
  have E: "a \<le> E - 1536" "F mod 4 = 0" "fr mod 4 = 0" "F \<le> fr" using c b by (auto simp: chain_def)
  have *: "F \<le> a \<and> a mod 4 = 0 \<and> sint (m a) = l \<and> len_ok l \<and>
      (a + round_bytes \<bar>l\<bar> \<le> wr - 4 \<or> wr \<le> a) \<and>
      (ready E fr wr \<longrightarrow> a + round_bytes \<bar>l\<bar> \<le> wr - 4 \<or> wr + 1532 \<le> a)"
    using c
  proof (cases rule: chain_cases)
    case (wrapped z)
    show ?thesis
    proof (cases "(a, l) \<in> set b1")
      case True
      note s = seg_member [OF wrapped(3) True]
      then have "a mod 4 = 0" using mod4_shift [of fr a] E by simp
      then show ?thesis using s E wrapped by (auto simp: ready_def)
    next
      case False
      then have "(a, l) \<in> set b2" using b by simp
      note s = seg_member [OF wrapped(6) this]
      then have "a mod 4 = 0" using mod4_shift [of F a] E by simp
      then show ?thesis using s by simp
    qed
  next
    case straight
    then have "(a, l) \<in> set b1" using b by simp
    note s = seg_member [OF straight(3) this]
    then have "a mod 4 = 0" using mod4_shift [of fr a] E by simp
    then show ?thesis using s E by simp
  qed
  then show "F \<le> a" "a mod 4 = 0" "sint (m a) = l" "len_ok l"
    "a + round_bytes \<bar>l\<bar> \<le> wr - 4 \<or> wr \<le> a"
    "ready E fr wr \<Longrightarrow> a + round_bytes \<bar>l\<bar> \<le> wr - 4 \<or> wr + 1532 \<le> a" by simp_all
  show "a + round_bytes \<bar>l\<bar> \<le> E - 8" using E * round_range [of l] by simp
qed

lemma chain_distinct:
  assumes "chain m F E fr wr b1 b2"
  shows "distinct (map fst (b1 @ b2))"
  using assms
proof (cases rule: chain_cases)
  case (wrapped z)
  have "x < y" if "(x, k) \<in> set b2" "(y, j) \<in> set b1" for x k y j
    using seg_member [OF wrapped(6) that(1)] seg_member [OF wrapped(3) that(2)] wrapped(1) round_range [of k] by auto
  then show ?thesis using seg_distinct [OF wrapped(3)] seg_distinct [OF wrapped(6)] by fastforce
next
  case straight
  then show ?thesis using seg_distinct by auto
qed

section \<open>What the operations do to a chain\<close>

text \<open>The room the receiver writes to is not part of the chain.\<close>

lemma chain_frame:
  assumes c: "chain m F E fr wr b1 b2"
    and low: "\<And>a. F \<le> a \<Longrightarrow> a < wr \<Longrightarrow> m' a = m a"
    and high: "\<And>a. wr \<le> fr \<Longrightarrow> fr \<le> a \<Longrightarrow> a < E \<Longrightarrow> m' a = m a"
  shows "chain m' F E fr wr b1 b2"
  using c
proof (cases rule: chain_cases)
  case (wrapped z)
  have "seg m' fr b1 z" by (rule seg_frame [OF wrapped(3)]) (use high wrapped in auto)
  moreover have "m' z = 0" using high [of z] wrapped seg_le [OF wrapped(3)] by simp
  moreover have "seg m' F b2 (wr - 4)" by (rule seg_frame [OF wrapped(6)]) (use low wrapped in auto)
  moreover have "m' (wr - 4) = m (wr - 4)" using low wrapped by simp
  ultimately show ?thesis using c wrapped by (auto simp: chain_def)
next
  case straight
  have "F \<le> fr" using c by (simp add: chain_def)
  then have "seg m' fr b1 (wr - 4)" by (intro seg_frame [OF straight(3)]) (use low in auto)
  moreover have "m' (wr - 4) = m (wr - 4)" using low straight by simp
  ultimately show ?thesis using c straight by (auto simp: chain_def)
qed

lemma seg_snoc:
  "seg m p bs q \<Longrightarrow> sint (m' q) = l \<Longrightarrow> len_ok l \<Longrightarrow> (\<And>a. p \<le> a \<Longrightarrow> a < q \<Longrightarrow> m' a = m a) \<Longrightarrow>
     seg m' p (bs @ [(q, l)]) (q + round_bytes \<bar>l\<bar>)"
  using seg_frame [of m p bs q m'] by (auto simp: seg_append)

text \<open>A frame of \<open>n\<close> bytes is recorded at the write pointer.\<close>

lemma chain_append:
  assumes c: "chain m F E fr wr b1 b2" and r: "ready E fr wr" and n: "64 \<le> n" "n \<le> 1522"
    and v: "sint v = n"
  defines "wr' \<equiv> wr + round_bytes n" and "m' \<equiv> m(wr - 4 := v, wr + round_bytes n - 4 := 1)"
  shows "\<exists>b1' b2'. chain m' F E fr wr' b1' b2' \<and> b1' @ b2' = (b1 @ b2) @ [(wr - 4, n)] \<and> (wr' \<le> fr \<longleftrightarrow> wr \<le> fr)"
proof -
  have len: "len_ok n" "68 \<le> round_bytes n" "round_bytes n \<le> 1528" "round_bytes n mod 4 = 0"
    using n round_range [of n] by (simp_all add: len_ok_def)
  have base: "0 < F" "E \<le> 2 ^ 32" "F mod 4 = 0" "E mod 4 = 0" "F \<le> fr" "fr mod 4 = 0" "wr mod 4 = 0"
    "\<forall>(a, l)\<in>set (b1 @ b2). a \<le> E - 1536" using c by (auto simp: chain_def)
  have wr': "wr' mod 4 = 0" using base(7) len(4) unfolding wr'_def by presburger
  have m': "m' (wr - 4) = v" "m' (wr' - 4) = 1" "\<And>a. a < wr - 4 \<Longrightarrow> m' a = m a"
    "\<And>a. wr + 1532 \<le> a \<Longrightarrow> m' a = m a"
    using len by (auto simp: m'_def wr'_def)
  have last: "seg m p bs (wr - 4) \<Longrightarrow> seg m' p (bs @ [(wr - 4, n)]) (wr' - 4)" for p bs
    using seg_snoc [of m p bs "wr - 4" m' n] m' v len n by (simp add: wr'_def algebra_simps)
  show ?thesis
    using c
  proof (cases rule: chain_cases)
    case (wrapped z)
    have fr: "wr + 1532 \<le> fr" using r wrapped by (simp add: ready_def)
    have "seg m' fr b1 z" by (rule seg_frame [OF wrapped(3)]) (use m' fr in auto)
    moreover have "m' z = 0" using m' fr wrapped seg_le [OF wrapped(3)] by simp
    ultimately have "chain m' F E fr wr' b1 (b2 @ [(wr - 4, n)])"
      using wrapped base last [OF wrapped(6)] m' wr' len fr unfolding chain_def by (auto simp: wr'_def)
    then show ?thesis using wrapped len fr by (intro exI [of _ b1] exI [of _ "b2 @ [(wr - 4, n)]"]) (auto simp: wr'_def)
  next
    case straight
    have "wr \<le> E - 1532" using r straight by (simp add: ready_def)
    then have "chain m' F E fr wr' (b1 @ [(wr - 4, n)]) []"
      using straight base last [OF straight(3)] m' wr' len unfolding chain_def by (auto simp: wr'_def)
    then show ?thesis using straight len by (intro exI [of _ "b1 @ [(wr - 4, n)]"] exI [of _ "[]"]) (auto simp: wr'_def)
  qed
qed

text \<open>The write pointer goes back to the head of the bank.\<close>

lemma chain_wrap:
  assumes c: "chain m F E fr wr b1 b2" and s: "fr < wr" "fr \<noteq> F" "b1 \<noteq> []"
  shows "chain (m(wr - 4 := 0, F := 1)) F E fr (F + 4) b1 []"
proof -
  have base: "F mod 4 = 0" "F \<le> fr" "fr mod 4 = 0" "wr \<le> E - 4" using c by (simp_all add: chain_def)
  then have fr: "F + 4 \<le> fr" using s(2) by presburger
  have b: "b2 = []" "seg m fr b1 (wr - 4)" using c s(1) by (simp_all add: chain_def)
  have "seg (m(wr - 4 := 0, F := 1)) fr b1 (wr - 4)" by (rule seg_frame [OF b(2)]) (use fr in auto)
  then show ?thesis using c s b fr base by (auto simp: chain_def)
qed

text \<open>Where reading goes on after a buffer.\<close>

lemma chain_next:
  assumes c: "chain m F E fr wr b1 b2" and b: "b1 @ b2 = xs @ (a, l) # ys"
  defines "p \<equiv> a + round_bytes \<bar>l\<bar>"
  shows "(if m p = 0 then F else p) = head_of ys (wr - 4)"
proof -
  have lead: "m p \<noteq> 0" if "seg m r (us @ (a, l) # vs) q" "m q = 1 \<or> vs \<noteq> []" for r us vs q
  proof (cases vs)
    case Nil
    then show ?thesis using that seg_next [OF that(1)] by (simp add: p_def)
  next
    case (Cons v vs')
    obtain x y where v: "v = (x, y)" by (cases v)
    have "sint (m p) = y" "len_ok y"
      using seg_member [OF that(1), of x y] seg_next [OF that(1)] by (simp_all add: Cons v p_def)
    then show ?thesis using len_not_special [of y] by auto
  qed
  have wr: "m (wr - 4) = 1" using c by (simp add: chain_def)
  show ?thesis
    using c
  proof (cases rule: chain_cases)
    case (wrapped z)
    note heads = seg_head [OF wrapped(6)]
    from b consider us where "b1 = xs @ (a, l) # us" "ys = us @ b2" | us where "b2 = us @ (a, l) # ys"
      by (auto simp: append_eq_append_conv2 append_eq_Cons_conv Cons_eq_append_conv)
    then show ?thesis
    proof cases
      case 1
      then show ?thesis
        using wrapped lead [of fr xs us z] seg_next [of m fr xs a l us z] heads
        by (cases us) (auto simp: head_of_append p_def)
    next
      case 2
      then show ?thesis
        using wrapped wr lead [of F us ys "wr - 4"] seg_next [of m F us a l ys "wr - 4"] by (simp add: p_def)
    qed
  next
    case straight
    then have "seg m fr (xs @ (a, l) # ys) (wr - 4)" using b by simp
    from seg_next [OF this] lead [OF this] wr show ?thesis by (simp add: p_def)
  qed
qed

text \<open>A buffer is released: its length is negated.\<close>

lemma chain_release:
  assumes c: "chain m F E fr wr b1 b2" and b: "(a, l) \<in> set (b1 @ b2)" and v: "sint v = - l"
  shows "chain (m(a := v)) F E fr wr (release a b1) (release a b2)"
proof -
  have "x \<le> E - 1536" if "(x, y) \<in> set (b1 @ b2)" for x y using c that unfolding chain_def by blast
  then have set: "\<forall>(x, y)\<in>set (release a b1 @ release a b2). x \<le> E - 1536"
    by (force simp: set_release split: if_splits)
  have ne: "a \<noteq> wr - 4" using chain_member(6) [OF c b] chain_member(5) [OF c b] round_range [of l] by auto
  then have wr: "(m(a := v)) (wr - 4) = 1" using c by (simp add: chain_def)
  show ?thesis
    using c
  proof (cases rule: chain_cases)
    case (wrapped z)
    have zr: "fr \<le> z" using seg_le [OF wrapped(3)] by simp
    have "seg (m(a := v)) fr (release a b1) z \<and> (m(a := v)) z = 0 \<and> seg (m(a := v)) F (release a b2) (wr - 4)"
    proof (cases "(a, l) \<in> set b1")
      case True
      have az: "fr \<le> a" "a < z" using seg_member [OF wrapped(3) True] round_range [of l] by auto
      have "seg (m(a := v)) F (release a b2) (wr - 4)"
        using az wrapped by (intro seg_release_other [OF wrapped(6)]) simp
      then show ?thesis using seg_release [OF wrapped(3) True v] az wrapped by simp
    next
      case False
      then have in2: "(a, l) \<in> set b2" using b by simp
      have az: "F \<le> a" "a < wr - 4" using seg_member [OF wrapped(6) in2] round_range [of l] by auto
      have "seg (m(a := v)) fr (release a b1) z"
        using az wrapped by (intro seg_release_other [OF wrapped(3)]) simp
      then show ?thesis using seg_release [OF wrapped(6) in2 v] az wrapped zr by simp
    qed
    then show ?thesis using c wrapped set wr by (auto simp: chain_def release_def)
  next
    case straight
    then have "seg (m(a := v)) fr (release a b1) (wr - 4)"
      using seg_release [OF straight(3) _ v] b by simp
    then show ?thesis using c straight set wr by (auto simp: chain_def release_def)
  qed
qed

text \<open>The free pointer moves over a released buffer, and over the end of the bank.\<close>

lemma chain_skip:
  assumes c: "chain m F E fr wr ((a, l) # bs) b2"
  defines "p \<equiv> fr + round_bytes \<bar>l\<bar>"
  shows "a = fr" "sint (m fr) = l"
    "bs \<noteq> [] \<or> fr < wr \<Longrightarrow> chain m F E p wr bs b2 \<and> (wr \<le> p \<longleftrightarrow> wr \<le> fr) \<and> fr < p"
    "bs = [] \<Longrightarrow> wr \<le> fr \<Longrightarrow> m p = 0 \<and> chain m F E F wr b2 [] \<and> F < wr"
proof -
  have base: "F mod 4 = 0" "F \<le> fr" "fr mod 4 = 0" "0 < F" "E \<le> 2 ^ 32" "E mod 4 = 0" "wr mod 4 = 0"
    "wr \<le> E - 4" "m (wr - 4) = 1" "\<forall>(x, y)\<in>set (((a, l) # bs) @ b2). x \<le> E - 1536"
    using c by (auto simp: chain_def)
  show head: "a = fr" "sint (m fr) = l" using c by (auto simp: chain_def split: if_splits)
  have "len_ok l" using chain_member(5) [OF c, of a l] by simp
  then have len: "68 \<le> round_bytes \<bar>l\<bar>" "round_bytes \<bar>l\<bar> mod 4 = 0" using round_range by blast+
  have pm: "p mod 4 = 0" "fr < p" using base(3) len unfolding p_def by presburger+
  show "chain m F E p wr bs b2 \<and> (wr \<le> p \<longleftrightarrow> wr \<le> fr) \<and> fr < p" if "bs \<noteq> [] \<or> fr < wr"
    using c
  proof (cases rule: chain_cases)
    case (wrapped z)
    then have "bs \<noteq> []" "seg m p bs z" using that by (simp_all add: p_def)
    then show ?thesis using base pm wrapped unfolding chain_def by auto
  next
    case straight
    then have s: "seg m p bs (wr - 4)" by (simp add: p_def)
    then show ?thesis using seg_le [OF s] base pm straight unfolding chain_def by auto
  qed
  show "m p = 0 \<and> chain m F E F wr b2 [] \<and> F < wr" if "bs = []" "wr \<le> fr"
    using c
  proof (cases rule: chain_cases)
    case (wrapped z)
    then show ?thesis using base that unfolding chain_def by (auto simp: p_def)
  next
    case straight
    then show ?thesis using that by simp
  qed
qed

lemma chain_empty: "chain m F E fr wr [] b2 \<Longrightarrow> fr = wr - 4 \<and> b2 = [] \<and> m fr = 1"
  by (auto simp: chain_def split: if_splits)

end
