(* ===== verification/Mii_Lite_Bank.thy ===== *)
theory Mii_Lite_Bank
  imports Mii_Lite_Chain
begin

text \<open>
  One bank of the MII driver: a chain whose buffers are those already read, released or held by the
  client, followed by those still to be read. Each operation of the driver on one bank is one lemma.
\<close>

section \<open>The state of a bank\<close>

text \<open>\<open>un\<close> are the buffers still to be read, oldest first, \<open>H\<close> those the client holds.\<close>

definition bank :: "mem \<Rightarrow> addr \<Rightarrow> addr \<Rightarrow> addr \<Rightarrow> addr \<Rightarrow> addr \<Rightarrow> buffer list \<Rightarrow> buffer set \<Rightarrow> bool" where
  "bank m F E fr wr rp un H \<longleftrightarrow>
     (\<exists>b1 b2 old. chain m F E fr wr b1 b2 \<and> b1 @ b2 = old @ un \<and> (\<forall>(a, l)\<in>set un. 0 < l) \<and>
        H = {(a, l). (a, l) \<in> set old \<and> 0 < l} \<and> rp = head_of un (wr - 4))"

text \<open>A bank at whose end there is no room has no room at its head either.\<close>

definition stuck_ok :: "addr \<Rightarrow> addr \<Rightarrow> addr \<Rightarrow> addr \<Rightarrow> bool" where
  "stuck_ok F E fr wr \<longleftrightarrow> (fr < wr \<and> E - 1532 < wr \<longrightarrow> fr = F)"

lemma bank_member:
  assumes b: "bank m F E fr wr rp un H" and a: "(a, l) \<in> set un \<union> H"
  shows "F \<le> a" "a + round_bytes l \<le> E - 8" "a mod 4 = 0" "sint (m a) = l" "64 \<le> l" "l \<le> 1522"
    "a + round_bytes l \<le> wr - 4 \<or> wr \<le> a"
    "ready E fr wr \<Longrightarrow> a + round_bytes l \<le> wr - 4 \<or> wr + 1532 \<le> a"
proof -
  obtain b1 b2 old where c: "chain m F E fr wr b1 b2" and eq: "b1 @ b2 = old @ un"
      and pos: "\<forall>(a, l)\<in>set un. 0 < l" "H = {(a, l). (a, l) \<in> set old \<and> 0 < l}"
    using b unfolding bank_def by blast
  have "(a, l) \<in> set (b1 @ b2)" "0 < l" using a pos unfolding eq by auto
  note s = chain_member [OF c this(1)] this(2)
  then show "F \<le> a" "a + round_bytes l \<le> E - 8" "a mod 4 = 0" "sint (m a) = l" "64 \<le> l" "l \<le> 1522"
    "a + round_bytes l \<le> wr - 4 \<or> wr \<le> a"
    "ready E fr wr \<Longrightarrow> a + round_bytes l \<le> wr - 4 \<or> wr + 1532 \<le> a"
    by (simp_all add: len_ok_def)
qed

lemma bank_disjoint:
  assumes b: "bank m F E fr wr rp un H" and a: "(a, l) \<in> set un \<union> H" and c: "(c, k) \<in> set un \<union> H"
  shows "(a, l) = (c, k) \<or> a + round_bytes l \<le> c \<or> c + round_bytes k \<le> a"
proof -
  obtain b1 b2 old where ch: "chain m F E fr wr b1 b2" and eq: "b1 @ b2 = old @ un"
      and pos: "\<forall>(a, l)\<in>set un. 0 < l" "H = {(a, l). (a, l) \<in> set old \<and> 0 < l}"
    using b unfolding bank_def by blast
  have m: "(a, l) \<in> set b1 \<union> set b2" "(c, k) \<in> set b1 \<union> set b2" "0 < l" "0 < k"
    using a c pos unfolding set_append [symmetric] eq by auto
  show ?thesis
    using ch
  proof (cases rule: chain_cases)
    case (wrapped z)
    show ?thesis
      using m seg_disjoint [OF wrapped(3), of a l c k] seg_disjoint [OF wrapped(6), of a l c k]
        seg_member [OF wrapped(3), of a l] seg_member [OF wrapped(6), of a l]
        seg_member [OF wrapped(3), of c k] seg_member [OF wrapped(6), of c k] wrapped(1)
      by (elim UnE) auto
  next
    case straight
    then show ?thesis using m seg_disjoint [OF straight(3), of a l c k] by auto
  qed
qed

lemma bank_fresh:
  assumes b: "bank m F E fr wr rp ((a, l) # un) H"
  shows "(a, k) \<notin> H"
proof -
  obtain b1 b2 old where c: "chain m F E fr wr b1 b2" and eq: "b1 @ b2 = old @ (a, l) # un"
      and H: "H = {(a, l). (a, l) \<in> set old \<and> 0 < l}"
    using b unfolding bank_def by blast
  have "distinct (map fst (old @ (a, l) # un))" using chain_distinct [OF c] unfolding eq .
  then show ?thesis unfolding H by force
qed

lemma bank_base:
  assumes "bank m F E fr wr rp un H"
  shows "0 < F" "E \<le> 2 ^ 32" "F \<le> fr" "F + 4 \<le> wr" "wr \<le> E - 4" "wr \<le> fr \<Longrightarrow> fr \<le> E - 1536" "m (wr - 4) = 1"
    "F mod 4 = 0" "E mod 4 = 0" "fr mod 4 = 0" "wr mod 4 = 0"
proof -
  obtain b1 b2 where c: "chain m F E fr wr b1 b2" using assms unfolding bank_def by blast
  then show "0 < F" "E \<le> 2 ^ 32" "F \<le> fr" "wr \<le> E - 4" "m (wr - 4) = 1"
    "F mod 4 = 0" "E mod 4 = 0" "fr mod 4 = 0" "wr mod 4 = 0" by (simp_all add: chain_def)
  show "F + 4 \<le> wr" "wr \<le> fr \<Longrightarrow> fr \<le> E - 1536" using c by (cases rule: chain_cases, auto)+
qed

section \<open>Operations on a bank\<close>

lemma bank_frame:
  assumes b: "bank m F E fr wr rp un H"
    and low: "\<And>a. F \<le> a \<Longrightarrow> a < wr \<Longrightarrow> m' a = m a"
    and high: "\<And>a. wr \<le> fr \<Longrightarrow> fr \<le> a \<Longrightarrow> a < E \<Longrightarrow> m' a = m a"
  shows "bank m' F E fr wr rp un H"
proof -
  obtain b1 b2 old where c: "chain m F E fr wr b1 b2" and rest: "b1 @ b2 = old @ un" "\<forall>(a, l)\<in>set un. 0 < l"
      "H = {(a, l). (a, l) \<in> set old \<and> 0 < l}" "rp = head_of un (wr - 4)"
    using b unfolding bank_def by blast
  have "chain m' F E fr wr b1 b2" by (rule chain_frame [OF c low high])
  then show ?thesis unfolding bank_def using rest by blast
qed

lemma bank_append:
  assumes b: "bank m F E fr wr rp un H" and r: "ready E fr wr" and n: "64 \<le> n" "n \<le> 1522"
    and v: "sint v = n"
  shows "bank (m(wr - 4 := v, wr + round_bytes n - 4 := 1)) F E fr (wr + round_bytes n) rp (un @ [(wr - 4, n)]) H \<and>
    (wr + round_bytes n \<le> fr \<longleftrightarrow> wr \<le> fr)"
proof -
  obtain b1 b2 old where c: "chain m F E fr wr b1 b2" and eq: "b1 @ b2 = old @ un"
      and pos: "\<forall>(a, l)\<in>set un. 0 < l" "H = {(a, l). (a, l) \<in> set old \<and> 0 < l}" and rp: "rp = head_of un (wr - 4)"
    using b unfolding bank_def by blast
  obtain b1' b2' where c': "chain (m(wr - 4 := v, wr + round_bytes n - 4 := 1)) F E fr (wr + round_bytes n) b1' b2'"
      "b1' @ b2' = old @ (un @ [(wr - 4, n)])" "wr + round_bytes n \<le> fr \<longleftrightarrow> wr \<le> fr"
    using chain_append [OF c r n v] unfolding eq by auto
  moreover have "rp = head_of (un @ [(wr - 4, n)]) (wr + round_bytes n - 4)"
    using rp by (simp add: head_of_append)
  ultimately show ?thesis
    using pos n unfolding bank_def by (intro conjI exI [of _ b1'] exI [of _ b2'] exI [of _ old]) auto
qed

lemma bank_wrap:
  assumes b: "bank m F E fr wr rp un H" and s: "fr < wr" "fr \<noteq> F" "un \<noteq> []"
  shows "bank (m(wr - 4 := 0, F := 1)) F E fr (F + 4) rp un H"
proof -
  obtain b1 b2 old where c: "chain m F E fr wr b1 b2" and eq: "b1 @ b2 = old @ un"
      and rest: "\<forall>(a, l)\<in>set un. 0 < l" "H = {(a, l). (a, l) \<in> set old \<and> 0 < l}" "rp = head_of un (wr - 4)"
    using b unfolding bank_def by blast
  have b2: "b2 = []" "b1 = old @ un" using c s eq by (simp_all add: chain_def)
  then have "chain (m(wr - 4 := 0, F := 1)) F E fr (F + 4) b1 []"
    using chain_wrap [OF c s(1,2)] s(3) by simp
  moreover have "rp = head_of un (F + 4 - 4)" using rest(3) s(3) by (cases un) auto
  ultimately show ?thesis
    unfolding bank_def using b2 rest by (intro exI [of _ b1] exI [of _ "[]"] exI [of _ old]) simp
qed

lemma bank_get:
  assumes b: "bank m F E fr wr rp ((a, l) # un) H"
  shows "rp = a" "sint (m a) = l" "64 \<le> l"
    "bank m F E fr wr (if m (a + round_bytes l) = 0 then F else a + round_bytes l) un (insert (a, l) H)"
proof -
  obtain b1 b2 old where c: "chain m F E fr wr b1 b2" and eq: "b1 @ b2 = old @ (a, l) # un"
      and rest: "\<forall>(a, l)\<in>set ((a, l) # un). 0 < l" "H = {(a, l). (a, l) \<in> set old \<and> 0 < l}"
        "rp = head_of ((a, l) # un) (wr - 4)"
    using b unfolding bank_def by blast
  have pos: "0 < l" using rest by simp
  show "rp = a" using rest by simp
  show "sint (m a) = l" "64 \<le> l" using bank_member [OF b, of a l] by simp_all
  have "(if m (a + round_bytes l) = 0 then F else a + round_bytes l) = head_of un (wr - 4)"
    using chain_next [OF c eq] unfolding abs_of_pos [OF pos] .
  then show "bank m F E fr wr (if m (a + round_bytes l) = 0 then F else a + round_bytes l) un (insert (a, l) H)"
    unfolding bank_def using c eq rest by (intro exI [of _ b1] exI [of _ b2] exI [of _ "old @ [(a, l)]"]) auto
qed

lemma bank_release:
  assumes b: "bank m F E fr wr rp un H" and a: "(a, l) \<in> H" and v: "sint v = - l"
  shows "bank (m(a := v)) F E fr wr rp un (H - {(a, l)})"
proof -
  obtain b1 b2 old where c: "chain m F E fr wr b1 b2" and eq: "b1 @ b2 = old @ un"
      and rest: "\<forall>(a, l)\<in>set un. 0 < l" "H = {(a, l). (a, l) \<in> set old \<and> 0 < l}" "rp = head_of un (wr - 4)"
    using b unfolding bank_def by blast
  have mem: "(a, l) \<in> set (b1 @ b2)" "0 < l" using a rest unfolding eq by auto
  have dist: "distinct (map fst (old @ un))" using chain_distinct [OF c] unfolding eq .
  have "(a, l) \<in> set old" using a rest by simp
  then have un: "(a, k) \<notin> set un" and old: "(a, k) \<in> set old \<Longrightarrow> k = l" for k
    using dist mem(1) unfolding eq by (force simp: image_iff, metis chain_member(4) [OF c] UnI1 eq set_append mem(1))
  have "chain (m(a := v)) F E fr wr (release a b1) (release a b2)" by (rule chain_release [OF c mem(1) v])
  moreover have "release a b1 @ release a b2 = release a old @ un"
    unfolding release_append [symmetric] eq using release_id [OF un] by (simp add: release_append)
  moreover have "H - {(a, l)} = {(x, y). (x, y) \<in> set (release a old) \<and> 0 < y}"
  proof (rule set_eqI, clarify)
    fix x y
    show "(x, y) \<in> H - {(a, l)} \<longleftrightarrow> (x, y) \<in> {(x, y). (x, y) \<in> set (release a old) \<and> 0 < y}"
      using old [of y] old [of "- y"] mem(2) unfolding rest(2) by (cases "x = a") (auto simp: set_release)
  qed
  ultimately show ?thesis unfolding bank_def using rest by blast
qed

section \<open>The loop over released buffers\<close>

lemma ready_head: "chain m F E fr wr b1 b2 \<Longrightarrow> wr \<le> fr \<Longrightarrow> ready E F wr"
  by (erule chain_cases) (auto simp: ready_def)

lemma free_loop_stop: "0 < get_word (free_ptr t b) t \<Longrightarrow> free_loop b t = Some t"
  by (subst free_loop.simps) simp

lemma free_loop_zero:
  "get_word (free_ptr t b) t = 0 \<Longrightarrow> free_loop b t = free_loop b (t\<lparr>free_ptr := (free_ptr t)(b := first_ptr t b)\<rparr>)"
  by (subst free_loop.simps) simp

lemma free_loop_free:
  "get_word (free_ptr t b) t = l \<Longrightarrow> l < 0 \<Longrightarrow>
     free_loop b t = free_loop b (t\<lparr>free_ptr := (free_ptr t)(b := free_ptr t b + round_bytes (- l))\<rparr>)"
  by (subst free_loop.simps) simp

lemma free_ptr_twice:
  "(t\<lparr>free_ptr := (free_ptr t)(b := p)\<rparr>)\<lparr>free_ptr := (free_ptr (t\<lparr>free_ptr := (free_ptr t)(b := p)\<rparr>))(b := q)\<rparr> =
     t\<lparr>free_ptr := (free_ptr t)(b := q)\<rparr>"
  by simp

lemma free_loop_chain:
  assumes "chain (ml_mem t) (first_ptr t b) E (free_ptr t b) wr b1 b2" and "b1 @ b2 = old @ un"
    and "\<forall>(a, l)\<in>set un. 0 < l"
  shows "\<exists>fr'. free_loop b t = Some (t\<lparr>free_ptr := (free_ptr t)(b := fr')\<rparr>) \<and>
    bank (ml_mem t) (first_ptr t b) E fr' wr (head_of un (wr - 4)) un {(a, l). (a, l) \<in> set old \<and> 0 < l} \<and>
    (ready E (free_ptr t b) wr \<longrightarrow> ready E fr' wr)"
  using assms
proof (induction old arbitrary: t b1 b2)
  case Nil
  have "bank (ml_mem t) (first_ptr t b) E (free_ptr t b) wr (head_of un (wr - 4)) un {(a, l). (a, l) \<in> set [] \<and> 0 < l}"
    unfolding bank_def using Nil.prems by blast
  moreover have "0 < get_word (free_ptr t b) t"
  proof (cases b1)
    case Nil
    then show ?thesis using chain_empty Nil.prems(1) by (fastforce simp: get_word_def)
  next
    case (Cons x bs)
    then obtain a l where "b1 = (a, l) # bs" by (cases x) auto
    then show ?thesis using chain_skip(2) [of "ml_mem t"] Nil.prems by (fastforce simp: get_word_def)
  qed
  then have "free_loop b t = Some (t\<lparr>free_ptr := (free_ptr t)(b := free_ptr t b)\<rparr>)"
    by (simp add: free_loop_stop)
  ultimately show ?case by blast
next
  case (Cons x old)
  let ?m = "ml_mem t" and ?F = "first_ptr t b" and ?fr = "free_ptr t b"
  obtain a l where x: "x = (a, l)" by (cases x)
  have "b1 \<noteq> []" using Cons.prems(1,2) chain_empty by fastforce
  then obtain bs where b1: "b1 = (a, l) # bs" "bs @ b2 = old @ un" using Cons.prems(2) x by (cases b1) auto
  note c = Cons.prems(1) [unfolded b1(1)]
  have head: "a = ?fr" "sint (?m ?fr) = l" "len_ok l"
    using chain_skip(1,2) [OF c] chain_member(5) [OF c, of a l] by auto
  show ?case
  proof (cases "0 < l")
    case True
    then have "free_loop b t = Some (t\<lparr>free_ptr := (free_ptr t)(b := ?fr)\<rparr>)"
      using head by (simp add: free_loop_stop get_word_def)
    moreover have "bank ?m ?F E ?fr wr (head_of un (wr - 4)) un {(a, l). (a, l) \<in> set (x # old) \<and> 0 < l}"
      unfolding bank_def using Cons.prems by blast
    ultimately show ?thesis by blast
  next
    case False
    then have l: "l < 0" "\<bar>l\<bar> = - l" using head(3) by (auto simp: len_ok_def)
    let ?p = "?fr + round_bytes (- l)"
    let ?t = "t\<lparr>free_ptr := (free_ptr t)(b := ?p)\<rparr>"
    have loop: "free_loop b t = free_loop b ?t" using free_loop_free [of t b l] head l by (simp add: get_word_def)
    have same: "{(y, k). (y, k) \<in> set (x # old) \<and> 0 < k} = {(y, k). (y, k) \<in> set old \<and> 0 < k}"
      using l x by auto
    show ?thesis
    proof (cases "bs \<noteq> [] \<or> ?fr < wr")
      case True
      note s = chain_skip(3) [OF c True, unfolded l(2)]
      have r: "ready E ?fr wr \<longrightarrow> ready E ?p wr" using s by (auto simp: ready_def)
      have "chain (ml_mem ?t) (first_ptr ?t b) E (free_ptr ?t b) wr bs b2" using s by simp
      from Cons.IH [OF this b1(2) Cons.prems(3)] obtain fr' where
          "free_loop b ?t = Some (t\<lparr>free_ptr := (free_ptr t)(b := fr')\<rparr>)"
          "bank ?m ?F E fr' wr (head_of un (wr - 4)) un {(a, l). (a, l) \<in> set old \<and> 0 < l}"
          "ready E ?p wr \<longrightarrow> ready E fr' wr"
        unfolding free_ptr_twice by auto
      with r show ?thesis unfolding loop same by blast
    next
      case False
      then have w: "bs = []" "wr \<le> ?fr" by simp_all
      note s = chain_skip(4) [OF c w, unfolded l(2)]
      let ?u = "t\<lparr>free_ptr := (free_ptr t)(b := ?F)\<rparr>"
      have "free_loop b ?t = free_loop b ?u" using free_loop_zero [of ?t b] s by (simp add: get_word_def)
      then have loop: "free_loop b t = free_loop b ?u" using loop by simp
      have "chain (ml_mem ?u) (first_ptr ?u b) E (free_ptr ?u b) wr b2 []" "b2 @ [] = old @ un"
        using s b1(2) w(1) by simp_all
      from Cons.IH [OF this Cons.prems(3)] obtain fr' where
          "free_loop b ?u = Some (t\<lparr>free_ptr := (free_ptr t)(b := fr')\<rparr>)"
          "bank ?m ?F E fr' wr (head_of un (wr - 4)) un {(a, l). (a, l) \<in> set old \<and> 0 < l}"
          "ready E ?F wr \<longrightarrow> ready E fr' wr"
        unfolding free_ptr_twice by auto
      with ready_head [OF Cons.prems(1) w(2)] show ?thesis unfolding loop same by blast
    qed
  qed
qed

lemma free_loop_bank:
  assumes b: "bank (ml_mem t) (first_ptr t b) E (free_ptr t b) wr rp un H"
  shows "\<exists>fr'. free_loop b t = Some (t\<lparr>free_ptr := (free_ptr t)(b := fr')\<rparr>) \<and>
    bank (ml_mem t) (first_ptr t b) E fr' wr rp un H \<and> (ready E (free_ptr t b) wr \<longrightarrow> ready E fr' wr)"
proof -
  obtain b1 b2 old where c: "chain (ml_mem t) (first_ptr t b) E (free_ptr t b) wr b1 b2" and eq: "b1 @ b2 = old @ un"
      and rest: "\<forall>(a, l)\<in>set un. 0 < l" "H = {(a, l). (a, l) \<in> set old \<and> 0 < l}" "rp = head_of un (wr - 4)"
    using b unfolding bank_def by blast
  from free_loop_chain [OF c eq rest(1)] show ?thesis unfolding rest(2,3) .
qed

end
