(* ===== verification/Mii_Lite_Inv.thy ===== *)
theory Mii_Lite_Inv
  imports Mii_Lite_Bank
begin

text \<open>
  The invariant of the buffer manager of the MII driver: the frames to be read, the frames the client
  holds, and their bytes; and that every operation keeps it.
\<close>

section \<open>Fields\<close>

lemma mii_notify_fields [simp]:
  "next_buffer (mii_notify t) = next_buffer t" "packet_in_lld (mii_notify t) = packet_in_lld t"
  "refill_bank_number (mii_notify t) = refill_bank_number t" "free_ptr (mii_notify t) = free_ptr t"
  "wr_ptr (mii_notify t) = wr_ptr t" "last_safe_ptr (mii_notify t) = last_safe_ptr t"
  "first_ptr (mii_notify t) = first_ptr t" "read_ptr (mii_notify t) = read_ptr t"
  "read_bank (mii_notify t) = read_bank t" "read_bank_rd_ptr (mii_notify t) = read_bank_rd_ptr t"
  "read_bank_wr_ptr (mii_notify t) = read_bank_wr_ptr t" "ml_mem (mii_notify t) = ml_mem t"
  by (simp_all add: mii_notify_def)

lemma set_word_fields [simp]:
  "next_buffer (set_word a v t) = next_buffer t" "packet_in_lld (set_word a v t) = packet_in_lld t"
  "refill_bank_number (set_word a v t) = refill_bank_number t" "free_ptr (set_word a v t) = free_ptr t"
  "wr_ptr (set_word a v t) = wr_ptr t" "last_safe_ptr (set_word a v t) = last_safe_ptr t"
  "first_ptr (set_word a v t) = first_ptr t" "read_ptr (set_word a v t) = read_ptr t"
  "read_bank (set_word a v t) = read_bank t" "read_bank_rd_ptr (set_word a v t) = read_bank_rd_ptr t"
  "read_bank_wr_ptr (set_word a v t) = read_bank_wr_ptr t"
  "ml_mem (set_word a v t) = (ml_mem t)(a := word_of_int v)"
  by (simp_all add: set_word_def)

lemma wrap_to_head_fields [simp]:
  "next_buffer (wrap_to_head b t) = next_buffer t" "packet_in_lld (wrap_to_head b t) = packet_in_lld t"
  "refill_bank_number (wrap_to_head b t) = refill_bank_number t" "free_ptr (wrap_to_head b t) = free_ptr t"
  "wr_ptr (wrap_to_head b t) = (wr_ptr t)(b := first_ptr t b + 4)"
  "last_safe_ptr (wrap_to_head b t) = last_safe_ptr t"
  "first_ptr (wrap_to_head b t) = first_ptr t" "read_ptr (wrap_to_head b t) = read_ptr t"
  "read_bank (wrap_to_head b t) = read_bank t" "read_bank_rd_ptr (wrap_to_head b t) = read_bank_rd_ptr t"
  "read_bank_wr_ptr (wrap_to_head b t) = read_bank_wr_ptr t"
  "ml_mem (wrap_to_head b t) = (ml_mem t)(wr_ptr t b - 4 := 0, first_ptr t b := 1)"
  by (simp_all add: wrap_to_head_def)

section \<open>The invariant\<close>

text \<open>A frame: the address of its buffer (past the header), its length and the words of the buffer.\<close>

type_synonym frame = "addr \<times> int \<times> u32 list"

definition buf_words :: "mem \<Rightarrow> addr \<Rightarrow> int \<Rightarrow> u32 list" where
  "buf_words m a n = map (\<lambda>i. m (a + 4 * int i)) [0..<nat ((n + 3) div 4)]"

fun hdr :: "frame \<Rightarrow> buffer" where
  "hdr (a, n, ws) = (a - 4, n)"

definition bank_of :: "mii_lite_data_t \<Rightarrow> addr \<Rightarrow> nat" where
  "bank_of t a = (if a < first_ptr t 1 then 0 else 1)"

definition end_ptr :: "mii_lite_data_t \<Rightarrow> nat \<Rightarrow> addr" where
  "end_ptr t b = last_safe_ptr t b + MAXPACKET"

definition lite_bank :: "mii_lite_data_t \<Rightarrow> nat \<Rightarrow> buffer list \<Rightarrow> buffer set \<Rightarrow> bool" where
  "lite_bank t b un H \<longleftrightarrow> bank (ml_mem t) (first_ptr t b) (end_ptr t b) (free_ptr t b) (wr_ptr t b) (read_ptr t b) un H"

definition bank_ready :: "mii_lite_data_t \<Rightarrow> nat \<Rightarrow> bool" where
  "bank_ready t b \<longleftrightarrow> ready (end_ptr t b) (free_ptr t b) (wr_ptr t b)"

definition bank_stuck_ok :: "mii_lite_data_t \<Rightarrow> nat \<Rightarrow> bool" where
  "bank_stuck_ok t b \<longleftrightarrow> stuck_ok (first_ptr t b) (end_ptr t b) (free_ptr t b) (wr_ptr t b)"

definition unread_in :: "mii_lite_data_t \<Rightarrow> nat \<Rightarrow> frame list \<Rightarrow> buffer list" where
  "unread_in t b q = map hdr (filter (\<lambda>f. bank_of t (fst f) = b) q)"

definition held_in :: "mii_lite_data_t \<Rightarrow> nat \<Rightarrow> frame set \<Rightarrow> buffer set" where
  "held_in t b h = hdr ` {f \<in> h. bank_of t (fst f) = b}"

definition ring_ok :: "mii_lite_data_t \<Rightarrow> frame list \<Rightarrow> bool" where
  "ring_ok t q \<longleftrightarrow> length q \<le> 31 \<and> unat (read_bank_rd_ptr t) < 32 \<and>
     unat (read_bank_wr_ptr t) = (unat (read_bank_rd_ptr t) + length q) mod 32 \<and>
     (\<forall>i<length q. bit (read_bank t) ((unat (read_bank_rd_ptr t) + i) mod 32) \<longleftrightarrow> bank_of t (fst (q ! i)) = 1)"

definition next_ok :: "mii_lite_data_t \<Rightarrow> nat \<Rightarrow> bool" where
  "next_ok t lb \<longleftrightarrow> packet_in_lld t = wr_ptr t lb \<and> bank_ready t lb \<and>
     (next_buffer t = wr_ptr t (1 - lb) \<and> bank_ready t (1 - lb) \<or>
      next_buffer t = -1 \<and> refill_bank_number t = 1 - lb)"

definition words_ok :: "mem \<Rightarrow> frame set \<Rightarrow> bool" where
  "words_ok m fs \<longleftrightarrow> (\<forall>(a, n, ws)\<in>fs. ws = buf_words m a n)"

definition lite_inv :: "mii_lite_data_t \<Rightarrow> frame list \<Rightarrow> frame set \<Rightarrow> bool" where
  "lite_inv t q h \<longleftrightarrow> end_ptr t 0 \<le> first_ptr t 1 \<and>
     (\<forall>b\<in>{0, 1}. lite_bank t b (unread_in t b q) (held_in t b h) \<and> bank_stuck_ok t b) \<and>
     words_ok (ml_mem t) (set q \<union> h) \<and> ring_ok t q \<and> (\<exists>lb\<in>{0, 1}. next_ok t lb)"

section \<open>Locality\<close>

lemma buf_words_cong:
  assumes "\<And>x. a \<le> x \<Longrightarrow> x < a - 4 + round_bytes n \<Longrightarrow> m' x = m x"
  shows "buf_words m' a n = buf_words m a n"
  unfolding buf_words_def
proof (rule map_cong [OF refl])
  fix i assume "i \<in> set [0..<nat ((n + 3) div 4)]"
  then have "4 * int i < 4 * ((n + 3) div 4)" by auto
  then show "m' (a + 4 * int i) = m (a + 4 * int i)" by (intro assms) (simp_all add: round_bytes_eq)
qed

lemma lite_bank_other:
  assumes b: "lite_bank t b un H"
    and ptrs: "first_ptr t' b = first_ptr t b" "last_safe_ptr t' b = last_safe_ptr t b" "free_ptr t' b = free_ptr t b"
      "wr_ptr t' b = wr_ptr t b" "read_ptr t' b = read_ptr t b"
    and m: "\<And>a. first_ptr t b \<le> a \<Longrightarrow> a < end_ptr t b \<Longrightarrow> ml_mem t' a = ml_mem t a"
  shows "lite_bank t' b un H"
proof -
  have "bank (ml_mem t') (first_ptr t b) (end_ptr t b) (free_ptr t b) (wr_ptr t b) (read_ptr t b) un H"
    using b unfolding lite_bank_def
    by (rule bank_frame) (use m bank_base [OF b [unfolded lite_bank_def]] in auto)
  then show ?thesis unfolding lite_bank_def end_ptr_def ptrs .
qed

text \<open>The frames of a bank, as buffers of the bank.\<close>

lemma frame_buffer:
  assumes "(a, n, ws) \<in> set q \<union> h" and "bank_of t a = b"
  shows "(a - 4, n) \<in> set (unread_in t b q) \<union> held_in t b h"
  using assms by (force simp: unread_in_def held_in_def)

lemma frame_place:
  assumes b: "lite_bank t b (unread_in t b q) (held_in t b h)" and f: "(a, n, ws) \<in> set q \<union> h" "bank_of t a = b"
  shows "first_ptr t b + 4 \<le> a" "a - 4 + round_bytes n \<le> end_ptr t b - 8" "64 \<le> n" "n \<le> 1522"
    "a - 4 + round_bytes n \<le> wr_ptr t b - 4 \<or> wr_ptr t b + 4 \<le> a"
    "bank_ready t b \<Longrightarrow> a - 4 + round_bytes n \<le> wr_ptr t b - 4 \<or> wr_ptr t b + 1536 \<le> a"
    "sint (ml_mem t (a - 4)) = n"
  using bank_member [OF b [unfolded lite_bank_def] frame_buffer [OF f]] unfolding bank_ready_def by auto

lemma lite_bank_bounds:
  assumes "lite_bank t b un H"
  shows "0 < first_ptr t b" "end_ptr t b \<le> 2 ^ 32" "first_ptr t b \<le> free_ptr t b" "first_ptr t b + 4 \<le> wr_ptr t b"
    "wr_ptr t b \<le> end_ptr t b - 4" "wr_ptr t b \<le> free_ptr t b \<Longrightarrow> free_ptr t b \<le> end_ptr t b - 1536"
    "first_ptr t b mod 4 = 0" "end_ptr t b mod 4 = 0" "free_ptr t b mod 4 = 0" "wr_ptr t b mod 4 = 0"
  using bank_base [OF assms [unfolded lite_bank_def]] by simp_all

text \<open>A buffer that is ready has 1532 bytes inside its bank.\<close>

lemma ready_room:
  assumes "lite_bank t b un H" and "bank_ready t b"
  shows "wr_ptr t b + 1532 \<le> end_ptr t b" "wr_ptr t b \<le> free_ptr t b \<Longrightarrow> wr_ptr t b + 1532 \<le> free_ptr t b"
  using lite_bank_bounds [OF assms(1)] assms(2) by (auto simp: bank_ready_def ready_def split: if_splits)

section \<open>The receiver\<close>

text \<open>
  While a frame comes in, the low level receiver writes to the buffer it was given: its time stamp, the
  bytes and the tail of the frame, at most 1532 bytes.
\<close>

definition lld_writes :: "addr \<Rightarrow> mem \<Rightarrow> mem \<Rightarrow> bool" where
  "lld_writes base m m' \<longleftrightarrow> (\<forall>a. a < base \<or> base + 1532 \<le> a \<longrightarrow> m' a = m a)"

lemma lite_inv_bank:
  assumes "lite_inv t q h" and "b \<in> {0, 1}"
  shows "lite_bank t b (unread_in t b q) (held_in t b h)" "bank_stuck_ok t b"
  using assms unfolding lite_inv_def by blast+

lemma bank_of_cases: "bank_of t a \<in> {0, 1}"
  by (simp add: bank_of_def)

text \<open>The two banks do not overlap.\<close>

lemma banks_apart:
  assumes "lite_inv t q h" and "b \<in> {0, 1}" "c \<in> {0, 1}" "b \<noteq> c"
    and "first_ptr t b \<le> x" "x < end_ptr t b" "first_ptr t c \<le> y" "y < end_ptr t c"
  shows "x \<noteq> y"
  using assms lite_bank_bounds(4,5) [OF lite_inv_bank(1) [OF assms(1), of 0]]
    lite_bank_bounds(4,5) [OF lite_inv_bank(1) [OF assms(1), of 1]]
  by (auto simp: lite_inv_def)

text \<open>
  The frames of a bank keep their words when only the other bank is written, or the room behind the
  write pointer, or headers.
\<close>

lemma words_ok_change:
  assumes inv: "lite_inv t q h"
    and same: "\<And>a n ws x. (a, n, ws) \<in> set q \<union> h \<Longrightarrow> a \<le> x \<Longrightarrow> x < a - 4 + round_bytes n \<Longrightarrow> m' x = ml_mem t x"
  shows "words_ok m' (set q \<union> h)"
proof -
  have "words_ok (ml_mem t) (set q \<union> h)" using inv by (simp add: lite_inv_def)
  then show ?thesis using buf_words_cong [OF same] by (fastforce simp: words_ok_def)
qed

lemma lld_keeps_inv:
  assumes inv: "lite_inv t q h" and w: "lld_writes (packet_in_lld t) (ml_mem t) m'"
  shows "lite_inv (t\<lparr>ml_mem := m'\<rparr>) q h"
proof -
  obtain lb where lb: "lb \<in> {0, 1}" "next_ok t lb" using inv by (auto simp: lite_inv_def)
  then have p: "packet_in_lld t = wr_ptr t lb" "bank_ready t lb" by (simp_all add: next_ok_def)
  note B = lite_inv_bank(1) [OF inv lb(1)]
  note room = ready_room [OF B p(2)] lite_bank_bounds [OF B]
  have same: "m' a = ml_mem t a" if "a < wr_ptr t lb \<or> wr_ptr t lb + 1532 \<le> a" for a
    using w that unfolding lld_writes_def p(1) by blast
  have banks: "lite_bank (t\<lparr>ml_mem := m'\<rparr>) b (unread_in t b q) (held_in t b h)" if b: "b \<in> {0, 1}" for b
  proof (cases "b = lb")
    case True
    show ?thesis
      using B unfolding True lite_bank_def end_ptr_def
      by (simp, elim bank_frame) (use same room in auto)
  next
    case False
    show ?thesis
    proof (rule lite_bank_other [OF lite_inv_bank(1) [OF inv b]]; simp)
      fix a assume a: "first_ptr t b \<le> a" "a < end_ptr t b"
      have "\<not> (wr_ptr t lb \<le> a \<and> a < wr_ptr t lb + 1532)"
        using banks_apart [OF inv b lb(1) False a, of a] room by auto
      then show "m' a = ml_mem t a" by (intro same) linarith
    qed
  qed
  have words: "words_ok m' (set q \<union> h)"
  proof (rule words_ok_change [OF inv])
    fix a n ws x assume f: "(a, n, ws) \<in> set q \<union> h" and x: "a \<le> x" "x < a - 4 + round_bytes n"
    note F = frame_place [OF lite_inv_bank(1) [OF inv bank_of_cases] f refl]
    show "m' x = ml_mem t x"
    proof (cases "bank_of t a = lb")
      case True
      then show ?thesis using F(6) p(2) x by (intro same) auto
    next
      case False
      have "\<not> (wr_ptr t lb \<le> x \<and> x < wr_ptr t lb + 1532)"
        using banks_apart [OF inv bank_of_cases lb(1) False, of x x] room F(1,2) x by auto
      then show ?thesis by (intro same) linarith
    qed
  qed
  have fields: "unread_in (t\<lparr>ml_mem := m'\<rparr>) = unread_in t" "held_in (t\<lparr>ml_mem := m'\<rparr>) = held_in t"
    "bank_stuck_ok (t\<lparr>ml_mem := m'\<rparr>) = bank_stuck_ok t" "ring_ok (t\<lparr>ml_mem := m'\<rparr>) = ring_ok t"
    "next_ok (t\<lparr>ml_mem := m'\<rparr>) = next_ok t" "end_ptr (t\<lparr>ml_mem := m'\<rparr>) = end_ptr t"
    by (simp_all add: fun_eq_iff unread_in_def held_in_def bank_of_def bank_stuck_ok_def end_ptr_def ring_ok_def
        next_ok_def bank_ready_def)
  show ?thesis using inv banks words unfolding lite_inv_def fields by simp
qed

section \<open>Committing a frame\<close>

text \<open>What the commit does to the log of banks.\<close>

definition log_bank :: "nat \<Rightarrow> mii_lite_data_t \<Rightarrow> mii_lite_data_t" where
  "log_bank bn t = t\<lparr>read_bank := (read_bank t AND NOT (push_bit (unat (read_bank_wr_ptr t)) 1)) OR
       push_bit (unat (read_bank_wr_ptr t)) (of_nat bn),
     read_bank_wr_ptr := increment_and_wrap_power_of_2 (read_bank_wr_ptr t) 32\<rparr>"

text \<open>What the commit does to the bank of the frame.\<close>

definition place :: "nat \<Rightarrow> mii_lite_data_t \<Rightarrow> mii_lite_data_t" where
  "place bn t = (if last_safe_ptr t bn < wr_ptr t bn
     then (if free_ptr t bn \<noteq> first_ptr t bn
           then (if MAXPACKET \<le> room (free_ptr t bn) (first_ptr t bn + 4)
                 then (wrap_to_head bn t)\<lparr>next_buffer := first_ptr t bn + 4\<rparr>
                 else (wrap_to_head bn t)\<lparr>next_buffer := -1, refill_bank_number := bn\<rparr>)
           else (set_word (wr_ptr t bn - 4) 1 t)\<lparr>next_buffer := -1, refill_bank_number := bn\<rparr>)
     else (if free_ptr t bn < wr_ptr t bn \<or> MAXPACKET \<le> room (free_ptr t bn) (wr_ptr t bn)
           then (set_word (wr_ptr t bn - 4) 1 t)\<lparr>next_buffer := wr_ptr t bn\<rparr>
           else (set_word (wr_ptr t bn - 4) 1 t)\<lparr>next_buffer := -1, refill_bank_number := bn\<rparr>))"

definition enlarge :: "nat \<Rightarrow> int \<Rightarrow> mii_lite_data_t \<Rightarrow> mii_lite_data_t" where
  "enlarge bn n t = (set_word (wr_ptr t bn - 4) n t)\<lparr>wr_ptr := (wr_ptr t)(bn := wr_ptr t bn + round_bytes n)\<rparr>"

lemma mii_commit_buffer_parts:
  "mii_commit_buffer cur n t =
     (let bn = bank_of t cur
      in if read_bank_rd_ptr t = increment_and_wrap_power_of_2 (read_bank_wr_ptr t) 32
         then t\<lparr>next_buffer := -1, refill_bank_number := bn\<rparr>
         else place bn (mii_notify (enlarge bn n (log_bank bn t))))"
  unfolding mii_commit_buffer_def Let_def bank_of_def [symmetric] place_def enlarge_def log_bank_def
  by (simp add: set_word_def wrap_to_head_def del: fun_upd_apply cong: if_cong) (auto simp: set_word_def)

lemma room_int: "0 \<le> f - w \<Longrightarrow> f - w < 2 ^ 32 \<Longrightarrow> room f w = f - w"
  by (simp add: room_def)

lemma mod4_room: "(f :: int) mod 4 = 0 \<Longrightarrow> w mod 4 = 0 \<Longrightarrow> 1530 \<le> f - w \<longleftrightarrow> w + 1532 \<le> f"
  by presburger

lemma mod4_safe: "(e :: int) mod 4 = 0 \<Longrightarrow> w mod 4 = 0 \<Longrightarrow> e - 1530 < w \<longleftrightarrow> e - 1532 < w"
  by presburger

lemma commit_bank:
  assumes b: "lite_bank t b un H" and r: "bank_ready t b" and n: "64 \<le> n" "n \<le> 1522"
  defines "t' \<equiv> place b (mii_notify (enlarge b n (log_bank b t)))"
  shows "lite_bank t' b (un @ [(wr_ptr t b - 4, n)]) H" (is ?A)
    and "bank_stuck_ok t' b" (is ?B)
    and "next_buffer t' = wr_ptr t' b \<and> bank_ready t' b \<or> next_buffer t' = -1 \<and> refill_bank_number t' = b" (is ?C)
    and "\<And>a. a \<notin> {wr_ptr t b - 4, wr_ptr t b + round_bytes n - 4, first_ptr t b} \<Longrightarrow> ml_mem t' a = ml_mem t a"
proof -
  let ?F = "first_ptr t b" and ?E = "end_ptr t b" and ?fr = "free_ptr t b" and ?wr = "wr_ptr t b"
  let ?w1 = "?wr + round_bytes n"
  define u where "u = mii_notify (enlarge b n (log_bank b t))"
  have t'_place: "t' = place b u" by (simp add: t'_def u_def)
  have u: "ml_mem u = (ml_mem t)(?wr - 4 := word_of_int n)" "wr_ptr u = (wr_ptr t)(b := ?w1)"
    "free_ptr u = free_ptr t" "first_ptr u = first_ptr t" "last_safe_ptr u = last_safe_ptr t" "read_ptr u = read_ptr t"
    by (simp_all add: u_def enlarge_def log_bank_def)
  have v: "sint (word_of_int n :: u32) = n" using n by (simp add: int_word_sint)
  have len: "68 \<le> round_bytes n" "round_bytes n \<le> 1528" "round_bytes n mod 4 = 0"
    using round_range [of n] n by (simp_all add: len_ok_def)
  note base = lite_bank_bounds [OF b]
  have w1: "?w1 mod 4 = 0" using base(10) len(3) by presburger
  have w1fr: "?w1 mod 4 = 0 \<and> ?fr mod 4 = 0 \<and> (?F + 4) mod 4 = 0" using w1 base(7,9) by presburger
  have E: "last_safe_ptr t b = ?E - 1530" by (simp add: end_ptr_def)
  note app = bank_append [OF b [unfolded lite_bank_def] r [unfolded bank_ready_def] n v]
  have safe: "last_safe_ptr t b < ?w1 \<longleftrightarrow> ?E - 1532 < ?w1" unfolding E by (rule mod4_safe [OF base(8) w1])
  have ready': "?wr \<le> ?fr \<Longrightarrow> ?wr + 1532 \<le> ?fr" "?fr < ?wr \<Longrightarrow> ?wr \<le> ?E - 1532"
    using r by (auto simp: bank_ready_def ready_def split: if_splits)
  consider (wrap) "?E - 1532 < ?w1" "?fr \<noteq> ?F" | (full) "?E - 1532 < ?w1" "?fr = ?F" | (tail) "?w1 \<le> ?E - 1532"
    by linarith
  then have all: "?A \<and> ?B \<and> ?C \<and>
      (\<forall>a. a \<notin> {?wr - 4, ?w1 - 4, ?F} \<longrightarrow> ml_mem t' a = ml_mem t a)"
  proof cases
    case wrap
    have fr: "?fr < ?wr" using wrap ready' base(6) len app by fastforce
    then have frw: "?fr < ?w1" using len by simp
    have F4: "?F + 4 \<le> ?fr" using wrap(2) base(3) w1fr base(7) by presburger
    have roomF: "MAXPACKET \<le> room ?fr (?F + 4) \<longleftrightarrow> ?F + 4 + 1532 \<le> ?fr"
      using room_int [of ?fr "?F + 4"] mod4_room [of ?fr "?F + 4"] F4 fr base w1fr by simp
    have t': "t' = (if ?F + 4 + 1532 \<le> ?fr then (wrap_to_head b u)\<lparr>next_buffer := ?F + 4\<rparr>
        else (wrap_to_head b u)\<lparr>next_buffer := -1, refill_bank_number := b\<rparr>)"
      using wrap safe roomF unfolding t'_place place_def u by simp
    have mem: "(ml_mem t)(?wr - 4 := word_of_int n, ?w1 - 4 := 0, ?F := 1) =
        ((ml_mem t)(?wr - 4 := word_of_int n, ?w1 - 4 := 1))(?w1 - 4 := 0, ?F := 1)" by simp
    have "bank ((ml_mem t)(?wr - 4 := word_of_int n, ?w1 - 4 := 0, ?F := 1)) ?F ?E ?fr (?F + 4) (read_ptr t b)
        (un @ [(?wr - 4, n)]) H"
      unfolding mem by (rule bank_wrap [OF conjunct1 [OF app] frw wrap(2)]) simp
    then show ?thesis
      using F4 unfolding t' by (simp add: lite_bank_def bank_stuck_ok_def stuck_ok_def bank_ready_def ready_def u end_ptr_def)
  next
    case full
    then have t': "t' = (set_word (?w1 - 4) 1 u)\<lparr>next_buffer := -1, refill_bank_number := b\<rparr>"
      using safe unfolding t'_place place_def u by simp
    show ?thesis
      using app full unfolding t' by (simp add: lite_bank_def bank_stuck_ok_def stuck_ok_def u end_ptr_def)
  next
    case tail
    have room1: "MAXPACKET \<le> room ?fr ?w1 \<longleftrightarrow> ?w1 + 1532 \<le> ?fr" if "\<not> ?fr < ?w1"
    proof -
      have "?wr \<le> ?fr" using that len by simp
      then have "?fr - ?w1 < 2 ^ 32" using base(1,2,4,6) len by simp
      then show ?thesis using room_int [of ?fr ?w1] mod4_room [of ?fr ?w1] that w1fr by simp
    qed
    have t': "t' = (if ?fr < ?w1 \<or> ?w1 + 1532 \<le> ?fr then (set_word (?w1 - 4) 1 u)\<lparr>next_buffer := ?w1\<rparr>
        else (set_word (?w1 - 4) 1 u)\<lparr>next_buffer := -1, refill_bank_number := b\<rparr>)"
      using tail safe room1 unfolding t'_place place_def u by auto
    show ?thesis
      using app tail unfolding t'
      by (auto simp: lite_bank_def bank_stuck_ok_def stuck_ok_def bank_ready_def ready_def u end_ptr_def)
  qed
  from all show ?A ?B ?C "\<And>a. a \<notin> {?wr - 4, ?w1 - 4, ?F} \<Longrightarrow> ml_mem t' a = ml_mem t a" by blast+
qed

end
