(* ===== verification/Mii_Lite_Ops.thy ===== *)
theory Mii_Lite_Ops
  imports Mii_Lite_Inv
begin

text \<open>
  Every operation of the MII driver keeps the invariant: the end of a frame, reading the oldest
  frame, releasing a frame, taking a notification; and the initial state has it.
\<close>

section \<open>Changes of one bank\<close>

lemma unread_in_cong: "first_ptr t' 1 = first_ptr t 1 \<Longrightarrow> unread_in t' b q = unread_in t b q"
  by (simp add: unread_in_def bank_of_def)

lemma held_in_cong: "first_ptr t' 1 = first_ptr t 1 \<Longrightarrow> held_in t' b h = held_in t b h"
  by (simp add: held_in_def bank_of_def)

lemma lite_inv_update:
  assumes inv: "lite_inv t q h" and b: "b \<in> {0, 1}"
    and const: "first_ptr t' = first_ptr t" "last_safe_ptr t' = last_safe_ptr t"
    and ptrs: "\<And>c. c \<noteq> b \<Longrightarrow> free_ptr t' c = free_ptr t c \<and> wr_ptr t' c = wr_ptr t c \<and> read_ptr t' c = read_ptr t c"
    and mem: "\<And>a. a < first_ptr t b \<or> end_ptr t b \<le> a \<Longrightarrow> ml_mem t' a = ml_mem t a"
    and bank: "lite_bank t' b (unread_in t b q') (held_in t b h')" "bank_stuck_ok t' b"
    and others: "\<And>c. c \<noteq> b \<Longrightarrow> unread_in t c q' = unread_in t c q \<and> held_in t c h' = held_in t c h"
    and words: "words_ok (ml_mem t') (set q' \<union> h')"
    and ring: "ring_ok t' q'" and nxt: "\<exists>lb\<in>{0, 1}. next_ok t' lb"
  shows "lite_inv t' q' h'"
proof -
  have "lite_bank t' c (unread_in t' c q') (held_in t' c h') \<and> bank_stuck_ok t' c" if c: "c \<in> {0, 1}" for c
  proof (cases "c = b")
    case True
    then show ?thesis using bank const by (simp add: unread_in_cong [of t' t] held_in_cong [of t' t])
  next
    case False
    have "lite_bank t' c (unread_in t c q) (held_in t c h)"
    proof (rule lite_bank_other [OF lite_inv_bank(1) [OF inv c]])
      fix a assume a: "first_ptr t c \<le> a" "a < end_ptr t c"
      show "ml_mem t' a = ml_mem t a" using banks_apart [OF inv b c, of a a] False a by (intro mem) linarith
    qed (simp_all add: const ptrs False)
    moreover have "bank_stuck_ok t' c"
      using lite_inv_bank(2) [OF inv c] ptrs [OF False] const by (simp add: bank_stuck_ok_def end_ptr_def)
    ultimately show ?thesis using others [OF False] const by (simp add: unread_in_cong [of t' t] held_in_cong [of t' t])
  qed
  then show ?thesis
    using inv const words ring nxt unfolding lite_inv_def by (simp add: end_ptr_def)
qed

lemma lite_inv_cong:
  assumes "next_buffer t' = next_buffer t" "packet_in_lld t' = packet_in_lld t"
    "refill_bank_number t' = refill_bank_number t" "free_ptr t' = free_ptr t" "wr_ptr t' = wr_ptr t"
    "last_safe_ptr t' = last_safe_ptr t" "first_ptr t' = first_ptr t" "read_ptr t' = read_ptr t"
    "read_bank t' = read_bank t" "read_bank_rd_ptr t' = read_bank_rd_ptr t"
    "read_bank_wr_ptr t' = read_bank_wr_ptr t" "ml_mem t' = ml_mem t"
  shows "lite_inv t' q h \<longleftrightarrow> lite_inv t q h"
  unfolding lite_inv_def lite_bank_def bank_stuck_ok_def end_ptr_def unread_in_def held_in_def bank_of_def ring_ok_def
    next_ok_def bank_ready_def by (simp only: assms)

section \<open>The log of banks\<close>

lemma mod32_self: "r < 32 \<Longrightarrow> l \<le> 31 \<Longrightarrow> (r = (r + l) mod 32) = (l = (0 :: nat))"
  by (auto simp: mod_if split: if_splits)

lemma mod32_full: "r < 32 \<Longrightarrow> l \<le> 31 \<Longrightarrow> (r = (r + l + 1) mod 32) = (l = (31 :: nat))"
  by (auto simp: mod_if split: if_splits)

lemma mod32_inj: "i < l \<Longrightarrow> l < 32 \<Longrightarrow> (r + i) mod 32 \<noteq> (r + l) mod (32 :: nat)"
  using mod_eq_dvd_iff_nat [of "r + i" "r + l" 32] dvd_imp_le [of 32 "l - i"] by auto

lemma ring_empty: "ring_ok t q \<Longrightarrow> read_bank_rd_ptr t = read_bank_wr_ptr t \<longleftrightarrow> q = []"
proof -
  assume r: "ring_ok t q"
  then have "unat (read_bank_rd_ptr t) = unat (read_bank_wr_ptr t) \<longleftrightarrow> length q = 0"
    using mod32_self [of "unat (read_bank_rd_ptr t)" "length q"] by (simp add: ring_ok_def)
  then show ?thesis by (simp add: word_unat_eq_iff)
qed

lemma ring_wr: "ring_ok t q \<Longrightarrow> unat (increment_and_wrap_power_of_2 (read_bank_wr_ptr t) 32) =
    (unat (read_bank_rd_ptr t) + length q + 1) mod 32"
proof -
  assume r: "ring_ok t q"
  then have "read_bank_wr_ptr t < 32" by (simp add: word_less_nat_alt ring_ok_def)
  from wrap_power_of_2_unat [OF this] show ?thesis using r by (simp add: ring_ok_def mod_Suc_eq)
qed

lemma ring_full: "ring_ok t q \<Longrightarrow>
    read_bank_rd_ptr t = increment_and_wrap_power_of_2 (read_bank_wr_ptr t) 32 \<longleftrightarrow> length q = 31"
proof -
  assume r: "ring_ok t q"
  then have "unat (read_bank_rd_ptr t) = (unat (read_bank_rd_ptr t) + length q + 1) mod 32 \<longleftrightarrow> length q = 31"
    using mod32_full [of "unat (read_bank_rd_ptr t)" "length q"] by (simp add: ring_ok_def)
  then show ?thesis unfolding word_unat_eq_iff ring_wr [OF r] .
qed

lemma bit_log: "w < 32 \<Longrightarrow> i < 32 \<Longrightarrow> bn \<in> {0, 1} \<Longrightarrow>
    bit ((rb AND NOT (push_bit w 1)) OR push_bit w (of_nat bn) :: u32) i \<longleftrightarrow> (if i = w then bn = 1 else bit rb i)"
  by (auto simp: bit_simps bit_1_iff)

lemma ring_log:
  assumes r: "ring_ok t q" and len: "length q < 31" and bn: "bank_of t a = bn"
    and t': "read_bank t' = read_bank (log_bank bn t)" "read_bank_rd_ptr t' = read_bank_rd_ptr t"
      "read_bank_wr_ptr t' = read_bank_wr_ptr (log_bank bn t)" "first_ptr t' = first_ptr t"
  shows "ring_ok t' (q @ [(a, f)])"
proof -
  let ?rd = "unat (read_bank_rd_ptr t)" and ?wr = "unat (read_bank_wr_ptr t)"
  have rd: "?rd < 32" "?wr = (?rd + length q) mod 32"
    and bits: "\<And>i. i < length q \<Longrightarrow> bit (read_bank t) ((?rd + i) mod 32) \<longleftrightarrow> bank_of t (fst (q ! i)) = 1"
    using r by (auto simp: ring_ok_def)
  have bank: "bank_of t' = bank_of t" using t' by (simp add: fun_eq_iff bank_of_def)
  have bn01: "bn \<in> {0, 1}" using bn bank_of_cases [of t a] by simp
  have "bit (read_bank t') ((?rd + i) mod 32) \<longleftrightarrow> bank_of t (fst ((q @ [(a, f)]) ! i)) = 1" if i: "i < length q + 1" for i
  proof -
    have *: "bit (read_bank t') ((?rd + i) mod 32) \<longleftrightarrow>
        (if (?rd + i) mod 32 = ?wr then bn = 1 else bit (read_bank t) ((?rd + i) mod 32))"
      unfolding t'(1) log_bank_def using bit_log [of ?wr "(?rd + i) mod 32" bn "read_bank t"] bn01 rd by simp
    show ?thesis
    proof (cases "i = length q")
      case True
      then show ?thesis using * rd bn by simp
    next
      case False
      then have "(?rd + i) mod 32 \<noteq> ?wr" unfolding rd(2) using i len by (intro mod32_inj) simp_all
      then show ?thesis using * False i bits [of i] by (simp add: nth_append)
    qed
  qed
  moreover have "unat (read_bank_wr_ptr t') = (?rd + length q + 1) mod 32"
    unfolding t'(3) using ring_wr [OF r] by (simp add: log_bank_def)
  ultimately show ?thesis
    using rd len unfolding ring_ok_def t'(2) bank by simp
qed

lemma ring_read:
  assumes r: "ring_ok t (f # q)"
  shows "(if bit (read_bank t) (unat (read_bank_rd_ptr t)) then 1 else 0) = bank_of t (fst f)"
    and "\<And>t'. read_bank t' = read_bank t \<Longrightarrow> first_ptr t' = first_ptr t \<Longrightarrow> read_bank_wr_ptr t' = read_bank_wr_ptr t \<Longrightarrow>
      read_bank_rd_ptr t' = increment_and_wrap_power_of_2 (read_bank_rd_ptr t) 32 \<Longrightarrow> ring_ok t' q"
proof -
  let ?rd = "unat (read_bank_rd_ptr t)"
  have rd: "?rd < 32" "unat (read_bank_wr_ptr t) = (?rd + length q + 1) mod 32" "length q < 31"
    and bits: "\<And>i. i < length (f # q) \<Longrightarrow> bit (read_bank t) ((?rd + i) mod 32) \<longleftrightarrow> bank_of t (fst ((f # q) ! i)) = 1"
    using r by (auto simp: ring_ok_def)
  show "(if bit (read_bank t) ?rd then 1 else 0) = bank_of t (fst f)"
    using bits [of 0] rd bank_of_cases [of t "fst f"] by auto
  fix t' :: mii_lite_data_t
  assume t': "read_bank t' = read_bank t" "first_ptr t' = first_ptr t" "read_bank_wr_ptr t' = read_bank_wr_ptr t"
      "read_bank_rd_ptr t' = increment_and_wrap_power_of_2 (read_bank_rd_ptr t) 32"
  have "read_bank_rd_ptr t < 32" using rd by (simp add: word_less_nat_alt)
  from wrap_power_of_2_unat [OF this] have rd': "unat (read_bank_rd_ptr t') = (?rd + 1) mod 32"
    unfolding t' by simp
  have bank: "bank_of t' = bank_of t" using t' by (simp add: fun_eq_iff bank_of_def)
  have "bit (read_bank t) (((?rd + 1) mod 32 + i) mod 32) \<longleftrightarrow> bank_of t (fst (q ! i)) = 1" if "i < length q" for i
  proof -
    have "((?rd + 1) mod 32 + i) mod 32 = (?rd + Suc i) mod 32" by presburger
    then show ?thesis using bits [of "Suc i"] that by simp
  qed
  moreover have "unat (read_bank_wr_ptr t) = ((?rd + 1) mod 32 + length q) mod 32" using rd by presburger
  ultimately show "ring_ok t' q" using rd unfolding ring_ok_def rd' bank t'(1,3) by simp
qed

section \<open>Restarting a bank\<close>

lemma restart_bank:
  assumes b: "lite_bank t b un H" and nxt: "next_buffer t = -1" "refill_bank_number t = b"
    and un: "\<not> bank_stuck_ok t b \<Longrightarrow> un \<noteq> []"
  defines "t' \<equiv> mii_lite_restart_buffer t"
  shows "lite_bank t' b un H" (is ?A)
    and "bank_stuck_ok t' b" (is ?B)
    and "next_buffer t' = wr_ptr t' b \<and> bank_ready t' b \<or> next_buffer t' = -1 \<and> refill_bank_number t' = b" (is ?C)
    and "\<And>a. a \<notin> {wr_ptr t b - 4, first_ptr t b} \<Longrightarrow> ml_mem t' a = ml_mem t a"
proof -
  let ?F = "first_ptr t b" and ?E = "end_ptr t b" and ?fr = "free_ptr t b" and ?wr = "wr_ptr t b"
  note base = lite_bank_bounds [OF b]
  have safe: "last_safe_ptr t b < ?wr \<longleftrightarrow> ?E - 1532 < ?wr"
    using mod4_safe [OF base(8,10)] by (simp add: end_ptr_def)
  have room1: "MAXPACKET \<le> room ?fr w \<longleftrightarrow> w + 1532 \<le> ?fr" if "w \<le> ?fr" "0 < w" "?fr \<le> ?E" "w mod 4 = 0" for w
    using room_int [of ?fr w] mod4_room [OF base(9) that(4)] that base(1,2) by simp
  have frE: "?fr \<le> ?E" using base by linarith
  consider (wrap) "?E - 1532 < ?wr" "?fr \<noteq> ?F" | (full) "?E - 1532 < ?wr" "?fr = ?F" | (tail) "?wr \<le> ?E - 1532"
    by linarith
  then have "?A \<and> ?B \<and> ?C \<and> (\<forall>a. a \<notin> {?wr - 4, ?F} \<longrightarrow> ml_mem t' a = ml_mem t a)"
  proof cases
    case wrap
    have fr: "?fr < ?wr" using wrap base(6) by fastforce
    then have "un \<noteq> []" using un wrap by (simp add: bank_stuck_ok_def stuck_ok_def)
    note w = bank_wrap [OF b [unfolded lite_bank_def] fr wrap(2) this]
    have F4: "?F + 4 \<le> ?fr" "(?F + 4) mod 4 = 0" using wrap(2) base(3,7,9) by presburger+
    have t': "t' = (if ?F + 4 + 1532 \<le> ?fr then (wrap_to_head b t)\<lparr>next_buffer := ?F + 4\<rparr> else wrap_to_head b t)"
      using wrap safe nxt room1 [of "?F + 4"] F4 base(1) frE unfolding t'_def mii_lite_restart_buffer_def by (simp add: Let_def)
    show ?thesis
      using w F4 nxt unfolding t' by (simp add: lite_bank_def bank_stuck_ok_def stuck_ok_def bank_ready_def ready_def end_ptr_def)
  next
    case full
    then have t': "t' = t" using safe nxt unfolding t'_def mii_lite_restart_buffer_def by simp
    show ?thesis using b full nxt unfolding t' by (simp add: bank_stuck_ok_def stuck_ok_def)
  next
    case tail
    have t': "t' = (if ?fr < ?wr \<or> ?wr + 1532 \<le> ?fr then t\<lparr>next_buffer := ?wr\<rparr> else t)"
      using tail safe nxt room1 [of ?wr] base frE unfolding t'_def mii_lite_restart_buffer_def by (auto simp: Let_def)
    show ?thesis
      using b tail nxt unfolding t'
      by (auto simp: lite_bank_def bank_stuck_ok_def stuck_ok_def bank_ready_def ready_def end_ptr_def)
  qed
  then show ?A ?B ?C "\<And>a. a \<notin> {?wr - 4, ?F} \<Longrightarrow> ml_mem t' a = ml_mem t a" by blast+
qed

lemma restart_fields [simp]:
  "packet_in_lld (mii_lite_restart_buffer t) = packet_in_lld t"
  "refill_bank_number (mii_lite_restart_buffer t) = refill_bank_number t"
  "free_ptr (mii_lite_restart_buffer t) = free_ptr t"
  "last_safe_ptr (mii_lite_restart_buffer t) = last_safe_ptr t"
  "first_ptr (mii_lite_restart_buffer t) = first_ptr t" "read_ptr (mii_lite_restart_buffer t) = read_ptr t"
  "read_bank (mii_lite_restart_buffer t) = read_bank t" "read_bank_rd_ptr (mii_lite_restart_buffer t) = read_bank_rd_ptr t"
  "read_bank_wr_ptr (mii_lite_restart_buffer t) = read_bank_wr_ptr t"
  "c \<noteq> refill_bank_number t \<Longrightarrow> wr_ptr (mii_lite_restart_buffer t) c = wr_ptr t c"
  "next_buffer t \<noteq> -1 \<Longrightarrow> mii_lite_restart_buffer t = t"
  by (simp_all add: mii_lite_restart_buffer_def Let_def)

lemma place_fields [simp]:
  "packet_in_lld (place b t) = packet_in_lld t" "free_ptr (place b t) = free_ptr t"
  "last_safe_ptr (place b t) = last_safe_ptr t" "first_ptr (place b t) = first_ptr t" "read_ptr (place b t) = read_ptr t"
  "read_bank (place b t) = read_bank t" "read_bank_rd_ptr (place b t) = read_bank_rd_ptr t"
  "read_bank_wr_ptr (place b t) = read_bank_wr_ptr t" "c \<noteq> b \<Longrightarrow> wr_ptr (place b t) c = wr_ptr t c"
  by (simp_all add: place_def)

lemma enlarge_fields [simp]:
  "packet_in_lld (enlarge b n t) = packet_in_lld t" "free_ptr (enlarge b n t) = free_ptr t"
  "last_safe_ptr (enlarge b n t) = last_safe_ptr t" "first_ptr (enlarge b n t) = first_ptr t"
  "read_ptr (enlarge b n t) = read_ptr t" "read_bank (enlarge b n t) = read_bank t"
  "read_bank_rd_ptr (enlarge b n t) = read_bank_rd_ptr t" "read_bank_wr_ptr (enlarge b n t) = read_bank_wr_ptr t"
  "c \<noteq> b \<Longrightarrow> wr_ptr (enlarge b n t) c = wr_ptr t c"
  by (simp_all add: enlarge_def)

lemma log_bank_fields [simp]:
  "packet_in_lld (log_bank b t) = packet_in_lld t" "free_ptr (log_bank b t) = free_ptr t"
  "last_safe_ptr (log_bank b t) = last_safe_ptr t" "first_ptr (log_bank b t) = first_ptr t"
  "read_ptr (log_bank b t) = read_ptr t" "wr_ptr (log_bank b t) = wr_ptr t" "ml_mem (log_bank b t) = ml_mem t"
  "read_bank_rd_ptr (log_bank b t) = read_bank_rd_ptr t"
  by (simp_all add: log_bank_def)

section \<open>The end of a frame\<close>

lemma bank_of_in:
  assumes inv: "lite_inv t q h" and b: "b \<in> {0, 1}" and a: "first_ptr t b \<le> a" "a < end_ptr t b"
  shows "bank_of t a = b"
  using assms lite_bank_bounds(4,5) [OF lite_inv_bank(1) [OF inv, of 0]] unfolding lite_inv_def bank_of_def
  by (elim insertE) auto

lemma bank_of_wr: "lite_inv t q h \<Longrightarrow> b \<in> {0, 1} \<Longrightarrow> bank_of t (wr_ptr t b) = b"
  using lite_bank_bounds(4,5) [OF lite_inv_bank(1)] by (intro bank_of_in) fastforce+

lemma unread_in_snoc: "unread_in t b (q @ [f]) = unread_in t b q @ (if bank_of t (fst f) = b then [hdr f] else [])"
  by (simp add: unread_in_def)

text \<open>The headers the driver writes in the bank of the write pointer are in no frame.\<close>

lemma headers_keep_words:
  assumes inv: "lite_inv t q h" and b: "b \<in> {0, 1}" and n: "64 \<le> n" "n \<le> 1522" and r: "bank_ready t b"
    and same: "\<And>a. a \<notin> {wr_ptr t b - 4, wr_ptr t b + round_bytes n - 4, first_ptr t b} \<Longrightarrow> m' a = ml_mem t a"
  shows "words_ok m' (set q \<union> h)"
proof (rule words_ok_change [OF inv])
  fix a k ws x assume f: "(a, k, ws) \<in> set q \<union> h" and x: "a \<le> x" "x < a - 4 + round_bytes k"
  have len: "68 \<le> round_bytes n" "round_bytes n \<le> 1528" using round_range [of n] n by (simp_all add: len_ok_def)
  note F = frame_place [OF lite_inv_bank(1) [OF inv bank_of_cases] f refl]
  note B = lite_bank_bounds [OF lite_inv_bank(1) [OF inv b]] ready_room [OF lite_inv_bank(1) [OF inv b] r]
  have "x \<notin> {wr_ptr t b - 4, wr_ptr t b + round_bytes n - 4, first_ptr t b}"
  proof (cases "bank_of t a = b")
    case True
    then show ?thesis using F(1,6) r x len by auto
  next
    case False
    have "x \<noteq> y" if "first_ptr t b \<le> y" "y < end_ptr t b" for y
      using banks_apart [OF inv bank_of_cases b False, of x y] that F(1,2) x by simp
    from this [of "wr_ptr t b - 4"] this [of "wr_ptr t b + round_bytes n - 4"] this [of "first_ptr t b"]
    show ?thesis using B len by auto
  qed
  then show "m' x = ml_mem t x" by (rule same)
qed

lemma commit_keeps_inv:
  assumes inv: "lite_inv t q h" and nb: "next_buffer t \<noteq> -1" and n: "64 \<le> n" "n \<le> 1522"
  defines "cur \<equiv> packet_in_lld t"
  defines "t' \<equiv> mii_commit_buffer cur n (t\<lparr>packet_in_lld := next_buffer t\<rparr>)"
  shows "lite_inv t' (if length q = 31 then q else q @ [(cur, n, buf_words (ml_mem t) cur n)]) h"
proof -
  let ?t = "t\<lparr>packet_in_lld := next_buffer t\<rparr>"
  obtain lb where lb: "lb \<in> {0, 1}" "next_ok t lb" using inv by (auto simp: lite_inv_def)
  then have cur: "cur = wr_ptr t lb" "bank_ready t lb" and
      nxt: "next_buffer t = wr_ptr t (1 - lb)" "bank_ready t (1 - lb)" "1 - lb \<noteq> lb" "1 - lb \<in> {0, 1}" "1 - (1 - lb) = lb"
    using nb by (auto simp: next_ok_def cur_def)
  have bank: "bank_of t cur = lb" "bank_of ?t cur = lb"
    unfolding cur using bank_of_wr [OF inv lb(1)] by (simp_all add: bank_of_def)
  note R = inv [unfolded lite_inv_def, THEN conjunct2, THEN conjunct2, THEN conjunct2, THEN conjunct1]
  have full: "read_bank_rd_ptr ?t = increment_and_wrap_power_of_2 (read_bank_wr_ptr ?t) 32 \<longleftrightarrow> length q = 31"
    using ring_full [OF R] by simp
  show ?thesis
  proof (cases "length q = 31")
    case True
    then have t': "t' = ?t\<lparr>next_buffer := -1, refill_bank_number := lb\<rparr>"
      using full bank unfolding t'_def mii_commit_buffer_parts by simp
    have "next_ok t' (1 - lb)" using nxt unfolding t' by (simp add: next_ok_def bank_ready_def end_ptr_def)
    moreover have "ring_ok t' q" using R unfolding t' by (simp add: ring_ok_def bank_of_def)
    ultimately show ?thesis
      using inv nxt(4) True lite_inv_bank [OF inv lb(1)] unfolding t'
      by (intro lite_inv_update [OF inv lb(1)])
        (auto simp: lite_bank_def bank_stuck_ok_def end_ptr_def lite_inv_def)
  next
    case False
    have t': "t' = place lb (mii_notify (enlarge lb n (log_bank lb ?t)))"
      using False full bank unfolding t'_def mii_commit_buffer_parts by simp
    have B: "lite_bank ?t lb (unread_in t lb q) (held_in t lb h)"
      using lite_inv_bank(1) [OF inv lb(1)] by (simp add: lite_bank_def end_ptr_def)
    have r: "bank_ready ?t lb" using cur by (simp add: bank_ready_def end_ptr_def)
    note C = commit_bank [OF B r n, folded t', simplified]
    let ?f = "(cur, n, buf_words (ml_mem t) cur n)"
    have bounds: "first_ptr t lb + 4 \<le> wr_ptr t lb" "wr_ptr t lb + 1532 \<le> end_ptr t lb"
      using lite_bank_bounds [OF lite_inv_bank(1) [OF inv lb(1)]] ready_room [OF lite_inv_bank(1) [OF inv lb(1)] cur(2)] by simp_all
    have len: "68 \<le> round_bytes n" "round_bytes n \<le> 1528" using round_range [of n] n by (simp_all add: len_ok_def)
    have "buf_words (ml_mem t') cur n = buf_words (ml_mem t) cur n"
      by (rule buf_words_cong, rule C(4)) (use bounds in \<open>auto simp: cur\<close>)
    then have words: "words_ok (ml_mem t') (set (q @ [?f]) \<union> h)"
      using headers_keep_words [OF inv lb(1) n cur(2) C(4)] by (auto simp: words_ok_def)
    have ring: "ring_ok t' (q @ [?f])"
    proof (rule ring_log [OF R _ bank(1)])
      show "length q < 31" using R False by (simp add: ring_ok_def)
    qed (simp_all add: t' log_bank_def)
    have "next_ok t' (1 - lb)"
      using C(3) nxt unfolding next_ok_def by (simp add: t' bank_ready_def end_ptr_def)
    then have "lite_inv t' (q @ [?f]) h"
    proof (intro lite_inv_update [OF inv lb(1)])
      show "lite_bank t' lb (unread_in t lb (q @ [?f])) (held_in t lb h)"
        using C(1) bank by (simp add: unread_in_snoc cur)
      show "ml_mem t' a = ml_mem t a" if "a < first_ptr t lb \<or> end_ptr t lb \<le> a" for a
        using that bounds len by (intro C(4)) auto
      show "unread_in t c (q @ [?f]) = unread_in t c q \<and> held_in t c h = held_in t c h" if "c \<noteq> lb" for c
        using that bank by (simp add: unread_in_snoc)
      show "\<exists>lb\<in>{0, 1}. next_ok t' lb" if "next_ok t' (1 - lb)" using that nxt(4) by blast
    qed (use C(2) words ring in \<open>simp_all add: t'\<close>)
    then show ?thesis using False by simp
  qed
qed

lemma reject_keeps_inv:
  assumes inv: "lite_inv t q h" and nb: "next_buffer t \<noteq> -1"
  shows "lite_inv (mii_reject_buffer (packet_in_lld t) (t\<lparr>packet_in_lld := next_buffer t\<rparr>)) q h"
proof -
  let ?t = "mii_reject_buffer (packet_in_lld t) (t\<lparr>packet_in_lld := next_buffer t\<rparr>)"
  obtain lb where lb: "lb \<in> {0, 1}" "next_ok t lb" using inv by (auto simp: lite_inv_def)
  then have "next_ok ?t (1 - lb)" "1 - lb \<in> {0, 1}"
    using nb by (auto simp: next_ok_def mii_reject_buffer_def bank_ready_def end_ptr_def)
  moreover have "ring_ok ?t q" using inv by (simp add: lite_inv_def ring_ok_def bank_of_def mii_reject_buffer_def)
  ultimately show ?thesis
    using inv lite_inv_bank [OF inv lb(1)]
    by (intro lite_inv_update [OF inv lb(1)])
      (auto simp: lite_bank_def bank_stuck_ok_def end_ptr_def lite_inv_def mii_reject_buffer_def)
qed

section \<open>Reading a frame\<close>

lemma get_none: "ring_ok t [] \<Longrightarrow> mii_lite_get_in_buffer t = ((0, 0, 0), t)"
  using ring_empty [of t "[]"] by (simp add: mii_lite_get_in_buffer_def)

definition read_state :: "nat \<Rightarrow> addr \<Rightarrow> mii_lite_data_t \<Rightarrow> mii_lite_data_t" where
  "read_state b p t =
     (let t1 = t\<lparr>read_ptr := (read_ptr t)(b := if ml_mem t p = 0 then first_ptr t b else p),
                 read_bank_rd_ptr := increment_and_wrap_power_of_2 (read_bank_rd_ptr t) 32\<rparr>
      in if read_bank_rd_ptr t1 \<noteq> read_bank_wr_ptr t1 then mii_notify t1 else t1)"

lemma get_first:
  assumes inv: "lite_inv t ((a, n, ws) # q) h"
  shows "mii_lite_get_in_buffer t =
    ((a + 4, n - 4, ml_mem t a), read_state (bank_of t a) (a - 4 + round_bytes n) t)"
proof -
  note R = inv [unfolded lite_inv_def, THEN conjunct2, THEN conjunct2, THEN conjunct2, THEN conjunct1]
  let ?b = "bank_of t a"
  have b: "(if bit (read_bank t) (unat (read_bank_rd_ptr t)) then 1 else 0) = ?b" using ring_read(1) [OF R] by simp
  have "lite_bank t ?b ((a - 4, n) # unread_in t ?b q) (held_in t ?b h)"
    using lite_inv_bank(1) [OF inv bank_of_cases [of t a]] by (simp add: unread_in_def)
  note G = bank_get [OF this [unfolded lite_bank_def]]
  have w: "get_word (read_ptr t ?b) t = n" "64 \<le> n" using G by (simp_all add: get_word_def)
  have ne: "read_bank_rd_ptr t \<noteq> read_bank_wr_ptr t" using ring_empty [OF R] by simp
  have swap: "t\<lparr>read_ptr := g, read_bank_rd_ptr := r\<rparr> = t\<lparr>read_bank_rd_ptr := r, read_ptr := g\<rparr>" for g r
    by simp
  show ?thesis
    using ne w G(1) unfolding mii_lite_get_in_buffer_def Let_def b read_state_def
    by (auto simp: get_word_def signed_eq_0_iff swap)
qed

lemma read_state_fields [simp]:
  "next_buffer (read_state b p t) = next_buffer t" "packet_in_lld (read_state b p t) = packet_in_lld t"
  "refill_bank_number (read_state b p t) = refill_bank_number t" "free_ptr (read_state b p t) = free_ptr t"
  "wr_ptr (read_state b p t) = wr_ptr t" "last_safe_ptr (read_state b p t) = last_safe_ptr t"
  "first_ptr (read_state b p t) = first_ptr t"
  "read_ptr (read_state b p t) = (read_ptr t)(b := if ml_mem t p = 0 then first_ptr t b else p)"
  "read_bank (read_state b p t) = read_bank t"
  "read_bank_rd_ptr (read_state b p t) = increment_and_wrap_power_of_2 (read_bank_rd_ptr t) 32"
  "read_bank_wr_ptr (read_state b p t) = read_bank_wr_ptr t" "ml_mem (read_state b p t) = ml_mem t"
  by (simp_all add: read_state_def Let_def)

lemma get_keeps_inv:
  assumes inv: "lite_inv t (f # q) h"
  shows "lite_inv (snd (mii_lite_get_in_buffer t)) q (insert f h)"
proof -
  obtain a n ws where f: "f = (a, n, ws)" by (cases f)
  note inv' = inv [unfolded f]
  note R = inv [unfolded lite_inv_def, THEN conjunct2, THEN conjunct2, THEN conjunct2, THEN conjunct1]
  let ?b = "bank_of t a" and ?p = "a - 4 + round_bytes n"
  let ?t = "read_state ?b ?p t"
  have "lite_bank t ?b ((a - 4, n) # unread_in t ?b q) (held_in t ?b h)"
    using lite_inv_bank(1) [OF inv' bank_of_cases [of t a]] by (simp add: unread_in_def)
  note G = bank_get [OF this [unfolded lite_bank_def]]
  have "lite_inv ?t q (insert f h)"
  proof (rule lite_inv_update [OF inv bank_of_cases])
    have "held_in t ?b (insert f h) = insert (a - 4, n) (held_in t ?b h)"
      by (force simp: held_in_def f)
    then show "lite_bank ?t ?b (unread_in t ?b q) (held_in t ?b (insert f h))"
      using G(4) by (simp add: lite_bank_def end_ptr_def)
    show "bank_stuck_ok ?t ?b" using lite_inv_bank(2) [OF inv bank_of_cases] by (simp add: bank_stuck_ok_def end_ptr_def)
    show "unread_in t c q = unread_in t c (f # q) \<and> held_in t c (insert f h) = held_in t c h" if "c \<noteq> ?b" for c
      using that by (auto simp: unread_in_def held_in_def f)
    show "words_ok (ml_mem ?t) (set q \<union> insert f h)" using inv by (simp add: lite_inv_def words_ok_def)
    show "ring_ok ?t q" by (rule ring_read(2) [OF R]) simp_all
    show "\<exists>lb\<in>{0, 1}. next_ok ?t lb"
      using inv by (simp add: lite_inv_def next_ok_def bank_ready_def end_ptr_def)
  qed simp_all
  then show ?thesis unfolding f get_first [OF inv'] by simp
qed

section \<open>Releasing a frame\<close>

lemma wrap_keeps_words:
  assumes inv: "lite_inv t q h" and b: "b \<in> {0, 1}"
    and same: "\<And>a. a \<notin> {wr_ptr t b - 4, first_ptr t b} \<Longrightarrow> m' a = ml_mem t a"
  shows "words_ok m' (set q \<union> h)"
proof (rule words_ok_change [OF inv])
  fix a k ws x assume f: "(a, k, ws) \<in> set q \<union> h" and x: "a \<le> x" "x < a - 4 + round_bytes k"
  note F = frame_place [OF lite_inv_bank(1) [OF inv bank_of_cases] f refl]
  note bounds = lite_bank_bounds(4,5) [OF lite_inv_bank(1) [OF inv b]]
  have "x \<notin> {wr_ptr t b - 4, first_ptr t b}"
  proof (cases "bank_of t a = b")
    case True
    then show ?thesis using F(1,5) x by auto
  next
    case False
    have "x \<noteq> y" if "first_ptr t b \<le> y" "y < end_ptr t b" for y
      using banks_apart [OF inv bank_of_cases b False, of x y] that F(1,2) x by simp
    from this [of "wr_ptr t b - 4"] this [of "first_ptr t b"] show ?thesis using bounds by auto
  qed
  then show "m' x = ml_mem t x" by (rule same)
qed

lemma restart_keeps_inv:
  assumes inv: "lite_inv t q h"
  shows "lite_inv (mii_lite_restart_buffer t) q h"
proof (cases "next_buffer t = -1")
  case False
  then show ?thesis using inv by simp
next
  case True
  let ?t = "mii_lite_restart_buffer t"
  obtain lb where lb: "lb \<in> {0, 1}" "next_ok t lb" using inv by (auto simp: lite_inv_def)
  let ?b = "1 - lb"
  have b: "?b \<in> {0, 1}" "?b \<noteq> lb" "1 - ?b = lb" using lb by auto
  have wr: "wr_ptr t c \<noteq> -1" if "c \<in> {0, 1}" for c
    using lite_bank_bounds(1,4) [OF lite_inv_bank(1) [OF inv that]] by simp
  have nxt: "packet_in_lld t = wr_ptr t lb" "bank_ready t lb" "refill_bank_number t = ?b"
    using lb True wr [OF b(1)] by (auto simp: next_ok_def)
  note C = restart_bank [OF lite_inv_bank(1) [OF inv b(1)] True nxt(3)] 
  note S = lite_inv_bank(2) [OF inv b(1)]
  have bounds: "first_ptr t ?b + 4 \<le> wr_ptr t ?b" "wr_ptr t ?b \<le> end_ptr t ?b - 4"
    using lite_bank_bounds [OF lite_inv_bank(1) [OF inv b(1)]] by simp_all
  have words: "words_ok (ml_mem ?t) (set q \<union> h)"
    by (rule wrap_keeps_words [OF inv b(1) C(4)]) (use S in blast)+
  have n: "next_ok ?t lb" using C(3) S nxt b by (auto simp: next_ok_def bank_ready_def end_ptr_def)
  show ?thesis
  proof (rule lite_inv_update [OF inv b(1)])
    show "ml_mem ?t a = ml_mem t a" if "a < first_ptr t ?b \<or> end_ptr t ?b \<le> a" for a
      using that bounds C(4) [of a] S by auto
    show "\<exists>lb\<in>{0, 1}. next_ok ?t lb" using n lb(1) by blast
    show "ring_ok ?t q" using inv by (simp add: lite_inv_def ring_ok_def bank_of_def)
    show "lite_bank ?t ?b (unread_in t ?b q) (held_in t ?b h)" "bank_stuck_ok ?t ?b" using C(1,2) S by blast+
  qed (use words nxt(3) in \<open>simp_all add: eq_commute\<close>)
qed

lemma words_okD: "words_ok m fs \<Longrightarrow> (a, n, ws) \<in> fs \<Longrightarrow> ws = buf_words m a n"
  by (auto simp: words_ok_def)

lemma words_ok_subset: "words_ok m fs \<Longrightarrow> gs \<subseteq> fs \<Longrightarrow> words_ok m gs"
  by (auto simp: words_ok_def)

lemma held_release:
  assumes w: "words_ok m h" and f: "(a, n, ws) \<in> h"
  shows "held_in t b (h - {(a, n, ws)}) = (if bank_of t a = b then held_in t b h - {(a - 4, n)} else held_in t b h)"
proof -
  have inj: "inj_on hdr h"
  proof (rule inj_onI)
    fix f g assume "f \<in> h" "g \<in> h" "hdr f = hdr g"
    then show "f = g" by (cases f; cases g) (auto dest!: words_okD [OF w])
  qed
  have "{g \<in> h - {(a, n, ws)}. bank_of t (fst g) = b} = {g \<in> h. bank_of t (fst g) = b} - {(a, n, ws)}" by auto
  then have "held_in t b (h - {(a, n, ws)}) = held_in t b h - hdr ` {(a, n, ws)}" if "bank_of t a = b"
    unfolding held_in_def using inj_on_image_set_diff [OF inj, of "{g \<in> h. bank_of t (fst g) = b}" "{(a, n, ws)}"] f
    by auto
  moreover have "held_in t b (h - {(a, n, ws)}) = held_in t b h" if "bank_of t a \<noteq> b"
    unfolding held_in_def using that by (intro arg_cong [where f = "image hdr"]) auto
  ultimately show ?thesis by simp
qed

text \<open>Two frames share no word: not even the header of one with the words of the other.\<close>

lemma frames_apart:
  assumes inv: "lite_inv t q h" and f: "(a, n, ws) \<in> set q \<union> h" and g: "(c, k, vs) \<in> set q \<union> h" and ne: "a \<noteq> c"
    and x: "a - 4 \<le> x" "x < a - 4 + round_bytes n" and y: "c - 4 \<le> y" "y < c - 4 + round_bytes k"
  shows "x \<noteq> y"
proof (cases "bank_of t a = bank_of t c")
  case True
  note B = lite_inv_bank(1) [OF inv bank_of_cases [of t c]]
  from bank_disjoint [OF B [unfolded lite_bank_def] frame_buffer [OF f True] frame_buffer [OF g refl]]
  show ?thesis using ne x y by auto
next
  case False
  note F = frame_place [OF lite_inv_bank(1) [OF inv bank_of_cases] f refl]
    and G = frame_place [OF lite_inv_bank(1) [OF inv bank_of_cases] g refl]
  show ?thesis using banks_apart [OF inv bank_of_cases bank_of_cases False, of x y] F(1,2) G(1,2) x y by simp
qed

lemma release_keeps_inv:
  assumes inv: "lite_inv t q h" and f: "(a, n, ws) \<in> h"
  shows "lite_inv (set_word (a - 4) (- n) t) q (h - {(a, n, ws)})"
proof -
  let ?b = "bank_of t a" and ?t = "set_word (a - 4) (- n) t"
  have fin: "(a, n, ws) \<in> set q \<union> h" using f by simp
  note F = frame_place [OF lite_inv_bank(1) [OF inv bank_of_cases] fin refl]
  have len: "68 \<le> round_bytes n" using F(3,4) round_range [of n] by (simp add: len_ok_def)
  have v: "sint (word_of_int (- n) :: u32) = - n" using F(3,4) int_word_sint [of "- n", where 'a = 32] by simp
  have H: "(a - 4, n) \<in> held_in t ?b h" using f by (force simp: held_in_def)
  have words: "words_ok (ml_mem t) h" "ring_ok t q" "\<exists>lb\<in>{0, 1}. next_ok t lb"
    using inv by (auto simp: lite_inv_def words_ok_def)
  have "words_ok (ml_mem ?t) (set q \<union> h)"
  proof (rule words_ok_change [OF inv])
    fix c k vs x assume g: "(c, k, vs) \<in> set q \<union> h" and x: "c \<le> x" "x < c - 4 + round_bytes k"
    have "x \<noteq> a - 4"
      using frames_apart [OF inv fin g, of "a - 4" x] x len by (cases "a = c") auto
    then show "ml_mem ?t x = ml_mem t x" by simp
  qed
  then have w: "words_ok (ml_mem ?t) (set q \<union> (h - {(a, n, ws)}))" by (rule words_ok_subset) auto
  show ?thesis
  proof (rule lite_inv_update [OF inv bank_of_cases])
    show "lite_bank ?t ?b (unread_in t ?b q) (held_in t ?b (h - {(a, n, ws)}))"
      using bank_release [OF lite_inv_bank(1) [OF inv bank_of_cases, unfolded lite_bank_def] H v]
      by (simp add: held_release [OF words(1) f] lite_bank_def end_ptr_def)
    show "bank_stuck_ok ?t ?b"
      using lite_inv_bank(2) [OF inv bank_of_cases] by (simp add: bank_stuck_ok_def end_ptr_def)
    show "unread_in t c q = unread_in t c q \<and> held_in t c (h - {(a, n, ws)}) = held_in t c h" if "c \<noteq> ?b" for c
      using that by (simp add: held_release [OF words(1) f])
    show "ml_mem ?t x = ml_mem t x" if "x < first_ptr t ?b \<or> end_ptr t ?b \<le> x" for x
      using that F(1,2) len by auto
    show "ring_ok ?t q" using words by (simp add: ring_ok_def bank_of_def)
    show "\<exists>lb\<in>{0, 1}. next_ok ?t lb" using words by (simp add: next_ok_def bank_ready_def end_ptr_def)
    show "words_ok (ml_mem ?t) (set q \<union> (h - {(a, n, ws)}))" by (rule w)
  qed simp_all
qed

lemma not_ready_refill:
  assumes inv: "lite_inv t q h" and b: "b \<in> {0, 1}" and r: "\<not> bank_ready t b"
  shows "next_buffer t = -1" "refill_bank_number t = b" "packet_in_lld t = wr_ptr t (1 - b)" "bank_ready t (1 - b)"
  using inv b r unfolding lite_inv_def next_ok_def by auto

lemma ready_not_stuck: "lite_bank t b un H \<Longrightarrow> bank_ready t b \<Longrightarrow> bank_stuck_ok t b"
  by (auto simp: bank_ready_def ready_def bank_stuck_ok_def stuck_ok_def)

lemma free_keeps_inv:
  assumes inv: "lite_inv t q h" and f: "(a, n, ws) \<in> h"
    and live: "wr_ptr t (bank_of t a) \<le> last_safe_ptr t (bank_of t a) \<or> unread_in t (bank_of t a) q \<noteq> []"
  shows "\<exists>t'. mii_lite_free_in_buffer (a + 4) t = Some t' \<and> lite_inv t' q (h - {(a, n, ws)})"
proof -
  let ?b = "bank_of t a" and ?h = "h - {(a, n, ws)}"
  define t1 where "t1 = set_word (a - 4) (- n) t"
  have fin: "(a, n, ws) \<in> set q \<union> h" using f by simp
  note F = frame_place [OF lite_inv_bank(1) [OF inv bank_of_cases] fin refl]
  have F1: "0 < first_ptr t ?b" "end_ptr t 0 \<le> first_ptr t 1"
    using lite_bank_bounds(1) [OF lite_inv_bank(1) [OF inv bank_of_cases]] inv by (simp_all add: lite_inv_def)
  have len: "68 \<le> round_bytes n" using F(3,4) round_range [of n] by (simp add: len_ok_def)
  have bn: "(if a + 4 < first_ptr t 1 then 0 else 1) = ?b" "a + 4 \<noteq> 0"
    using F(1,2) F1 len by (auto simp: bank_of_def split: if_splits)
  have inv1: "lite_inv t1 q ?h" unfolding t1_def by (rule release_keeps_inv [OF inv f])
  note b = bank_of_cases [of t a]
  note B = lite_inv_bank(1) [OF inv1 b]
  obtain fr' where loop: "free_loop ?b t1 = Some (t1\<lparr>free_ptr := (free_ptr t1)(?b := fr')\<rparr>)"
      and bank: "bank (ml_mem t1) (first_ptr t1 ?b) (end_ptr t1 ?b) fr' (wr_ptr t1 ?b) (read_ptr t1 ?b)
        (unread_in t1 ?b q) (held_in t1 ?b ?h)"
      and rdy: "bank_ready t1 ?b \<longrightarrow> ready (end_ptr t1 ?b) fr' (wr_ptr t1 ?b)"
    using free_loop_bank [OF B [unfolded lite_bank_def]] unfolding bank_ready_def by blast
  define t2 where "t2 = t1\<lparr>free_ptr := (free_ptr t1)(?b := fr')\<rparr>"
  have B2: "lite_bank t2 ?b (unread_in t1 ?b q) (held_in t1 ?b ?h)"
    using bank by (simp add: lite_bank_def t2_def end_ptr_def)
  have "get_word (a - 4) t = n" using F(7) by (simp add: get_word_def)
  then have run: "mii_lite_free_in_buffer (a + 4) t = Some (mii_lite_restart_buffer t2)"
    using loop bn unfolding mii_lite_free_in_buffer_def Let_def t2_def by (simp add: t1_def)
  have other: "1 - ?b \<in> {0, 1}" "1 - ?b \<noteq> ?b" "1 - (1 - ?b) = ?b" using b by auto
  have words: "words_ok (ml_mem t1) (set q \<union> ?h)" "ring_ok t1 q" "\<exists>lb\<in>{0, 1}. next_ok t1 lb"
    using inv1 by (auto simp: lite_inv_def)
  have "lite_inv (mii_lite_restart_buffer t2) q ?h"
  proof (cases "bank_ready t1 ?b")
    case True
    then have r: "bank_ready t2 ?b" using rdy by (simp add: bank_ready_def t2_def end_ptr_def)
    have "\<exists>lb\<in>{0, 1}. next_ok t2 lb"
    proof -
      have same: "bank_ready t2 c \<longleftrightarrow> bank_ready t1 c" for c
        using r True by (cases "c = ?b") (simp_all add: bank_ready_def t2_def end_ptr_def)
      show ?thesis using words(3) unfolding next_ok_def same by (simp add: t2_def)
    qed
    then have "lite_inv t2 q ?h"
      using B2 ready_not_stuck [OF B2 r] words
      by (intro lite_inv_update [OF inv1 b]) (simp_all add: t2_def ring_ok_def bank_of_def)
    then show ?thesis by (rule restart_keeps_inv)
  next
    case False
    note N = not_ready_refill [OF inv1 b False]
    have n2: "next_buffer t2 = -1" "refill_bank_number t2 = ?b" using N by (simp_all add: t2_def)
    have un: "unread_in t1 ?b q \<noteq> []" if "\<not> bank_stuck_ok t2 ?b"
      using that live mod4_safe [OF lite_bank_bounds(8,10) [OF B]]
      by (auto simp: bank_stuck_ok_def stuck_ok_def t2_def t1_def end_ptr_def unread_in_cong [of "set_word (a - 4) (- n) t" t])
    note C = restart_bank [OF B2 n2 un]
    let ?t = "mii_lite_restart_buffer t2"
    have mem: "ml_mem ?t x = ml_mem t1 x" if "x \<notin> {wr_ptr t1 ?b - 4, first_ptr t1 ?b}" for x
      using C(4) [of x] that by (simp add: t2_def)
    have bounds: "first_ptr t1 ?b + 4 \<le> wr_ptr t1 ?b" "wr_ptr t1 ?b \<le> end_ptr t1 ?b - 4"
      using lite_bank_bounds [OF B] by simp_all
    have nxt: "next_ok ?t (1 - ?b)"
      using C(3) N other n2 by (auto simp: next_ok_def bank_ready_def end_ptr_def t2_def)
    show ?thesis
    proof (rule lite_inv_update [OF inv1 b])
      show "lite_bank ?t ?b (unread_in t1 ?b q) (held_in t1 ?b ?h)" "bank_stuck_ok ?t ?b" using C(1,2) by blast+
      show "words_ok (ml_mem ?t) (set q \<union> ?h)" by (rule wrap_keeps_words [OF inv1 b mem])
      show "ml_mem ?t x = ml_mem t1 x" if "x < first_ptr t1 ?b \<or> end_ptr t1 ?b \<le> x" for x
        using that bounds by (intro mem) auto
      show "ring_ok ?t q" using words by (simp add: ring_ok_def bank_of_def t2_def)
      show "\<exists>lb\<in>{0, 1}. next_ok ?t lb" using nxt other(1) by blast
      show "free_ptr ?t c = free_ptr t1 c \<and> wr_ptr ?t c = wr_ptr t1 c \<and> read_ptr ?t c = read_ptr t1 c" if "c \<noteq> ?b" for c
        using that n2(2) by (simp add: t2_def)
    qed (simp_all add: t2_def)
  qed
  then show ?thesis using run by blast
qed

end
