(* ===== verification/Mii_Lite_Run.thy ===== *)
theory Mii_Lite_Run
  imports Mii_Lite_Ops
begin

text \<open>
  Runs of the MII driver: frames end, and the client reads and releases frames and takes notifications,
  in any order. The queue of frames not yet read and the frames held are kept beside the state, as the
  interface (\<^verbatim>\<open>api/mii.h\<close>) promises them to the client.
\<close>

section \<open>The initial state\<close>

lemma init_inv:
  assumes a: "0 < address" "address mod 4 = 0" "768 \<le> w" "address + 4 * w \<le> 2 ^ 32"
  shows "lite_inv (mii_lite_buffer_init address w m) [] {}"
proof -
  let ?t = "mii_lite_buffer_init address w m"
  define F1 where "F1 = address + 4 * (w div 2)"
  have F1: "address + 1536 \<le> F1" "F1 + 1536 \<le> address + 4 * w" "F1 mod 4 = 0" "(address + 4 * w) mod 4 = 0"
    unfolding F1_def using a by presburger+
  have "2 * w div 4 = w div 2" by presburger
  then have fields: "first_ptr ?t = (\<lambda>b. if b = 0 then address else F1)" "free_ptr ?t = first_ptr ?t"
    "wr_ptr ?t = (\<lambda>b. first_ptr ?t b + 4)" "read_ptr ?t = first_ptr ?t"
    "last_safe_ptr ?t = (\<lambda>b. if b = 0 then F1 - 1530 else address + 4 * w - 1530)"
    "next_buffer ?t = F1 + 4" "packet_in_lld ?t = address + 4" "ml_mem ?t = m(address := 1, F1 := 1)"
    "read_bank_rd_ptr ?t = 0" "read_bank_wr_ptr ?t = 0"
    unfolding mii_lite_buffer_init_def and_not_3 by (simp_all add: Let_def F1_def cong: if_cong)
  have bank: "lite_bank ?t b [] {}" "bank_ready ?t b" if "b \<in> {0, 1}" for b
  proof -
    let ?F = "first_ptr ?t b" and ?E = "end_ptr ?t b"
    have "chain (ml_mem ?t) ?F ?E (free_ptr ?t b) (wr_ptr ?t b) [] []"
      using that a F1 by (auto simp: chain_def fields end_ptr_def)
    then show "lite_bank ?t b [] {}"
      unfolding lite_bank_def bank_def by (intro exI [of _ "[]"]) (simp add: fields)
    show "bank_ready ?t b" using that F1 by (auto simp: bank_ready_def ready_def fields end_ptr_def)
  qed
  have "next_ok ?t 0" using bank(2) [of 0] bank(2) [of 1] by (simp add: next_ok_def fields)
  moreover have "end_ptr ?t 0 \<le> first_ptr ?t 1" by (simp add: end_ptr_def fields)
  moreover have "ring_ok ?t []" by (simp add: ring_ok_def fields)
  ultimately show ?thesis
    unfolding lite_inv_def using bank ready_not_stuck [OF bank(1) bank(2)]
    by (auto simp: unread_in_def held_in_def words_ok_def)
qed

section \<open>Runs\<close>

text \<open>
  A frame of at most 1522 bytes (its checksum included) ends while the receiver fills \<open>packet_in_lld\<close>. It joins the queue
  unless it is bad or short, there is no next buffer, or 31 frames are waiting.
\<close>

definition arrive :: "mii_lite_data_t \<Rightarrow> mem \<Rightarrow> addr \<Rightarrow> frame list \<Rightarrow> frame list" where
  "arrive t m e q =
     (let cur = packet_in_lld t; n = CRCBad m cur e
      in if next_buffer t = -1 \<or> n < 64 \<or> length q = 31 then q else q @ [(cur, n, buf_words m cur n)])"

text \<open>
  A bank that has reached its end while its oldest frame is still held; the release of a frame of
  such a bank is only sound while the bank has frames to read.
\<close>

definition may_release :: "mii_lite_data_t \<Rightarrow> frame list \<Rightarrow> addr \<Rightarrow> bool" where
  "may_release t q a \<longleftrightarrow> wr_ptr t (bank_of t a) \<le> last_safe_ptr t (bank_of t a) \<or>
     (\<exists>(c, n, ws)\<in>set q. bank_of t c = bank_of t a)"

text \<open>\<open>due\<close> says that the client has taken a notification and has not read a frame since.\<close>

inductive lite_run :: "mii_lite_data_t \<Rightarrow> mii_lite_data_t \<Rightarrow> frame list \<Rightarrow> frame set \<Rightarrow> bool \<Rightarrow> bool"
  for t0 :: mii_lite_data_t where
  start: "lite_run t0 t0 [] {} False"
| frame: "lite_run t0 t q h due \<Longrightarrow> lld_writes (packet_in_lld t) (ml_mem t) m \<Longrightarrow>
    CRCBad m (packet_in_lld t) e \<le> 1522 \<Longrightarrow>
    lite_run t0 (mii_interrupt_handler e (t\<lparr>ml_mem := m\<rparr>)) (arrive t m e q) h due"
| get: "lite_run t0 t q h due \<Longrightarrow> mii_lite_get_in_buffer t = (r, t') \<Longrightarrow>
    lite_run t0 t' (tl q) (h \<union> set (take 1 q)) False"
| free: "lite_run t0 t q h due \<Longrightarrow> (a, n, ws) \<in> h \<Longrightarrow> may_release t q a \<Longrightarrow>
    mii_lite_free_in_buffer (a + 4) t = Some t' \<Longrightarrow> lite_run t0 t' q (h - {(a, n, ws)}) due"
| free_null: "lite_run t0 t q h due \<Longrightarrow> mii_lite_free_in_buffer 0 t = Some t' \<Longrightarrow> lite_run t0 t' q h due"
| notified: "lite_run t0 t q h due \<Longrightarrow> mii_notified t = Some t' \<Longrightarrow> lite_run t0 t' q h True"

lemma frame_keeps_inv:
  assumes inv: "lite_inv t q h" and w: "lld_writes (packet_in_lld t) (ml_mem t) m"
    and n: "CRCBad m (packet_in_lld t) e \<le> 1522"
  shows "lite_inv (mii_interrupt_handler e (t\<lparr>ml_mem := m\<rparr>)) (arrive t m e q) h"
proof -
  let ?t = "t\<lparr>ml_mem := m\<rparr>" and ?n = "CRCBad m (packet_in_lld t) e"
  have inv': "lite_inv ?t q h" by (rule lld_keeps_inv [OF inv w])
  consider "next_buffer t = -1" | "next_buffer t \<noteq> -1" "?n < 64" | "next_buffer t \<noteq> -1" "64 \<le> ?n" by linarith
  then show ?thesis
  proof cases
    case 1
    have "lite_inv (?t\<lparr>mii_packets_overran := mii_packets_overran t + 1\<rparr>) q h"
      using inv' by (subst lite_inv_cong [of _ ?t]) simp_all
    then show ?thesis using 1 by (simp add: mii_interrupt_handler_def arrive_def)
  next
    case 2
    then show ?thesis using reject_keeps_inv [OF inv'] by (simp add: mii_interrupt_handler_def mii_client_user_def arrive_def Let_def)
  next
    case 3
    then show ?thesis using commit_keeps_inv [OF inv', of ?n] n
      by (simp add: mii_interrupt_handler_def mii_client_user_def arrive_def Let_def split: if_splits)
  qed
qed

lemma notified_keeps_inv:
  assumes "lite_inv t q h" and "mii_notified t = Some t'"
  shows "lite_inv t' q h"
proof -
  obtain b bs where "t' = t\<lparr>notify_seen := b, ml_notified := bs\<rparr>"
    using assms(2) by (auto simp: mii_notified_def split: list.splits)
  then show ?thesis using assms(1) by (subst lite_inv_cong [of _ t]) simp_all
qed

lemma run_inv:
  assumes "lite_run t0 t q h due" and "lite_inv t0 [] {}"
  shows "lite_inv t q h"
  using assms(1)
proof (induction rule: lite_run.induct)
  case start
  show ?case by (rule assms(2))
next
  case (frame t q h due m e)
  show ?case by (rule frame_keeps_inv [OF frame.IH frame.hyps(2,3)])
next
  case (get t q h due r t')
  then show ?case
  proof (cases q)
    case Nil
    then show ?thesis using get get_none [of t] by (simp add: lite_inv_def)
  next
    case (Cons f q')
    then show ?thesis using get get_keeps_inv [of t f q' h] by simp
  qed
next
  case (free t q h due a n ws t')
  have "wr_ptr t (bank_of t a) \<le> last_safe_ptr t (bank_of t a) \<or> unread_in t (bank_of t a) q \<noteq> []"
    using free.hyps(3) by (force simp: may_release_def unread_in_def filter_empty_conv)
  then show ?case using free_keeps_inv [OF free.IH free.hyps(2)] free.hyps(4) by auto
next
  case (free_null t q h due t')
  then show ?case using restart_keeps_inv [OF free_null.IH] by (simp add: mii_lite_free_in_buffer_def)
next
  case (notified t q h due t')
  show ?case by (rule notified_keeps_inv [OF notified.IH notified.hyps(2)])
qed

section \<open>Notifications\<close>

text \<open>What the client has been told.\<close>

definition told :: "mii_lite_data_t \<Rightarrow> bool \<times> bool \<times> bool list" where
  "told t = (notify_last t, notify_seen t, ml_notified t)"

definition told_ok :: "mii_lite_data_t \<Rightarrow> bool" where
  "told_ok t \<longleftrightarrow> ml_notified t = (if notify_last t = notify_seen t then [] else [notify_last t])"

lemma told_ok_cong: "told t' = told t \<Longrightarrow> told_ok t' = told_ok t \<and> ml_notified t' = ml_notified t"
  by (simp add: told_def told_ok_def)

lemma told_fields [simp]:
  "told (set_word a v t) = told t" "told (wrap_to_head b t) = told t" "told (place b t) = told t"
  "told (t\<lparr>free_ptr := f\<rparr>) = told t" "told (enlarge b n t) = told t" "told (log_bank b t) = told t" "told (mii_lite_restart_buffer t) = told t"
  by (simp_all add: told_def set_word_def wrap_to_head_def place_def enlarge_def log_bank_def
      mii_lite_restart_buffer_def Let_def)

lemma notify_told: "told_ok t \<Longrightarrow> told_ok (mii_notify t) \<and> ml_notified (mii_notify t) \<noteq> []"
  by (auto simp: told_ok_def mii_notify_def split: if_splits)

lemma free_loop_told:
  assumes "free_loop b t = Some t'"
  shows "told t' = told t"
proof (rule free_loop.raw_induct [where P = "\<lambda>_ t t'. told t' = told t", OF _ assms])
  fix loop :: "nat \<Rightarrow> mii_lite_data_t \<Rightarrow> mii_lite_data_t option" and b t t'
  assume IH: "\<And>b t t'. loop b t = Some t' \<Longrightarrow> told t' = told t"
    and step: "(let l = get_word (free_ptr t b) t
      in if l > 0 then Some t
         else if l = 0 then loop b (t\<lparr>free_ptr := (free_ptr t)(b := first_ptr t b)\<rparr>)
         else loop b (t\<lparr>free_ptr := (free_ptr t)(b := free_ptr t b + round_bytes (- l))\<rparr>)) = Some t'"
  from step show "told t' = told t" by (auto simp: Let_def split: if_splits dest!: IH)
qed

lemma free_told:
  assumes "mii_lite_free_in_buffer base t = Some t'"
  shows "told t' = told t"
proof (cases "base = 0")
  case True
  then show ?thesis using assms by (auto simp: mii_lite_free_in_buffer_def)
next
  case False
  then obtain bn a v u where "free_loop bn (set_word a v t) = Some u" "t' = mii_lite_restart_buffer u"
    using assms unfolding mii_lite_free_in_buffer_def Let_def by auto
  then show ?thesis using free_loop_told by fastforce
qed

lemma get_told:
  assumes "ring_ok t (f # q)" and "told_ok t" and "q \<noteq> []"
  shows "told_ok (read_state b p t) \<and> ml_notified (read_state b p t) \<noteq> []"
proof -
  let ?u = "t\<lparr>read_ptr := (read_ptr t)(b := if ml_mem t p = 0 then first_ptr t b else p),
      read_bank_rd_ptr := increment_and_wrap_power_of_2 (read_bank_rd_ptr t) 32\<rparr>"
  have "ring_ok ?u q" by (rule ring_read(2) [OF assms(1)]) simp_all
  then have "read_bank_rd_ptr ?u \<noteq> read_bank_wr_ptr ?u" using ring_empty assms(3) by blast
  then have "read_state b p t = mii_notify ?u" by (simp add: read_state_def)
  moreover have "told_ok ?u" using assms(2) by (simp add: told_ok_def)
  ultimately show ?thesis using notify_told by simp
qed

lemma frame_told:
  fixes e :: addr
  assumes inv: "lite_inv t q h" and t: "told_ok t" and q: "q \<noteq> [] \<longrightarrow> ml_notified t \<noteq> [] \<or> due"
    and w: "lld_writes (packet_in_lld t) (ml_mem t) m"
  defines "t' \<equiv> mii_interrupt_handler e (t\<lparr>ml_mem := m\<rparr>)"
  shows "told_ok t' \<and> (arrive t m e q \<noteq> [] \<longrightarrow> ml_notified t' \<noteq> [] \<or> due)"
proof -
  let ?n = "CRCBad m (packet_in_lld t) e"
  have R: "ring_ok t q" using inv by (simp add: lite_inv_def)
  let ?s = "t\<lparr>ml_mem := m, packet_in_lld := next_buffer t\<rparr>"
  have full: "read_bank_rd_ptr ?s = increment_and_wrap_power_of_2 (read_bank_wr_ptr ?s) 32 \<longleftrightarrow> length q = 31"
    using ring_full [OF R] by simp
  show ?thesis
  proof (cases "next_buffer t \<noteq> -1 \<and> 64 \<le> ?n \<and> length q \<noteq> 31")
    case True
    let ?u = "enlarge (bank_of ?s (packet_in_lld t)) ?n (log_bank (bank_of ?s (packet_in_lld t)) ?s)"
    have "t' = place (bank_of ?s (packet_in_lld t)) (mii_notify ?u)"
      using True full unfolding t'_def mii_interrupt_handler_def mii_client_user_def mii_commit_buffer_parts by (simp add: Let_def)
    then have told': "told t' = told (mii_notify ?u)" by simp
    have "told ?u = told t" by (simp add: told_def [of ?s] told_def [of t])
    then have "told_ok ?u" using told_ok_cong t by blast
    then show ?thesis using notify_told told_ok_cong [OF told'] by simp
  next
    case False
    have "told t' = told t"
      using False full unfolding t'_def mii_interrupt_handler_def mii_client_user_def mii_commit_buffer_parts mii_reject_buffer_def
      by (auto simp: told_def Let_def)
    moreover have "arrive t m e q = q" using False by (auto simp: arrive_def Let_def)
    ultimately show ?thesis using t q told_ok_cong by metis
  qed
qed

lemma run_told:
  assumes "lite_run t0 t q h due" and "lite_inv t0 [] {}" and "told_ok t0"
  shows "told_ok t \<and> (q \<noteq> [] \<longrightarrow> ml_notified t \<noteq> [] \<or> due)"
  using assms(1)
proof (induction rule: lite_run.induct)
  case start
  then show ?case using assms(3) by simp
next
  case (frame t q h due m e)
  then show ?case using frame_told [OF run_inv [OF frame.hyps(1) assms(2)]] by blast
next
  case (get t q h due r t')
  note inv = run_inv [OF get.hyps(1) assms(2)]
  have R: "ring_ok t q" using inv by (simp add: lite_inv_def)
  show ?case
  proof (cases q)
    case Nil
    then show ?thesis using get.hyps(2) get.IH get_none [of t] R by simp
  next
    case (Cons f q')
    obtain a n ws where f: "f = (a, n, ws)" by (cases f)
    have t': "t' = read_state (bank_of t a) (a - 4 + round_bytes n) t"
      using get.hyps(2) get_first [of t a n ws q' h] inv by (simp add: Cons f)
    show ?thesis
    proof (cases "q' = []")
      case True
      have "ring_ok t' q'" unfolding t' using R unfolding Cons by (rule ring_read(2)) simp_all
      then have "read_bank_rd_ptr t' = read_bank_wr_ptr t'" using ring_empty True by blast
      then have "increment_and_wrap_power_of_2 (read_bank_rd_ptr t) 32 = read_bank_wr_ptr t" by (simp add: t')
      then have "told t' = told t" unfolding t' by (simp add: read_state_def told_def Let_def)
      from told_ok_cong [OF this] show ?thesis using get.IH True Cons by simp
    next
      case False
      then show ?thesis using get_told [OF R [unfolded Cons] _ False] get.IH Cons unfolding t' by simp
    qed
  qed
next
  case (free t q h due a n ws t')
  show ?case using free.IH told_ok_cong [OF free_told [OF free.hyps(4)]] by simp
next
  case (free_null t q h due t')
  show ?case using free_null.IH told_ok_cong [OF free_told [OF free_null.hyps(2)]] by simp
next
  case (notified t q h due t')
  then show ?case by (auto simp: mii_notified_def told_ok_def split: list.splits if_splits)
qed

end
