(* ===== verification/Mii_Mac_Run.thy ===== *)
theory Mii_Mac_Run
  imports Mii_Mac Mii_Lite_Run Mii_Tx
begin

text \<open>
  Runs of the MAC without real-time features on the MII driver: frames come in, clients call, and the frame
  being delivered stays in the driver's buffers, held and counted, until its last reader is done.
\<close>

section \<open>Bytes of a frame\<close>

text \<open>The bytes a client gets of a frame: those behind the time stamp, without the checksum.\<close>

definition frame_bytes :: "frame \<Rightarrow> u8 list" where
  "frame_bytes f = (case f of (a, n, ws) \<Rightarrow> take (nat (n - 4)) (concat (map word_bytes (tl ws))))"

lemma ldb_word: "a mod 4 = 0 \<Longrightarrow> j < 4 \<Longrightarrow> ldb m (a + int j) = word_bytes (m a) ! j"
proof -
  assume a: "a mod 4 = 0" and j: "j < 4"
  have "(a + int j) mod 4 = int j" using a j by presburger
  then show ?thesis using j by (simp add: ldb_def word_bytes_nth)
qed

lemma ldbs_words:
  assumes a: "a mod 4 = 0" and k: "k \<le> 4 * w"
  shows "ldbs m a k = take k (concat (map word_bytes (map (\<lambda>i. m (a + 4 * int i)) [0..<w])))"
proof (rule nth_equalityI)
  show "length (ldbs m a k) = length (take k (concat (map word_bytes (map (\<lambda>i. m (a + 4 * int i)) [0..<w]))))"
    using k by (simp del: map_map)
  fix i assume "i < length (ldbs m a k)"
  then have i: "i < k" "i < 4 * w" "i div 4 < w" using k by auto
  have "int i = 4 * int (i div 4) + int (i mod 4)" by (simp add: zdiv_int zmod_int)
  then have "ldbs m a k ! i = ldb m ((a + 4 * int (i div 4)) + int (i mod 4))" using i by (simp add: add.assoc)
  also have "\<dots> = word_bytes (m (a + 4 * int (i div 4))) ! (i mod 4)" using a by (intro ldb_word) simp_all
  finally show "ldbs m a k ! i = take k (concat (map word_bytes (map (\<lambda>i. m (a + 4 * int i)) [0..<w]))) ! i"
    using i concat_word_bytes_nth [of i "map (\<lambda>i. m (a + 4 * int i)) [0..<w]"] by (simp del: map_map)
qed

lemma ldbs_frame:
  assumes a: "a mod 4 = 0" and n: "4 \<le> n"
  shows "ldbs m (a + 4) (nat (n - 4)) = frame_bytes (a, n, buf_words m a n)"
proof -
  let ?w = "nat ((n + 3) div 4)"
  define v where "v = ?w - 1"
  have w: "?w = Suc v" using n by (simp add: v_def)
  have "tl (buf_words m a n) = map (\<lambda>i. m ((a + 4) + 4 * int i)) [0..<v]"
    unfolding buf_words_def w by (simp add: upt_conv_Cons map_Suc_upt [symmetric] algebra_simps del: upt_Suc)
  moreover have "nat (n - 4) \<le> 4 * v" using n w by linarith
  moreover have "(a + 4) mod 4 = 0" using a by presburger
  ultimately show ?thesis using ldbs_words [of "a + 4" "nat (n - 4)" v m] by (simp add: frame_bytes_def)
qed

section \<open>The invariant\<close>

definition flags :: "mac_server \<Rightarrow> bool list" where
  "flags s = map cs_incoming_packet (ms_client_state s)"

text \<open>How the variables of the server describe the frame being delivered.\<close>

definition current_ok :: "mac_server \<Rightarrow> frame option \<Rightarrow> bool" where
  "current_ok s cur \<longleftrightarrow>
     (case cur of
        None \<Rightarrow> ms_incoming_data s = 0 \<and> True \<notin> set (flags s)
      | Some (a, n, ws) \<Rightarrow> ms_incoming_data s = a + 4 \<and> ms_incoming_nbytes s = n - 4 \<and>
          ms_incoming_timestamp s = ws ! 0 \<and> ms_incoming_tcount s = int (count_list (flags s) True) \<and>
          0 < ms_incoming_tcount s)"

definition mac_inv :: "mac_server \<Rightarrow> frame list \<Rightarrow> frame option \<Rightarrow> bool" where
  "mac_inv s q cur \<longleftrightarrow> lite_inv (ms_mii s) q (set_option cur) \<and> current_ok s cur"

lemma current_ok_cong:
  "flags s' = flags s \<Longrightarrow> ms_incoming_data s' = ms_incoming_data s \<Longrightarrow> ms_incoming_nbytes s' = ms_incoming_nbytes s \<Longrightarrow>
     ms_incoming_timestamp s' = ms_incoming_timestamp s \<Longrightarrow> ms_incoming_tcount s' = ms_incoming_tcount s \<Longrightarrow>
     current_ok s' cur = current_ok s cur"
  by (simp add: current_ok_def split: option.split)

lemma map_nth_same: "(map f xs)[i := f (xs ! i)] = map f xs"
  by (metis list_update_beyond list_update_id length_map not_le nth_map)

lemma flags_on_client:
  "(\<And>c. cs_incoming_packet (f c) = cs_incoming_packet c) \<Longrightarrow> flags (on_client_mac i f s) = flags s"
  unfolding flags_def on_client_mac_def by (cases "i < length (ms_client_state s)") (simp_all add: map_update map_nth_same)

text \<open>The variables of the server that describe the frame being delivered.\<close>

definition same_delivery :: "mac_server \<Rightarrow> mac_server \<Rightarrow> bool" where
  "same_delivery s' s \<longleftrightarrow> flags s' = flags s \<and> ms_incoming_data s' = ms_incoming_data s \<and>
     ms_incoming_nbytes s' = ms_incoming_nbytes s \<and> ms_incoming_timestamp s' = ms_incoming_timestamp s \<and>
     ms_incoming_tcount s' = ms_incoming_tcount s \<and> ms_mii s' = ms_mii s"

lemma same_delivery_inv: "same_delivery s' s \<Longrightarrow> mac_inv s' q cur = mac_inv s q cur"
  using current_ok_cong [of s' s] by (auto simp: same_delivery_def mac_inv_def)

lemma same_on_client: "(\<And>c. cs_incoming_packet (f c) = cs_incoming_packet c) \<Longrightarrow> same_delivery (on_client_mac i f s) s"
  using flags_on_client [of f i s] by (simp add: same_delivery_def) (simp add: on_client_mac_def)

section \<open>Turns of the loop\<close>

text \<open>A call only faults by an assertion or a write outside an array.\<close>

definition settled :: "fault + 'a \<Rightarrow> ('a \<Rightarrow> bool) \<Rightarrow> bool" where
  "settled r P \<longleftrightarrow> r = Inl Assertion \<or> r = Inl Out_Of_Bounds \<or> (\<exists>x. r = Inr x \<and> P x)"

lemma settledI: "r = Inr x \<Longrightarrow> P x \<Longrightarrow> settled r P"
  by (simp add: settled_def)

lemma settled_bind: "settled r P \<Longrightarrow> (\<And>x. P x \<Longrightarrow> settled (f x) Q) \<Longrightarrow> settled (bind r f) Q"
  by (cases r) (auto simp: settled_def)

lemma settled_simps [simp]: "settled (Inl Assertion) P" "settled (Inl Out_Of_Bounds) P" "settled (Inr x) P = P x"
  by (simp_all add: settled_def)

lemma bind_bind: "bind (bind r f) g = bind r (\<lambda>x. bind (f x) g)"
  by (cases r) simp_all

lemma settled_put_bytes: "settled (put_bytes data k bs) (\<lambda>d. d = take k data @ bs @ drop (k + length bs) data)"
  by (simp add: put_bytes_def)

lemma cfg_settled: "settled (handle_cfg_mac e s) (\<lambda>(r, s'). same_delivery s' s)"
proof (cases e)
  case (Set_Link_State status speed)
  have "flags (update_client_state_mac t) = flags t" for t
    by (simp add: flags_def update_client_state_mac_def comp_def if_distrib cong: if_cong)
  then show ?thesis using Set_Link_State by (simp add: same_delivery_def flags_def update_client_state_mac_def)
next
  case (Add_Ethertype_Filter i t)
  show ?thesis
  proof (cases "add_ethertype_filter_mac t (ms_client_state s ! i)")
    case (Some c)
    then have "cs_incoming_packet c = cs_incoming_packet (ms_client_state s ! i)"
      by (auto simp: add_ethertype_filter_mac_def Let_def split: if_splits)
    then have "flags (on_client_mac i (\<lambda>_. c) s) = flags s"
      by (simp add: flags_def on_client_mac_def map_update map_nth_same)
    then show ?thesis using Add_Ethertype_Filter Some by (simp add: same_delivery_def) (simp add: on_client_mac_def)
  qed (simp add: Add_Ethertype_Filter)
next
  case (Del_Ethertype_Filter i t)
  have "cs_incoming_packet (del_ethertype_filter_mac t c) = cs_incoming_packet c" for c
    by (simp add: del_ethertype_filter_mac_def split: prod.split)
  then show ?thesis using Del_Ethertype_Filter same_on_client by simp
qed (auto simp: same_on_client split: option.split, (simp_all add: same_delivery_def flags_def)?)

lemma tx_settled: "settled (handle_tx_mac e s) (\<lambda>(r, s'). same_delivery s' s)"
  by (cases e) (auto simp: complete_send_packet_mac_def same_delivery_def flags_def Let_def split: prod.split)

text \<open>Releasing the frame in delivery, or one just read.\<close>

lemma release_settled:
  assumes inv: "lite_inv (ms_mii s) q h" and f: "(a, n, ws) \<in> h" and live: "may_release (ms_mii s) q a"
  shows "\<exists>t. release_packet (a + 4) s = Inr (s\<lparr>ms_mii := t\<rparr>) \<and> lite_inv t q (h - {(a, n, ws)})"
proof -
  have "wr_ptr (ms_mii s) (bank_of (ms_mii s) a) \<le> last_safe_ptr (ms_mii s) (bank_of (ms_mii s) a) \<or>
      unread_in (ms_mii s) (bank_of (ms_mii s) a) q \<noteq> []"
    using live by (force simp: may_release_def unread_in_def filter_empty_conv)
  then show ?thesis using free_keeps_inv [OF inv f] by (auto simp: release_packet_def)
qed

lemma release_null_settled:
  assumes "lite_inv (ms_mii s) q h"
  shows "\<exists>t. release_packet 0 s = Inr (s\<lparr>ms_mii := t\<rparr>) \<and> lite_inv t q h"
  using restart_keeps_inv [OF assms] by (auto simp: release_packet_def mii_lite_free_in_buffer_def)

lemma count_list_update_False:
  "i < length xs \<Longrightarrow> xs ! i \<Longrightarrow> count_list (xs[i := False]) True = count_list xs True - 1 \<and> 0 < count_list xs True"
proof (induction xs arbitrary: i)
  case (Cons x xs)
  then show ?case by (cases i) auto
qed simp

lemma count_list_True_0: "count_list xs True = 0 \<longleftrightarrow> True \<notin> set xs"
  by (simp add: count_list_0_iff)

lemma frame_addr: "lite_inv t q h \<Longrightarrow> (a, n, ws) \<in> set q \<union> h \<Longrightarrow> 0 < a \<and> a mod 4 = 0 \<and> 64 \<le> n"
proof -
  assume inv: "lite_inv t q h" and f: "(a, n, ws) \<in> set q \<union> h"
  note F = frame_place [OF lite_inv_bank(1) [OF inv bank_of_cases] f refl]
  note B = lite_inv_bank(1) [OF inv bank_of_cases [of t a]]
  have "(a - 4) mod 4 = 0" using bank_member(3) [OF B [unfolded lite_bank_def] frame_buffer [OF f refl]] .
  moreover have "0 < first_ptr t (bank_of t a)" using lite_bank_bounds(1) [OF B] .
  ultimately show ?thesis using F(1,3) by presburger
qed

text \<open>
  What the call \<open>get_packet\<close> does to the delivery: when the reader is the last, the frame is released.
\<close>

lemma get_packet_settled:
  assumes inv: "mac_inv s q cur" and i: "i < length (ms_client_state s)"
    and live: "\<And>a n ws. cur = Some (a, n, ws) \<Longrightarrow> may_release (ms_mii s) q a"
  shows "settled (get_packet_mac i data s)
    (\<lambda>(desc, d, s'). mac_inv s' q (if ms_incoming_data s' = 0 then None else cur))"
proof -
  let ?c = "ms_client_state s ! i"
  have L: "lite_inv (ms_mii s) q (set_option cur)" and C: "current_ok s cur" using inv by (simp_all add: mac_inv_def)
  let ?Q = "\<lambda>s'. mac_inv s' q (if ms_incoming_data s' = 0 then None else cur)"
  have stay: "settled (release_if_read s') ?Q" if "same_delivery s' s" for s'
  proof -
    have inv': "mac_inv s' q cur" using same_delivery_inv [OF that] inv by simp
    then have "ms_incoming_data s' = 0 \<longleftrightarrow> cur = None" and "cur \<noteq> None \<longrightarrow> ms_incoming_tcount s' \<noteq> 0"
      using frame_addr [of "ms_mii s'" q "set_option cur"] by (fastforce simp: mac_inv_def current_ok_def split: option.splits)+
    then show ?thesis using inv' by (cases cur) (simp_all add: release_if_read_def)
  qed
  have fin: "settled (bind (release_if_read s') (\<lambda>s. Inr (desc, d, s))) (\<lambda>(desc, d, s'). ?Q s')"
    if "settled (release_if_read s') ?Q" for s' and desc :: ethernet_packet_info_t and d :: "u8 list"
    by (rule settled_bind [OF that]) simp
  consider (status) "cs_status_update_state ?c = STATUS_UPDATE_PENDING"
    | (packet) "cs_status_update_state ?c \<noteq> STATUS_UPDATE_PENDING" "cs_incoming_packet ?c"
    | (none) "cs_status_update_state ?c \<noteq> STATUS_UPDATE_PENDING" "\<not> cs_incoming_packet ?c" by blast
  then show ?thesis
  proof cases
    case status
    show ?thesis
      unfolding get_packet_mac_def Let_def if_P [OF status] bind_bind
      by (rule settled_bind [OF settled_put_bytes], simp only: bind_simps prod.case) (intro fin stay same_on_client, simp)
  next
    case none
    show ?thesis
      unfolding get_packet_mac_def Let_def if_not_P [OF none(1)] if_not_P [OF none(2)] bind_simps prod.case
      by (intro fin stay) (simp add: same_delivery_def)
  next
    case packet
    let ?s = "(on_client_mac i (\<lambda>c. c\<lparr>cs_incoming_packet := False\<rparr>) s)\<lparr>ms_incoming_tcount := ms_incoming_tcount s - 1\<rparr>"
    have flag: "flags s ! i" "i < length (flags s)" using packet i by (simp_all add: flags_def)
    have fl: "flags ?s = (flags s)[i := False]" by (simp add: flags_def on_client_mac_def map_update)
    have "cur \<noteq> None"
    proof
      assume "cur = None"
      then show False using C flag nth_mem [OF flag(2)] by (simp add: current_ok_def)
    qed
    then obtain a n ws where cur: "cur = Some (a, n, ws)" by (cases cur) auto
    note K = C [unfolded current_ok_def cur, simplified]
    have mii: "ms_mii ?s = ms_mii s" "ms_incoming_data ?s = a + 4" using K by (simp_all add: on_client_mac_def)
    note A = frame_addr [OF L, of a n ws]
    have cnt: "ms_incoming_tcount ?s = int (count_list (flags ?s) True)"
      using K count_list_update_False [OF flag(2,1)] unfolding fl by simp
    have tail: "settled (release_if_read ?s) ?Q"
    proof (cases "ms_incoming_tcount ?s = 0")
      case True
      obtain t where t: "release_packet (a + 4) ?s = Inr (?s\<lparr>ms_mii := t\<rparr>)" "lite_inv t q {}"
        using release_settled [of ?s q "set_option cur" a n ws] L live [OF cur] mii cur by auto
      have "True \<notin> set (flags ?s)" using True cnt count_list_True_0 by simp
      then show ?thesis using t True mii A cur by (simp add: release_if_read_def mac_inv_def current_ok_def flags_def)
    next
      case False
      have "current_ok ?s cur" using K cnt False cur by (simp add: current_ok_def on_client_mac_def)
      then show ?thesis using False mii A cur L by (simp add: release_if_read_def mac_inv_def)
    qed
    show ?thesis
      unfolding get_packet_mac_def Let_def if_not_P [OF packet(1)] if_P [OF packet(2)] bind_bind
      by (rule settled_bind [OF settled_put_bytes], simp only: bind_simps prod.case) (rule fin [OF tail])
  qed
qed

text \<open>Which clients a frame is offered to: those whose filters let it pass, when its length field is right.\<close>

definition offered :: "mac_server \<Rightarrow> frame \<Rightarrow> nat \<Rightarrow> bool" where
  "offered s f i = (case f of (a, n, ws) \<Rightarrow>
     len_type_ok (ml_mem (ms_mii s)) (a + 4) (n - 4) \<and>
     client_wants_packet
       (fst (ethernet_do_filtering (ms_filter s) (ldbs (ml_mem (ms_mii s)) (a + 4) 6) (ms_incoming_appdata s)))
       (fst (len_type_of (ml_mem (ms_mii s)) (a + 4))) i (ms_client_state s ! i))"

text \<open>The state in which the frame has been offered.\<close>

definition offer :: "frame \<Rightarrow> u32 \<Rightarrow> mac_server \<Rightarrow> mac_server" where
  "offer f ts s = (case f of (a, n, ws) \<Rightarrow>
     (let m = ml_mem (ms_mii s);
          s = s\<lparr>ms_incoming_timestamp := ts, ms_incoming_nbytes := n - 4, ms_incoming_data := a + 4, ms_incoming_tcount := 0\<rparr>
      in if \<not> len_type_ok m (a + 4) (n - 4) then s
         else (let (filter_result, appdata) = ethernet_do_filtering (ms_filter s) (ldbs m (a + 4) 6) (ms_incoming_appdata s);
                   s = s\<lparr>ms_incoming_appdata := appdata\<rparr>
               in if filter_result \<noteq> 0 then send_to_clients filter_result (fst (len_type_of m (a + 4))) s else s)))"

lemma count_list_map_True: "count_list (map P xs) True = length (filter P xs)"
  by (induction xs) auto

lemma offer_spec:
  assumes none: "True \<notin> set (flags s)"
  shows "flags (offer f ts s) = map (offered s f) [0..<length (ms_client_state s)]"
    and "ms_incoming_tcount (offer f ts s) = int (count_list (flags (offer f ts s)) True)"
    and "ms_incoming_data (offer f ts s) = fst f + 4" "ms_incoming_nbytes (offer f ts s) = fst (snd f) - 4"
      "ms_incoming_timestamp (offer f ts s) = ts" "ms_mii (offer f ts s) = ms_mii s"
proof -
  obtain a n ws where f: "f = (a, n, ws)" by (cases f)
  let ?N = "[0..<length (ms_client_state s)]"
  have fs: "flags s = map (\<lambda>_. False) ?N"
  proof (rule nth_equalityI)
    fix i assume "i < length (flags s)"
    then show "flags s ! i = map (\<lambda>_. False) ?N ! i"
      using none nth_mem [of i "flags s"] by (auto simp: flags_def)
  qed (simp add: flags_def)
  have F: "\<not> cs_incoming_packet (ms_client_state s ! i)" if "i < length (ms_client_state s)" for i
    using arg_cong [OF fs, of "\<lambda>xs. xs ! i"] that by (simp add: flags_def)
  have no: "flags (offer f ts s) = map (offered s f) ?N \<and>
      ms_incoming_tcount (offer f ts s) = int (length (filter (offered s f) ?N))"
  proof (cases "len_type_ok (ml_mem (ms_mii s)) (a + 4) (n - 4)")
    case False
    have "\<not> offered s f i" for i using False by (simp add: offered_def f)
    then show ?thesis using False fs by (simp add: offer_def f flags_def)
  next
    case True
    obtain r ap where r: "ethernet_do_filtering (ms_filter s) (ldbs (ml_mem (ms_mii s)) (a + 4) 6) (ms_incoming_appdata s) = (r, ap)"
      by fastforce
    let ?lt = "fst (len_type_of (ml_mem (ms_mii s)) (a + 4))"
    have off: "offered s f = (\<lambda>i. client_wants_packet r ?lt i (ms_client_state s ! i))"
      using True r by (simp add: offered_def f fun_eq_iff)
    show ?thesis
    proof (cases "r = 0")
      case True
      then have "\<not> offered s f i" for i unfolding off by (simp add: client_wants_packet_def)
      then show ?thesis using \<open>len_type_ok _ _ _\<close> True r fs by (simp add: offer_def f flags_def)
    next
      case False
      then show ?thesis
        using \<open>len_type_ok _ _ _\<close> r F by (simp add: offer_def f flags_def send_to_clients_def Let_def off [unfolded f])
    qed
  qed
  then show "flags (offer f ts s) = map (offered s f) ?N"
    "ms_incoming_tcount (offer f ts s) = int (count_list (flags (offer f ts s)) True)"
    by (simp_all add: count_list_map_True)
  show "ms_incoming_data (offer f ts s) = fst f + 4" "ms_incoming_nbytes (offer f ts s) = fst (snd f) - 4"
      "ms_incoming_timestamp (offer f ts s) = ts" "ms_mii (offer f ts s) = ms_mii s"
    by (simp_all add: offer_def f send_to_clients_def Let_def split: prod.split)
qed

lemma incoming_offer:
  assumes get: "mii_lite_get_in_buffer (ms_mii s) = ((a + 4, n - 4, ts), t)" and idle: "ms_incoming_data s = 0"
    and a: "a + 4 \<noteq> 0"
  shows "incoming_packet s =
    (let s = offer (a, n, ws) ts (s\<lparr>ms_mii := t\<rparr>)
     in if ms_incoming_tcount s = 0
        then bind (release_packet (ms_incoming_data s) s) (\<lambda>s. Inr (s\<lparr>ms_incoming_data := 0\<rparr>)) else Inr s)"
  using idle a unfolding incoming_packet_def offer_def get by (simp add: Let_def)

text \<open>
  Reading the next frame: an idle server offers it, and keeps it when some client takes it; a busy one gives it
  back at once.
\<close>

lemma incoming_settled:
  assumes inv: "mac_inv s q cur"
    and live: "\<And>f q'. q = f # q' \<Longrightarrow> may_release (snd (mii_lite_get_in_buffer (ms_mii s))) q' (fst f)"
  shows "\<exists>s'. incoming_packet s = Inr s' \<and>
    mac_inv s' (tl q) (if ms_incoming_data s' = 0 then None else if ms_incoming_data s = 0 then Some (hd q) else cur)"
proof (cases q)
  case Nil
  have L: "lite_inv (ms_mii s) [] (set_option cur)" and C: "current_ok s cur" using inv Nil by (simp_all add: mac_inv_def)
  then have get: "mii_lite_get_in_buffer (ms_mii s) = ((0, 0, 0), ms_mii s)" by (simp add: get_none lite_inv_def)
  obtain t where t: "release_packet 0 (s\<lparr>ms_mii := ms_mii s\<rparr>) = Inr (s\<lparr>ms_mii := t\<rparr>)" "lite_inv t [] (set_option cur)"
    using release_null_settled [of "s\<lparr>ms_mii := ms_mii s\<rparr>" "[]" "set_option cur"] L by auto
  have C': "current_ok (s\<lparr>ms_mii := t\<rparr>) cur" using C by (subst current_ok_cong [of _ s]) (simp_all add: flags_def)
  show ?thesis
  proof (cases cur)
    case None
    then show ?thesis using inv C Nil by (simp add: incoming_packet_def get current_ok_def)
  next
    case (Some f)
    obtain a n ws where f: "f = (a, n, ws)" by (cases f)
    have "ms_incoming_data s = a + 4" "a + 4 \<noteq> 0"
      using C frame_addr [OF L, of a n ws] by (simp_all add: current_ok_def Some f)
    then show ?thesis using t C' by (simp add: incoming_packet_def get mac_inv_def Nil)
  qed
next
  case (Cons f q')
  obtain a n ws where f: "f = (a, n, ws)" by (cases f)
  have L: "lite_inv (ms_mii s) ((a, n, ws) # q') (set_option cur)" and C: "current_ok s cur"
    using inv Cons f by (simp_all add: mac_inv_def)
  define t where "t = snd (mii_lite_get_in_buffer (ms_mii s))"
  have get: "mii_lite_get_in_buffer (ms_mii s) = ((a + 4, n - 4, ml_mem (ms_mii s) a), t)"
    using get_first [OF L] by (simp add: t_def)
  have Lt: "lite_inv t q' (insert (a, n, ws) (set_option cur))" unfolding t_def by (rule get_keeps_inv [OF L])
  have a: "a + 4 \<noteq> 0" "4 \<le> n" using frame_addr [OF L, of a n ws] by auto
  have ts: "ml_mem (ms_mii s) a = ws ! 0"
  proof -
    have "ws = buf_words (ml_mem (ms_mii s)) a n"
      by (rule words_okD [of _ "set ((a, n, ws) # q') \<union> set_option cur"]) (use L in \<open>simp_all add: lite_inv_def\<close>)
    moreover have "0 < nat ((n + 3) div 4)" using a by simp
    ultimately show ?thesis by (simp add: buf_words_def)
  qed
  have lv: "may_release t q' a" using live [OF Cons] f t_def by simp
  have fresh: "(a, n, ws) \<notin> set_option cur"
  proof -
    have "lite_bank (ms_mii s) (bank_of (ms_mii s) a) ((a - 4, n) # unread_in (ms_mii s) (bank_of (ms_mii s) a) q')
        (held_in (ms_mii s) (bank_of (ms_mii s) a) (set_option cur))"
      using lite_inv_bank(1) [OF L bank_of_cases [of "ms_mii s" a]] by (simp add: unread_in_def)
    from bank_fresh [OF this [unfolded lite_bank_def], of n] show ?thesis by (force simp: held_in_def)
  qed
  show ?thesis
  proof (cases cur)
    case None
    let ?s = "s\<lparr>ms_mii := t\<rparr>"
    let ?o = "offer (a, n, ws) (ws ! 0) ?s"
    have idle: "ms_incoming_data s = 0" and fl: "True \<notin> set (flags ?s)" using C None by (simp_all add: current_ok_def flags_def)
    note O = offer_spec [OF fl, of "(a, n, ws)" "ws ! 0", simplified]
    note run = incoming_offer [OF get [unfolded ts] idle a(1), of ws, unfolded Let_def]
    show ?thesis
    proof (cases "ms_incoming_tcount ?o = 0")
      case True
      have "lite_inv (ms_mii ?o) q' {(a, n, ws)}" "may_release (ms_mii ?o) q' a"
        unfolding O(6) using Lt None lv by simp_all
      from release_settled [OF this(1) _ this(2)] obtain u where
          u: "release_packet (a + 4) ?o = Inr (?o\<lparr>ms_mii := u\<rparr>)" "lite_inv u q' {}" by auto
      have "True \<notin> set (flags ?o)" using True O(2) count_list_True_0 by simp
      then show ?thesis using run True u O(3) Cons by (simp add: mac_inv_def current_ok_def flags_def)
    next
      case False
      then have "mac_inv ?o q' (Some (a, n, ws))"
        using O Lt None by (simp add: mac_inv_def current_ok_def)
      then show ?thesis using run False O(3) a idle Cons f by simp
    qed
  next
    case (Some g)
    obtain c k vs where g: "g = (c, k, vs)" by (cases g)
    have busy: "ms_incoming_data s \<noteq> 0"
      using C frame_addr [OF L, of c k vs] by (simp add: current_ok_def Some g)
    have "lite_inv (ms_mii (s\<lparr>ms_mii := t\<rparr>)) q' (insert (a, n, ws) (set_option cur))" using Lt by simp
    from release_settled [OF this, of a n ws] lv obtain u where
        u: "release_packet (a + 4) (s\<lparr>ms_mii := t\<rparr>) = Inr (s\<lparr>ms_mii := u\<rparr>)" "lite_inv u q' (set_option cur)"
      using fresh by auto
    have "current_ok (s\<lparr>ms_mii := u\<rparr>) cur" using C by (subst current_ok_cong [of _ s]) (simp_all add: flags_def)
    then show ?thesis using u busy Cons by (simp add: incoming_packet_def get mac_inv_def)
  qed
qed

end
