(* ===== verification/Mii_Lite_Props.thy ===== *)
theory Mii_Lite_Props
  imports Mii_Lite_Run
begin

text \<open>
  What the MII driver promises to its client: frames stay intact while the client may read them, come in
  order, can be released, and are announced; and a run in which it breaks the promise, outside the condition
  \<open>may_release\<close>.
\<close>

section \<open>Promises\<close>

definition lite_start :: "addr \<Rightarrow> int \<Rightarrow> bool" where
  "lite_start address w \<longleftrightarrow> 0 < address \<and> address mod 4 = 0 \<and> 768 \<le> w \<and> address + 4 * w \<le> 2 ^ 32"

lemma start_run:
  assumes "lite_start address w" and "lite_run (mii_lite_buffer_init address w m) t q h due"
  shows "lite_inv t q h"
  using run_inv [OF assms(2) init_inv] assms(1) by (simp add: lite_start_def)







text \<open>
  Releasing a held frame returns: the loop over the freed buffers ends.
\<close>

theorem mii_lite_free_returns:
  assumes "lite_start address w" and "lite_run (mii_lite_buffer_init address w m) t q h due"
    and "(a, n, ws) \<in> h" and "may_release t q a"
  shows "\<exists>t'. mii_lite_free_in_buffer (a + 4) t = Some t'"
proof -
  have "wr_ptr t (bank_of t a) \<le> last_safe_ptr t (bank_of t a) \<or> unread_in t (bank_of t a) q \<noteq> []"
    using assms(4) by (force simp: may_release_def unread_in_def filter_empty_conv)
  then show ?thesis using free_keeps_inv [OF start_run [OF assms(1,2)] assms(3)] by blast
qed

text \<open>
  No frame waits unannounced: while there are frames to read, a notification is in the channel
  or the client has taken one and not yet read after it.
\<close>

theorem mii_lite_frames_announced:
  assumes "lite_start address w" and "lite_run (mii_lite_buffer_init address w m) t q h due" and "q \<noteq> []"
  shows "ml_notified t \<noteq> [] \<or> due"
proof -
  have "told_ok (mii_lite_buffer_init address w m)"
    by (simp add: told_ok_def mii_lite_buffer_init_def Let_def set_word_def)
  then show ?thesis using run_told [OF assms(2) init_inv] assms by (auto simp: lite_start_def)
qed

section \<open>Witnesses\<close>

text \<open>The end of a frame of \<open>n\<close> bytes with a good checksum: the tail the receiver leaves behind it.\<close>

definition writes :: "(addr \<times> u32) list \<Rightarrow> mii_lite_data_t \<Rightarrow> mii_lite_data_t" where
  "writes ws t = t\<lparr>ml_mem := foldl (\<lambda>m (a, v). m(a := v)) (ml_mem t) ws\<rparr>"

definition tail_of :: "int \<Rightarrow> mii_lite_data_t \<Rightarrow> (addr \<times> u32) list" where
  "tail_of n t = [(packet_in_lld t + n + 8, 0), (packet_in_lld t + n + 12, 0xFFFFFFFF)]"

definition receive :: "int \<Rightarrow> mii_lite_data_t \<Rightarrow> mii_lite_data_t" where
  "receive n t = mii_interrupt_handler (packet_in_lld t + n) (writes (tail_of n t) t)"

definition lite_ex :: mii_lite_data_t where
  "lite_ex = mii_lite_buffer_init 0x1000 1536 (\<lambda>_. 7)"

lemma receive_writes:
  assumes n: "64 \<le> n" "n \<le> 1516"
  defines "m \<equiv> \<lambda>t. ml_mem (writes (tail_of n t) t)"
  shows "lld_writes (packet_in_lld t) (ml_mem t) (m t)" "CRCBad (m t) (packet_in_lld t) (packet_in_lld t + n) = n"
    "receive n t = mii_interrupt_handler (packet_in_lld t + n) (t\<lparr>ml_mem := m t\<rparr>)"
proof -
  have m: "m t = (ml_mem t)(packet_in_lld t + n + 8 := 0, packet_in_lld t + n + 12 := 0xFFFFFFFF)"
    by (simp add: m_def writes_def tail_of_def)
  show "lld_writes (packet_in_lld t) (ml_mem t) (m t)" using n by (simp add: m lld_writes_def)
  show "CRCBad (m t) (packet_in_lld t) (packet_in_lld t + n) = n" by (simp add: CRCBad_def m)
  show "receive n t = mii_interrupt_handler (packet_in_lld t + n) (t\<lparr>ml_mem := m t\<rparr>)"
    by (simp add: receive_def m_def writes_def)
qed

lemma receive_arrives:
  assumes n: "64 \<le> n" "n \<le> 1516" and ok: "next_buffer t \<noteq> -1" "length q < 31"
  shows "arrive t (ml_mem (writes (tail_of n t) t)) (packet_in_lld t + n) q =
    q @ [(packet_in_lld t, n, buf_words (ml_mem (writes (tail_of n t) t)) (packet_in_lld t) n)]"
  using receive_writes(2) [OF n, of t] n ok by (simp add: arrive_def Let_def)

lemma receive_run:
  assumes r: "lite_run t0 t q h due" and n: "64 \<le> n" "n \<le> 1516" and ok: "next_buffer t \<noteq> -1" "length q < 31"
  shows "lite_run t0 (receive n t)
    (q @ [(packet_in_lld t, n, buf_words (ml_mem (writes (tail_of n t) t)) (packet_in_lld t) n)]) h due"
  using lite_run.frame [OF r receive_writes(1) [OF n, of t], of "packet_in_lld t + n"] receive_writes(2,3) [OF n, of t] n
    receive_arrives [OF n ok] by simp

lemma lite_start_ex: "lite_start 0x1000 1536"
  by (simp add: lite_start_def)

lemma lite_ex_run:
  obtains ws where "lite_run lite_ex (receive 64 lite_ex) [(0x1004, 64, ws)] {} False" "ws ! 0 = 7"
proof -
  have p: "packet_in_lld lite_ex = 0x1004" "next_buffer lite_ex \<noteq> -1" by code_simp+
  have w: "buf_words (ml_mem (writes (tail_of 64 lite_ex) lite_ex)) 0x1004 64 ! 0 = 7" by code_simp
  from receive_run [OF lite_run.start, of 64 lite_ex] p w that show ?thesis by simp
qed

lemma lite_ex_run_held:
  obtains ws where "lite_run lite_ex (snd (mii_lite_get_in_buffer (receive 64 lite_ex))) [] {(0x1004, 64, ws)} False"
proof -
  obtain ws where r: "lite_run lite_ex (receive 64 lite_ex) [(0x1004, 64, ws)] {} False" using lite_ex_run .
  from lite_run.get [OF r surjective_pairing] that show ?thesis by simp
qed



lemma mii_lite_free_returns_witness:
  "\<exists>t'. mii_lite_free_in_buffer 0x1008 (snd (mii_lite_get_in_buffer (receive 64 lite_ex))) = Some t'"
proof -
  obtain ws where r: "lite_run lite_ex (snd (mii_lite_get_in_buffer (receive 64 lite_ex))) [] {(0x1004, 64, ws)} False"
    using lite_ex_run_held .
  have "may_release (snd (mii_lite_get_in_buffer (receive 64 lite_ex))) [] 0x1004" by code_simp
  from mii_lite_free_returns [OF lite_start_ex r [unfolded lite_ex_def], of "0x1004" 64 ws] this
  show ?thesis unfolding lite_ex_def by simp
qed

lemma mii_lite_frames_announced_witness: "ml_notified (receive 64 lite_ex) \<noteq> []"
proof -
  obtain ws where r: "lite_run lite_ex (receive 64 lite_ex) [(0x1004, 64, ws)] {} False" using lite_ex_run .
  show ?thesis using mii_lite_frames_announced [OF lite_start_ex r [unfolded lite_ex_def]] unfolding lite_ex_def by simp
qed

section \<open>A read pointer left behind\<close>

text \<open>
  The first bank of 3072 bytes fills while the client holds its oldest frame; the client reads every frame, then
  releases them in order. The release of the first makes the bank wrap although nothing is left to read, so
  the read pointer stays at the unused tail; the free pointer goes to the head, and the receiver may
  fill the tail.
\<close>

definition read_frame :: "mii_lite_data_t \<Rightarrow> mii_lite_data_t" where
  "read_frame t = snd (mii_lite_get_in_buffer t)"

definition release_frame :: "addr \<Rightarrow> mii_lite_data_t \<Rightarrow> mii_lite_data_t" where
  "release_frame a t = the (mii_lite_free_in_buffer a t)"

definition lite_read3 :: mii_lite_data_t where
  "lite_read3 = read_frame (read_frame (read_frame (receive 1500 (receive 64 (receive 1500 lite_ex)))))"

definition lite_freed :: mii_lite_data_t where
  "lite_freed = release_frame (0x1008 + 1504) (release_frame 0x1c08 (release_frame 0x1008 lite_read3))"

definition lite_refilled :: mii_lite_data_t where
  "lite_refilled = receive 64 (receive 1500 (receive 64 lite_freed))"

text \<open>
  A frame can be delivered at a wrong address with a length taken from another frame: with two banks of 3072 bytes,
  frames of 1500, 64 and 1500 bytes, read and released in order, then of 64, 1500 and 64 bytes, while
  the receiver puts the word 100 into the frame it is filling, inside the buffer it was given. The second
  frame read is then not the one at \<open>0x1004\<close>, but 96 bytes of the frame still coming in.
\<close>

theorem mii_lite_stale_read_pointer:
  "packet_in_lld lite_refilled \<le> 0x1bc0 \<and> 0x1bc0 < packet_in_lld lite_refilled + 1532 \<and>
   fst (mii_lite_get_in_buffer (read_frame lite_refilled)) = (0x1008, 1496, 7) \<and>
   fst (mii_lite_get_in_buffer (read_frame (writes [(0x1bc0, 100)] lite_refilled))) = (0x1bc8, 96, 7)"
  by code_simp

end
