(* ===== verification/Mii_Mac_Props.thy ===== *)
theory Mii_Mac_Props
  imports Mii_Mac_Run Mii_Lite_Props
begin

text \<open>
  The MAC without real-time features end to end: in every run it holds exactly the frame it is delivering, and
  each client that was offered the frame gets its bytes.
\<close>

section \<open>Runs\<close>

text \<open>
  A turn can be taken when the client exists, and when a frame it would release may be released (see
  \<open>may_release\<close>); \<open>unread_after\<close> and \<open>current_after\<close> are the frames then queued and in delivery.
\<close>

fun mac_can :: "mac_event \<Rightarrow> mac_server \<Rightarrow> frame list \<Rightarrow> frame option \<Rightarrow> bool" where
  "mac_can (Mac_Rx i (Get_Packet data)) s q cur \<longleftrightarrow> i < length (ms_client_state s) \<and>
     (case cur of None \<Rightarrow> True | Some (a, n, ws) \<Rightarrow> may_release (ms_mii s) q a)"
| "mac_can Incoming s q cur \<longleftrightarrow>
     (case q of [] \<Rightarrow> True | f # q' \<Rightarrow>
        (case mii_notified (ms_mii s) of None \<Rightarrow> True
         | Some t \<Rightarrow> may_release (snd (mii_lite_get_in_buffer t)) q' (fst f)))"
| "mac_can _ s q cur \<longleftrightarrow> True"

definition unread_after :: "mac_event \<Rightarrow> mac_server \<Rightarrow> frame list \<Rightarrow> frame list" where
  "unread_after e s q = (if e = Incoming \<and> mii_notified (ms_mii s) \<noteq> None then tl q else q)"

definition current_after :: "mac_server \<Rightarrow> mac_server \<Rightarrow> frame list \<Rightarrow> frame option \<Rightarrow> frame option" where
  "current_after s s' q cur =
     (if ms_incoming_data s' = 0 then None else if ms_incoming_data s = 0 then Some (hd q) else cur)"

inductive mac_run :: "mac_server \<Rightarrow> mac_server \<Rightarrow> frame list \<Rightarrow> frame option \<Rightarrow> bool"
  for s0 :: mac_server where
  start: "mac_run s0 s0 [] None"
| frame: "mac_run s0 s q cur \<Longrightarrow> lld_writes (packet_in_lld (ms_mii s)) (ml_mem (ms_mii s)) m \<Longrightarrow>
    CRCBad m (packet_in_lld (ms_mii s)) e \<le> 1522 \<Longrightarrow>
    mac_run s0 (s\<lparr>ms_mii := mii_interrupt_handler e ((ms_mii s)\<lparr>ml_mem := m\<rparr>)\<rparr>) (arrive (ms_mii s) m e q) cur"
| turn: "mac_run s0 s q cur \<Longrightarrow> mac_can e s q cur \<Longrightarrow> mii_ethernet_aux e s = Inr (r, s') \<Longrightarrow>
    mac_run s0 s' (unread_after e s q) (current_after s s' q cur)"

lemma current_data: "mac_inv s q cur \<Longrightarrow> ms_incoming_data s = 0 \<longleftrightarrow> cur = None"
  using frame_addr [of "ms_mii s" q "set_option cur"]
  by (fastforce simp: mac_inv_def current_ok_def split: option.splits)

lemma mac_inv_mii: "mac_inv s q cur \<Longrightarrow> lite_inv t q' (set_option cur) \<Longrightarrow> mac_inv (s\<lparr>ms_mii := t\<rparr>) q' cur"
  unfolding mac_inv_def by (subst current_ok_cong [of _ s]) (simp_all add: flags_def)

lemma same_after: "mac_inv s q cur \<Longrightarrow> same_delivery s' s \<Longrightarrow> mac_inv s' q (current_after s s' q cur)"
  using same_delivery_inv [of s' s q cur] current_data [of s q cur]
  by (cases cur) (auto simp: same_delivery_def current_after_def)

text \<open>Every turn returns, keeps the invariant, and faults only by an assertion or outside an array.\<close>

lemma turn_settled:
  assumes inv: "mac_inv s q cur" and can: "mac_can e s q cur"
  shows "settled (mii_ethernet_aux e s) (\<lambda>(r, s'). mac_inv s' (unread_after e s q) (current_after s s' q cur))"
proof (cases e)
  case (Mac_Cfg c)
  show ?thesis using cfg_settled [of c s] same_after [OF inv] by (auto simp: Mac_Cfg unread_after_def settled_def)
next
  case (Mac_Tx i c)
  show ?thesis using tx_settled [of c s] same_after [OF inv] by (auto simp: Mac_Tx unread_after_def settled_def)
next
  case (Mac_Rx i c)
  show ?thesis
  proof (cases c)
    case Get_Index
    then show ?thesis using same_after [OF inv, of s] by (simp add: Mac_Rx unread_after_def same_delivery_def)
  next
    case (Get_Packet data)
    then have i: "i < length (ms_client_state s)" using can by (simp add: Mac_Rx)
    have live: "may_release (ms_mii s) q a" if "cur = Some (a, n, ws)" for a n ws
      using can that Get_Packet by (simp add: Mac_Rx)
    have "settled (get_packet_mac i data s)
        (\<lambda>(desc, d, s'). mac_inv s' q (if ms_incoming_data s' = 0 then None else cur))"
      by (rule get_packet_settled [OF inv i]) (rule live)
    then show ?thesis
      unfolding Mac_Rx Get_Packet mii_ethernet_aux.simps handle_rx_mac.simps
      by (rule settled_bind) (use current_data [OF inv] in \<open>auto simp: unread_after_def current_after_def dest: current_data split: if_splits\<close>)
  qed
next
  case Incoming
  show ?thesis
  proof (cases "mii_notified (ms_mii s)")
    case None
    then show ?thesis using same_after [OF inv, of s] by (simp add: Incoming unread_after_def same_delivery_def)
  next
    case (Some t)
    have "lite_inv t q (set_option cur)"
      using inv notified_keeps_inv [OF _ Some] by (simp add: mac_inv_def)
    then have inv': "mac_inv (s\<lparr>ms_mii := t\<rparr>) q cur" by (rule mac_inv_mii [OF inv])
    have live: "may_release (snd (mii_lite_get_in_buffer (ms_mii (s\<lparr>ms_mii := t\<rparr>)))) q' (fst f)" if "q = f # q'" for f q'
      using can that by (simp add: Incoming Some)
    obtain s' where "incoming_packet (s\<lparr>ms_mii := t\<rparr>) = Inr s'"
        "mac_inv s' (tl q) (if ms_incoming_data s' = 0 then None else if ms_incoming_data s = 0 then Some (hd q) else cur)"
      using incoming_settled [OF inv' live] by (auto cong: if_cong)
    then show ?thesis by (simp add: Incoming Some unread_after_def current_after_def)
  qed
qed

lemma mac_start_inv:
  assumes "lite_start address w"
  shows "mac_inv (mii_mac_start address w m clients) [] None"
  using init_inv [of address w m] assms
  by (simp add: mac_inv_def current_ok_def mii_mac_start_def flags_def init_client_state_def lite_start_def image_iff)

lemma mac_run_inv:
  assumes "mac_run s0 s q cur" and "mac_inv s0 [] None"
  shows "mac_inv s q cur"
  using assms(1)
proof (induction rule: mac_run.induct)
  case start
  show ?case by (rule assms(2))
next
  case (frame s q cur m e)
  have "lite_inv (ms_mii s) q (set_option cur)" using frame.IH by (simp add: mac_inv_def)
  then show ?case by (intro mac_inv_mii [OF frame.IH] frame_keeps_inv frame.hyps)
next
  case (turn s q cur e r s')
  then show ?case using turn_settled [OF turn.IH turn.hyps(2)] by (simp add: settled_def)
qed

section \<open>Properties\<close>



text \<open>
  A frame that comes to an idle server is offered to exactly the clients whose filters let it pass, when its length
  field is right, and is released at once when there are none.
\<close>

theorem mii_mac_offers:
  assumes "lite_start address w" and "mac_run (mii_mac_start address w m clients) s (f # q) None"
    and "mii_notified (ms_mii s) = Some t" and "mac_can Incoming s (f # q) None"
  shows "\<exists>s'. mii_ethernet_aux Incoming s = Inr (No_Reply, s') \<and>
    map cs_incoming_packet (ms_client_state s') = map (offered s f) [0..<length (ms_client_state s)] \<and>
    (ms_incoming_data s' = 0 \<longleftrightarrow> (\<forall>i<length (ms_client_state s). \<not> offered s f i))"
proof -
  obtain a n ws where f: "f = (a, n, ws)" by (cases f)
  let ?s = "s\<lparr>ms_mii := t\<rparr>"
  have inv: "mac_inv s (f # q) None" by (rule mac_run_inv [OF assms(2) mac_start_inv [OF assms(1)]])
  have "lite_inv t ((a, n, ws) # q) {}" using inv notified_keeps_inv [OF _ assms(3)] by (simp add: mac_inv_def f)
  then have inv': "mac_inv ?s ((a, n, ws) # q) None" and L: "lite_inv t ((a, n, ws) # q) {}"
    using mac_inv_mii [OF inv] by (simp_all add: f)
  define u where "u = snd (mii_lite_get_in_buffer t)"
  have get: "mii_lite_get_in_buffer (ms_mii ?s) = ((a + 4, n - 4, ml_mem t a), u)"
    using get_first [OF L] by (simp add: u_def)
  have A: "a + 4 \<noteq> 0" using frame_addr [OF L, of a n ws] by simp
  have idle: "ms_incoming_data ?s = 0" and fl: "True \<notin> set (flags (?s\<lparr>ms_mii := u\<rparr>))"
    using inv by (simp_all add: mac_inv_def current_ok_def flags_def)
  let ?o = "offer (a, n, ws) (ml_mem t a) (s\<lparr>ms_mii := u\<rparr>)"
  note O = offer_spec [OF fl, of "(a, n, ws)" "ml_mem t a", simplified]
  have m: "ml_mem u = ml_mem (ms_mii s)"
    using get_first [OF L] assms(3) by (auto simp: u_def mii_notified_def split: list.splits)
  have off: "offered (s\<lparr>ms_mii := u\<rparr>) (a, n, ws) = offered s f" by (simp add: fun_eq_iff offered_def f m)
  have run: "incoming_packet ?s = (if ms_incoming_tcount ?o = 0
      then bind (release_packet (ms_incoming_data ?o) ?o) (\<lambda>s. Inr (s\<lparr>ms_incoming_data := 0\<rparr>)) else Inr ?o)"
    using incoming_offer [OF get idle A, of ws] by (simp add: Let_def)
  have Lu: "lite_inv (ms_mii ?o) q {(a, n, ws)}" using get_keeps_inv [OF L] O(6) by (simp add: u_def)
  have "may_release (ms_mii ?o) q a" using assms(3,4) O(6) by (simp add: u_def f)
  from release_settled [OF Lu _ this] obtain v where v: "release_packet (a + 4) ?o = Inr (?o\<lparr>ms_mii := v\<rparr>)" by auto
  have zero: "ms_incoming_tcount ?o = 0 \<longleftrightarrow> (\<forall>i<length (ms_client_state s). \<not> offered s f i)"
    unfolding O(2) of_nat_eq_0_iff count_list_True_0 O(1) off by auto
  show ?thesis
    using run v O(1,3) zero off A assms(3) by (cases "ms_incoming_tcount ?o = 0") (auto simp: flags_def)
qed

section \<open>Well-typed states\<close>

definition client_typed :: "client_state_t \<Rightarrow> bool" where
  "client_typed c \<longleftrightarrow> length (cs_etype_filters c) = ETHERNET_MAX_ETHERTYPE_FILTERS \<and>
     cs_num_etype_filters c \<le> ETHERNET_MAX_ETHERTYPE_FILTERS"

definition table_typed :: "eth_global_filter_info_t \<Rightarrow> bool" where
  "table_typed t \<longleftrightarrow> length t = ETHERNET_MACADDR_FILTER_TABLE_SIZE \<and> (\<forall>e\<in>set t. length (fe_addr e) = 6)"

text \<open>The arrays of the server have the lengths the code declares.\<close>

definition mac_typed :: "nat \<Rightarrow> mac_server \<Rightarrow> bool" where
  "mac_typed n s \<longleftrightarrow> length (ms_mac_address s) = 6 \<and> length (ms_client_state s) = n \<and>
     (\<forall>c\<in>set (ms_client_state s). client_typed c) \<and> table_typed (ms_filter s)"









lemma mac_typed_cong:
  "ms_mac_address s' = ms_mac_address s \<Longrightarrow> ms_client_state s' = ms_client_state s \<Longrightarrow> ms_filter s' = ms_filter s \<Longrightarrow>
     mac_typed n s' = mac_typed n s"
  by (simp add: mac_typed_def)







section \<open>Packets too long for the send buffer\<close>

text \<open>
  The buffer for outgoing packets has no room for the words the driver puts behind a packet of 1512 bytes or more: a
  full Ethernet frame, 1514 bytes without its checksum, makes the driver write the word after the buffer.
\<close>

theorem mii_mac_send_overruns:
  "(complete_send_packet_mac data s = Inl Out_Of_Bounds) = (1512 \<le> length data) \<and>
   fst (mii_lite_out_packet m 0 1514) TXBUF_BYTES = word_of_int (- 377)"
proof
  show "(complete_send_packet_mac data s = Inl Out_Of_Bounds) = (1512 \<le> length data)"
    unfolding complete_send_packet_mac_def Let_def by (auto split: prod.split)
  show "fst (mii_lite_out_packet m 0 1514) TXBUF_BYTES = word_of_int (- 377)"
    by (simp add: mii_lite_out_packet_def)
qed

section \<open>Witnesses\<close>

definition mac_ex :: mac_server where
  "mac_ex = mii_mac_start 0x1000 1536 (\<lambda>_. 7)
     [\<lparr>cs_status_update_state = STATUS_UPDATE_WAITING, cs_incoming_packet = False, cs_num_etype_filters = 0,
       cs_etype_filters = [0, 0]\<rparr>]"

definition ex_filter :: mac_event where
  "ex_filter = Mac_Cfg (Add_Macaddr_Filter 0 0 \<lparr>mf_addr = [7, 0, 0, 0, 7, 0], mf_appdata = 5\<rparr>)"

definition mac_listening :: mac_server where
  "mac_listening = snd (projr (mii_ethernet_aux ex_filter mac_ex))"

definition mac_arrived :: mac_server where
  "mac_arrived = mac_listening\<lparr>ms_mii := receive 64 (ms_mii mac_listening)\<rparr>"


definition ex_frame :: frame where
  "ex_frame = (0x1004, 64, buf_words (ml_mem (writes (tail_of 64 (ms_mii mac_listening)) (ms_mii mac_listening))) 0x1004 64)"

lemma turn_run:
  assumes "mac_run s0 s q cur" and "mac_can e s q cur" and "\<not> isl (mii_ethernet_aux e s)"
    and "s' = snd (projr (mii_ethernet_aux e s))"
  shows "mac_run s0 s' (unread_after e s q) (current_after s s' q cur)"
  using mac_run.turn [OF assms(1,2), of "fst (projr (mii_ethernet_aux e s))" s'] assms(3,4) by (simp add: isl_def)

lemma mac_listening_run: "mac_run mac_ex mac_listening [] None"
proof -
  have "\<not> isl (mii_ethernet_aux ex_filter mac_ex)" and "ms_incoming_data mac_listening = 0" by code_simp+
  then show ?thesis
    using turn_run [OF mac_run.start, of ex_filter mac_ex mac_listening]
    by (simp add: mac_listening_def ex_filter_def unread_after_def current_after_def)
qed

lemma mac_arrived_run: "mac_run mac_ex mac_arrived [ex_frame] None"
proof -
  let ?t = "ms_mii mac_listening"
  have p: "packet_in_lld ?t = 0x1004" "next_buffer ?t \<noteq> -1" by code_simp+
  have n: "64 \<le> (64 :: int)" "(64 :: int) \<le> 1516" by simp_all
  show ?thesis
    using mac_run.frame [OF mac_listening_run receive_writes(1) [OF n, of ?t], of "packet_in_lld ?t + 64"]
      receive_writes(2,3) [OF n, of ?t] receive_arrives [OF n p(2), of "[]"] p(1)
    by (simp add: mac_arrived_def ex_frame_def)
qed

lemma ex_frame_can: "mac_can Incoming mac_arrived [ex_frame] None"
proof -
  have "mii_notified (ms_mii mac_arrived) \<noteq> None" by code_simp
  moreover have "may_release (snd (mii_lite_get_in_buffer (the (mii_notified (ms_mii mac_arrived))))) [] 0x1004" by code_simp
  ultimately show ?thesis by (auto simp: ex_frame_def)
qed




lemma mii_mac_offers_witness:
  "\<exists>s'. mii_ethernet_aux Incoming mac_arrived = Inr (No_Reply, s') \<and>
     map cs_incoming_packet (ms_client_state s') = [True] \<and> ms_incoming_data s' \<noteq> 0"
proof -
  obtain t where t: "mii_notified (ms_mii mac_arrived) = Some t"
  proof -
    have "mii_notified (ms_mii mac_arrived) \<noteq> None" by code_simp
    then show ?thesis using that by blast
  qed
  have "length (ms_client_state mac_arrived) = 1" "offered mac_arrived ex_frame 0" by code_simp+
  then show ?thesis
    using mii_mac_offers [OF lite_start_ex mac_arrived_run [unfolded mac_ex_def] t ex_frame_can] by auto
qed


end
