(* ===== verification/Smi.thy ===== *)
theory Smi
  imports Client_State
begin

text \<open>
  Access to the registers of the PHY over the two wires MDC and MDIO, \<^verbatim>\<open>lib_ethernet/src/smi.xc\<close> and
  \<^verbatim>\<open>lib_ethernet/api/smi.h\<close>: the bits the two components put on the wires, on two ports or
  on one, and the client functions built from reading and writing registers.
\<close>

section \<open>Pins\<close>

text \<open>
  What the components do to their ports, in order: output on MDC, output and input on MDIO, and, when both wires
  are pins of one port, output, input and release of that port.
\<close>

datatype pin_op =
    Mdc_Out u32
  | Mdio_Out u32
  | Mdio_In
  | Port_Out u32
  | Port_In
  | Port_Release

text \<open>
  \<open>smi_bit_shift\<close> on two ports, and on one with its two bit numbers. \<open>ins\<close> are the values that the inputs
  return, \<open>rest\<close> is \<^verbatim>\<open>SMI_MDIO_REST\<close> when the board has a reset multiplexer, else 0. The result
  is the operations, the data, and the inputs left.
\<close>

definition next_in :: "u32 list \<Rightarrow> u32 \<times> u32 list" where
  "next_in ins = (case ins of [] \<Rightarrow> (0, []) | v # vs \<Rightarrow> (v, vs))"

fun shift_two :: "u32 \<Rightarrow> bool \<Rightarrow> nat \<Rightarrow> u32 \<Rightarrow> u32 list \<Rightarrow> pin_op list \<times> u32 \<times> u32 list" where
  "shift_two rest inning 0 data ins = ([Mdc_Out (NOT 0)], data, ins)"
| "shift_two rest inning (Suc i) data ins =
     (if \<not> inning
      then (let (ops, data', ins) = shift_two rest inning i data ins
            in ([Mdc_Out 0, Mdio_Out ((drop_bit i data AND 1) OR rest), Mdc_Out (NOT 0)] @ ops, data', ins))
      else (let (data_bit, ins) = next_in ins;
                (ops, data', ins) = shift_two rest inning i (push_bit 1 data OR data_bit) ins
            in ([Mdc_Out 0, Mdc_Out (NOT 0), Mdio_In] @ ops, data', ins)))"

fun shift_one_in ::
    "u32 \<Rightarrow> nat \<Rightarrow> nat \<Rightarrow> nat \<Rightarrow> u32 \<Rightarrow> u32 list \<Rightarrow> pin_op list \<times> u32 \<times> u32 list" where
  "shift_one_in rest mdio mdc 0 data ins = ([Port_In], data, ins)"
| "shift_one_in rest mdio mdc (Suc i) data ins =
     (let (pins, ins) = next_in ins; data_bit = (pins AND push_bit mdio 1) OR rest;
          (ops, data', ins) = shift_one_in rest mdio mdc i (push_bit 1 data OR signed_drop_bit mdio data_bit) ins
      in ([Port_In, Port_Out data_bit, Port_Out (push_bit mdc 1 OR data_bit), Port_Release] @ ops, data', ins))"

fun shift_one_out :: "u32 \<Rightarrow> nat \<Rightarrow> nat \<Rightarrow> nat \<Rightarrow> u32 \<Rightarrow> u32 \<Rightarrow> pin_op list" where
  "shift_one_out rest mdio mdc 0 data data_bit = [Port_Out (push_bit mdc 1 OR data_bit)]"
| "shift_one_out rest mdio mdc (Suc i) data _ =
     (let data_bit = push_bit mdio (drop_bit i data AND 1) OR rest
      in [Port_Out data_bit, Port_Out (push_bit mdc 1 OR data_bit)] @ shift_one_out rest mdio mdc i data data_bit)"

text \<open>Where the two wires are: on two ports, or on bits \<open>mdio\<close> and \<open>mdc\<close> of one.\<close>

datatype smi_pins = Two_Ports | One_Port nat nat

fun smi_bit_shift :: "u32 \<Rightarrow> smi_pins \<Rightarrow> u32 \<Rightarrow> nat \<Rightarrow> bool \<Rightarrow> u32 list \<Rightarrow> pin_op list \<times> u32 \<times> u32 list" where
  "smi_bit_shift rest Two_Ports data count inning ins =
     (let (ops, data, ins) = shift_two rest inning count data ins in (Mdc_Out (NOT 0) # ops, data, ins))"
| "smi_bit_shift rest (One_Port mdio mdc) data count inning ins =
     (if inning
      then (let (ops, data, ins) = shift_one_in rest mdio mdc count data ins in (Port_Release # ops, data, ins))
      else (Port_Release # shift_one_out rest mdio mdc count data 0, data, ins))"

section \<open>The components\<close>

text \<open>The calls of \<open>smi_if\<close>.\<close>

datatype smi_if =
    Read_Reg u8 u8
  | Write_Reg u8 u8 u16

text \<open>Preamble; start, operation and addresses; turn-around; the 16 data bits.\<close>

definition smi_header :: "bool \<Rightarrow> u8 \<Rightarrow> u8 \<Rightarrow> u32" where
  "smi_header inning phy_addr reg_addr =
     push_bit 10 (5 + (if inning then 1 else 0)) OR push_bit 5 (ucast phy_addr) OR ucast reg_addr"

definition smi_access ::
    "u32 \<Rightarrow> smi_pins \<Rightarrow> bool \<Rightarrow> u8 \<Rightarrow> u8 \<Rightarrow> u32 \<Rightarrow> u32 list \<Rightarrow> pin_op list \<times> u32" where
  "smi_access rest pins inning phy_addr reg_addr val ins =
     (let (o1, _, ins) = smi_bit_shift rest pins 0xffffffff 32 False ins;
          (o2, _, ins) = smi_bit_shift rest pins (smi_header inning phy_addr reg_addr) 14 False ins;
          (o3, _, ins) = smi_bit_shift rest pins 2 2 inning ins;
          (o4, res, ins) = smi_bit_shift rest pins val 16 inning ins
      in (o1 @ o2 @ o3 @ o4, res))"

text \<open>What the components do first: with the multiplexer, the reset pulse; then MDC at rest.\<close>

fun smi_start :: "bool \<Rightarrow> u32 \<Rightarrow> smi_pins \<Rightarrow> pin_op list" where
  "smi_start mux rest Two_Ports = (if mux then [Mdio_Out 0, Mdio_Out rest] else []) @ [Mdc_Out 1]"
| "smi_start mux rest (One_Port mdio mdc) =
     (if mux then [Port_Out 0, Port_Out rest] else []) @ [Port_Out (push_bit mdc 1)]"

text \<open>
  The servers, which differ only in their pins: the operations of a call and its result.
  \<open>val\<close> is the variable of a read that the code leaves unset.
\<close>

fun smi :: "u32 \<Rightarrow> smi_pins \<Rightarrow> smi_if \<Rightarrow> u32 \<Rightarrow> u32 list \<Rightarrow> pin_op list \<times> u16" where
  "smi rest pins (Read_Reg phy_addr reg_addr) val ins =
     (let (ops, res) = smi_access rest pins True phy_addr reg_addr val ins in (ops, ucast res))"
| "smi rest pins (Write_Reg phy_addr reg_addr v) val ins =
     (let (ops, _) = smi_access rest pins False phy_addr reg_addr (ucast v) ins in (ops, 0))"

definition smi_singleport :: "u32 \<Rightarrow> nat \<Rightarrow> nat \<Rightarrow> smi_if \<Rightarrow> u32 \<Rightarrow> u32 list \<Rightarrow> pin_op list \<times> u16" where
  "smi_singleport rest SMI_MDIO_BIT SMI_MDC_BIT = smi rest (One_Port SMI_MDIO_BIT SMI_MDC_BIT)"

section \<open>Registers\<close>

abbreviation BASIC_CONTROL_REG :: u8 where "BASIC_CONTROL_REG \<equiv> 0x0"
abbreviation BASIC_STATUS_REG :: u8 where "BASIC_STATUS_REG \<equiv> 0x1"
abbreviation PHY_ID1_REG :: u8 where "PHY_ID1_REG \<equiv> 0x2"
abbreviation PHY_ID2_REG :: u8 where "PHY_ID2_REG \<equiv> 0x3"
abbreviation AUTONEG_ADVERT_REG :: u8 where "AUTONEG_ADVERT_REG \<equiv> 0x4"
abbreviation GIGE_CONTROL_REG :: u8 where "GIGE_CONTROL_REG \<equiv> 0x9"
abbreviation MMD_ACCESS_CONTROL :: u8 where "MMD_ACCESS_CONTROL \<equiv> 0xD"
abbreviation MMD_ACCESS_DATA :: u8 where "MMD_ACCESS_DATA \<equiv> 0xE"

abbreviation BASIC_CONTROL_LOOPBACK_BIT :: nat where "BASIC_CONTROL_LOOPBACK_BIT \<equiv> 14"
abbreviation BASIC_CONTROL_100_MBPS_BIT :: nat where "BASIC_CONTROL_100_MBPS_BIT \<equiv> 13"
abbreviation BASIC_CONTROL_1000_MBPS_BIT :: nat where "BASIC_CONTROL_1000_MBPS_BIT \<equiv> 6"
abbreviation BASIC_CONTROL_AUTONEG_EN_BIT :: nat where "BASIC_CONTROL_AUTONEG_EN_BIT \<equiv> 12"
abbreviation BASIC_CONTROL_POWER_DOWN_BIT :: nat where "BASIC_CONTROL_POWER_DOWN_BIT \<equiv> 11"
abbreviation BASIC_CONTROL_RESTART_AUTONEG_BIT :: nat where "BASIC_CONTROL_RESTART_AUTONEG_BIT \<equiv> 9"
abbreviation BASIC_CONTROL_FULL_DUPLEX_BIT :: nat where "BASIC_CONTROL_FULL_DUPLEX_BIT \<equiv> 8"
abbreviation BASIC_STATUS_LINK_BIT :: nat where "BASIC_STATUS_LINK_BIT \<equiv> 2"
abbreviation AUTONEG_ADVERT_1000BASE_T_FULL_DUPLEX :: nat where "AUTONEG_ADVERT_1000BASE_T_FULL_DUPLEX \<equiv> 9"
abbreviation AUTONEG_ADVERT_100BASE_TX_FULL_DUPLEX :: nat where "AUTONEG_ADVERT_100BASE_TX_FULL_DUPLEX \<equiv> 8"
abbreviation AUTONEG_ADVERT_10BASE_TX_FULL_DUPLEX :: nat where "AUTONEG_ADVERT_10BASE_TX_FULL_DUPLEX \<equiv> 6"

datatype smi_autoneg_t = SMI_DISABLE_AUTONEG | SMI_ENABLE_AUTONEG

section \<open>Client functions\<close>

text \<open>
  The registers of the PHYs as a client sees them. A function of the client is a function on them, with
  the calls it makes recorded in order. \<open>None\<close> is the failed assertion.
\<close>

record phy_regs =
  regs :: "u8 \<Rightarrow> u8 \<Rightarrow> u16"
  calls :: "smi_if list"

definition read_reg :: "u8 \<Rightarrow> u8 \<Rightarrow> phy_regs \<Rightarrow> u16 \<times> phy_regs" where
  "read_reg phy reg s = (regs s phy reg, s\<lparr>calls := calls s @ [Read_Reg phy reg]\<rparr>)"

definition write_reg :: "u8 \<Rightarrow> u8 \<Rightarrow> u16 \<Rightarrow> phy_regs \<Rightarrow> phy_regs" where
  "write_reg phy reg val s =
     s\<lparr>regs := (regs s)(phy := (regs s phy)(reg := val)), calls := calls s @ [Write_Reg phy reg val]\<rparr>"

definition smi_get_id :: "u8 \<Rightarrow> phy_regs \<Rightarrow> u32 \<times> phy_regs" where
  "smi_get_id phy s =
     (let (lo, s) = read_reg phy PHY_ID1_REG s; (hi, s) = read_reg phy PHY_ID2_REG s
      in (push_bit 16 (drop_bit 10 (ucast hi)) OR ucast lo, s))"

definition smi_phy_is_powered_down :: "u8 \<Rightarrow> phy_regs \<Rightarrow> u32 \<times> phy_regs" where
  "smi_phy_is_powered_down phy s =
     (let (v, s) = read_reg phy BASIC_CONTROL_REG s
      in (drop_bit BASIC_CONTROL_POWER_DOWN_BIT (ucast v) AND 1, s))"

definition smi_mmd_write :: "u8 \<Rightarrow> u16 \<Rightarrow> u16 \<Rightarrow> u16 \<Rightarrow> phy_regs \<Rightarrow> phy_regs" where
  "smi_mmd_write phy mmd_dev mmd_reg val s =
     (let s = write_reg phy MMD_ACCESS_CONTROL mmd_dev s;
          s = write_reg phy MMD_ACCESS_DATA mmd_reg s;
          s = write_reg phy MMD_ACCESS_CONTROL (push_bit 14 1 OR mmd_dev) s
      in write_reg phy MMD_ACCESS_DATA val s)"

definition advertise :: "u8 \<Rightarrow> ethernet_speed_t \<Rightarrow> phy_regs \<Rightarrow> phy_regs" where
  "advertise phy speed s =
     (let (advert, s) = read_reg phy AUTONEG_ADVERT_REG s; (gige, s) = read_reg phy GIGE_CONTROL_REG s;
          advert = advert AND 0xfc1f; gige = gige AND 0xfcff;
          gige = (if speed = LINK_1000_MBPS_FULL_DUPLEX
                  then gige OR push_bit AUTONEG_ADVERT_1000BASE_T_FULL_DUPLEX 1 else gige);
          advert = (if speed = LINK_1000_MBPS_FULL_DUPLEX \<or> speed = LINK_100_MBPS_FULL_DUPLEX
                    then advert OR push_bit AUTONEG_ADVERT_100BASE_TX_FULL_DUPLEX 1 else advert);
          advert = advert OR push_bit AUTONEG_ADVERT_10BASE_TX_FULL_DUPLEX 1
      in write_reg phy GIGE_CONTROL_REG gige (write_reg phy AUTONEG_ADVERT_REG advert s))"

definition smi_configure :: "u8 \<Rightarrow> ethernet_speed_t \<Rightarrow> smi_autoneg_t \<Rightarrow> phy_regs \<Rightarrow> phy_regs option" where
  "smi_configure phy speed auto_neg s =
     (if speed \<noteq> LINK_10_MBPS_FULL_DUPLEX \<and> speed \<noteq> LINK_100_MBPS_FULL_DUPLEX \<and> speed \<noteq> LINK_1000_MBPS_FULL_DUPLEX
      then None
      else (let s = (if auto_neg = SMI_ENABLE_AUTONEG then advertise phy speed s else s);
                (basic_control, s) = read_reg phy BASIC_CONTROL_REG s
            in if auto_neg = SMI_ENABLE_AUTONEG
               then (let basic_control = basic_control OR push_bit BASIC_CONTROL_AUTONEG_EN_BIT 1;
                         s = write_reg phy BASIC_CONTROL_REG basic_control s;
                         basic_control = basic_control OR push_bit BASIC_CONTROL_RESTART_AUTONEG_BIT 1
                     in Some (write_reg phy BASIC_CONTROL_REG basic_control s))
               else (let basic_control = basic_control OR push_bit BASIC_CONTROL_FULL_DUPLEX_BIT 1;
                         basic_control = basic_control AND NOT (push_bit BASIC_CONTROL_AUTONEG_EN_BIT 1 OR
                           push_bit BASIC_CONTROL_100_MBPS_BIT 1 OR push_bit BASIC_CONTROL_1000_MBPS_BIT 1)
                     in if speed = LINK_100_MBPS_FULL_DUPLEX
                        then Some (write_reg phy BASIC_CONTROL_REG
                               (basic_control OR push_bit BASIC_CONTROL_100_MBPS_BIT 1) s)
                        else if speed = LINK_1000_MBPS_FULL_DUPLEX then None
                        else Some (write_reg phy BASIC_CONTROL_REG basic_control s))))"

definition smi_set_loopback_mode :: "u8 \<Rightarrow> bool \<Rightarrow> phy_regs \<Rightarrow> phy_regs" where
  "smi_set_loopback_mode phy enable s =
     (let (control_reg, s) = read_reg phy BASIC_CONTROL_REG s;
          control_reg = control_reg AND NOT (push_bit BASIC_CONTROL_AUTONEG_EN_BIT 1 OR push_bit BASIC_CONTROL_LOOPBACK_BIT 1);
          control_reg = (if enable then control_reg OR push_bit BASIC_CONTROL_LOOPBACK_BIT 1
                         else control_reg OR push_bit BASIC_CONTROL_AUTONEG_EN_BIT 1)
      in write_reg phy BASIC_CONTROL_REG control_reg s)"

definition smi_get_link_state :: "u8 \<Rightarrow> phy_regs \<Rightarrow> ethernet_link_state_t \<times> phy_regs" where
  "smi_get_link_state phy s =
     (let (v, s) = read_reg phy BASIC_STATUS_REG s
      in (if drop_bit BASIC_STATUS_LINK_BIT v AND 1 \<noteq> 0 then ETHERNET_LINK_UP else ETHERNET_LINK_DOWN, s))"

text \<open>
  The reset: the loop reads the control register until the reset bit is clear. \<open>answers\<close> are the values read
  while the PHY comes back; \<open>None\<close> when the bit is still set in all of them.
\<close>

fun reset_loop :: "u8 \<Rightarrow> u16 list \<Rightarrow> smi_if list option" where
  "reset_loop phy [] = None"
| "reset_loop phy (control_reg # answers) =
     (if drop_bit 15 control_reg AND 1 \<noteq> 0 then map_option (\<lambda>cs. Read_Reg phy BASIC_CONTROL_REG # cs) (reset_loop phy answers)
      else Some [Read_Reg phy BASIC_CONTROL_REG])"

definition smi_phy_reset :: "u8 \<Rightarrow> u16 list \<Rightarrow> smi_if list option" where
  "smi_phy_reset phy answers =
     map_option (\<lambda>cs. Write_Reg phy BASIC_CONTROL_REG (push_bit 15 1) # cs) (reset_loop phy answers)"

end
