(* ===== verification/Smi_Props.thy ===== *)
theory Smi_Props
  imports Smi
begin

text \<open>
  What the PHY sees: the bits on MDIO at the rising edges of MDC are the management frame of IEEE 802.3,
  clause 22, on two ports as on one; and what the configuration functions leave in the registers.
\<close>

section \<open>What the PHY sees\<close>

text \<open>
  The state of MDIO at each rising edge of MDC: the bit the component drives, or \<open>None\<close> when it does
  not drive the wire.
\<close>

fun edges :: "smi_pins \<Rightarrow> bool \<Rightarrow> bool option \<Rightarrow> pin_op list \<Rightarrow> bool option list" where
  "edges p mdc mdio [] = []"
| "edges p mdc mdio (Mdc_Out v # ops) =
     (if v \<noteq> 0 \<and> \<not> mdc then mdio # edges p True mdio ops else edges p (v \<noteq> 0) mdio ops)"
| "edges p mdc mdio (Mdio_Out v # ops) = edges p mdc (Some (bit v 0)) ops"
| "edges p mdc mdio (Mdio_In # ops) = edges p mdc None ops"
| "edges p mdc mdio (Port_Out v # ops) =
     (case p of Two_Ports \<Rightarrow> edges p mdc mdio ops
      | One_Port i c \<Rightarrow>
          (if bit v c \<and> \<not> mdc then Some (bit v i) # edges p True (Some (bit v i)) ops
           else edges p (bit v c) (Some (bit v i)) ops))"
| "edges p mdc mdio (Port_In # ops) = edges p mdc None ops"
| "edges p mdc mdio (Port_Release # ops) = edges p mdc None ops"

fun msb_bits :: "nat \<Rightarrow> 'a::len word \<Rightarrow> bool list" where
  "msb_bits 0 w = []"
| "msb_bits (Suc i) w = bit w i # msb_bits i w"

text \<open>The frame: preamble, start, operation, addresses, turn-around, data.\<close>

definition frame_head :: "bool \<Rightarrow> u8 \<Rightarrow> u8 \<Rightarrow> bool list" where
  "frame_head reading phy reg = replicate 32 True @ [False, True] @ [reading, \<not> reading] @ msb_bits 5 phy @ msb_bits 5 reg"

definition write_frame :: "u8 \<Rightarrow> u8 \<Rightarrow> u16 \<Rightarrow> bool list" where
  "write_frame phy reg v = frame_head False phy reg @ [True, False] @ msb_bits 16 v"

text \<open>How a PHY reads a frame.\<close>

definition of_msb :: "bool list \<Rightarrow> 'a::len word" where
  "of_msb bs = foldl (\<lambda>w b. push_bit 1 w OR of_bool b) 0 bs"

definition phy_decode :: "bool list \<Rightarrow> smi_if option" where
  "phy_decode bs =
     (if take 34 bs \<noteq> replicate 32 True @ [False, True] \<or> length bs < 46 then None
      else let phy = of_msb (take 5 (drop 36 bs)); reg = of_msb (take 5 (drop 41 bs))
        in if take 2 (drop 34 bs) = [True, False] then Some (Read_Reg phy reg)
           else if take 2 (drop 34 bs) = [False, True] \<and> length bs = 64
           then Some (Write_Reg phy reg (of_msb (drop 48 bs))) else None)"

section \<open>Bits\<close>

lemma length_msb_bits [simp]: "length (msb_bits n w) = n"
  by (induction n) auto

lemma foldl_msb:
  "foldl (\<lambda>w b. push_bit 1 w OR of_bool b) x (msb_bits n w) =
     push_bit n x OR take_bit n (ucast w :: 'a::len word)" if "n \<le> LENGTH('b)" for w :: "'b::len word"
  using that
proof (induction n arbitrary: x)
  case 0
  then show ?case by simp
next
  case (Suc n)
  have "foldl (\<lambda>w b. push_bit 1 w OR of_bool b) x (msb_bits (Suc n) w) =
      push_bit n (push_bit 1 x OR of_bool (bit w n)) OR take_bit n (ucast w :: 'a word)"
    using Suc by simp
  also have "\<dots> = push_bit (Suc n) x OR take_bit (Suc n) (ucast w :: 'a word)"
    using Suc.prems by (intro bit_word_eqI) (auto simp: bit_simps less_Suc_eq of_bool_def)
  finally show ?case .
qed

lemma of_msb_bits: "n \<le> LENGTH('a) \<Longrightarrow> (of_msb (msb_bits n w) :: 'a::len word) = take_bit n w" for w :: "'a::len word"
  using foldl_msb [of n "0 :: 'a word" w] by (simp add: of_msb_def)

lemma take_bit_small: "w < 32 \<Longrightarrow> take_bit 5 w = w" for w :: u8
proof -
  assume "w < 32"
  then have "unat w < 2 ^ 5" by (simp add: word_less_nat_alt)
  then have "take_bit 5 (unat w) = unat w" by (simp add: take_bit_nat_eq_self_iff)
  then show ?thesis by (simp add: word_unat_eq_iff unsigned_take_bit_eq)
qed

lemma take_bit_16 [simp]: "take_bit 16 w = w" for w :: u16
  by (rule bit_word_eqI) (simp add: bit_take_bit_iff)

lemma small_bits: "w < 32 \<Longrightarrow> 5 \<le> k \<Longrightarrow> \<not> bit w k" for w :: u8
proof -
  assume "w < 32" "5 \<le> k"
  then have "bit (take_bit 5 w) k = bit w k" by (simp add: take_bit_small)
  then show ?thesis using \<open>5 \<le> k\<close> by (simp add: bit_take_bit_iff)
qed

lemma msb_ones: "msb_bits 32 (0xffffffff :: u32) = replicate 32 True"
  by (simp add: numeral_eq_Suc)

lemma msb_bits_14:
  "msb_bits 14 w = [bit w 13, bit w 12, bit w 11, bit w 10] @
     [bit w 9, bit w 8, bit w 7, bit w 6, bit w 5] @ [bit w 4, bit w 3, bit w 2, bit w 1, bit w 0]"
  by (simp add: numeral_eq_Suc)

lemma msb_bits_5: "msb_bits 5 w = [bit w 4, bit w 3, bit w 2, bit w 1, bit w 0]"
  by (simp add: numeral_eq_Suc)

lemma msb_header:
  assumes "phy < 32" "reg < 32"
  shows "msb_bits 14 (smi_header reading phy reg) =
    [False, True] @ [reading, \<not> reading] @ msb_bits 5 phy @ msb_bits 5 reg"
  unfolding msb_bits_14 msb_bits_5 smi_header_def
  by (cases reading) (simp_all add: bit_or_iff bit_push_bit_iff bit_unsigned_iff
      small_bits [OF assms(1)] small_bits [OF assms(2)])

section \<open>Writing bits\<close>

text \<open>
  What the board promises: the value of the other pins of a port leaves the wires alone, and, on one port, is
  below the bit of MDIO.
\<close>

fun wires_ok :: "u32 \<Rightarrow> smi_pins \<Rightarrow> bool" where
  "wires_ok rest Two_Ports = (\<not> bit rest 0)"
| "wires_ok rest (One_Port mdio mdc) =
     (mdio \<noteq> mdc \<and> mdio < 31 \<and> mdc < 32 \<and> \<not> bit rest mdc \<and> drop_bit mdio rest = 0)"

lemma rest_above: "drop_bit i rest = 0 \<Longrightarrow> i \<le> k \<Longrightarrow> \<not> bit rest k" for rest :: u32
proof -
  assume "drop_bit i rest = 0" "i \<le> k"
  then have "bit (drop_bit i rest) (k - i) = False" by simp
  then show ?thesis using \<open>i \<le> k\<close> by (simp add: bit_drop_bit_eq)
qed

lemma shift_two_out_data [simp]: "snd (shift_two rest False n data ins) = (data, ins)"
  by (induction n) (auto simp: Let_def split: prod.splits)

lemma edges_shift_two:
  "\<not> bit rest 0 \<Longrightarrow> edges Two_Ports True d (fst (shift_two rest False n data ins) @ ops) =
     map Some (msb_bits n data) @ edges Two_Ports True (if n = 0 then d else Some (bit data 0)) ops"
proof (induction n arbitrary: d)
  case 0
  then show ?case by simp
next
  case (Suc n)
  then show ?case
    by (cases "shift_two rest False n data ins") (auto simp: bit_simps dest: sym)
qed

lemma edges_shift_one:
  assumes "wires_ok rest (One_Port i c)"
  shows "m \<or> 0 < n \<Longrightarrow> bit b c = False \<Longrightarrow> \<exists>d'. \<forall>ops. edges (One_Port i c) m d (shift_one_out rest i c n data b @ ops) =
     map Some (msb_bits n data) @ edges (One_Port i c) True d' ops"
proof (induction n arbitrary: m d b)
  case 0
  then show ?case using assms by (auto simp: bit_simps)
next
  case (Suc n)
  let ?b = "push_bit i (drop_bit n data AND 1) OR rest"
  have b: "\<not> bit ?b c" "bit ?b i = bit data n"
    using assms rest_above [of i rest i] by (auto simp: bit_simps)
  then obtain d' where "\<forall>ops. edges (One_Port i c) True (Some (bit data n)) (shift_one_out rest i c n data ?b @ ops) =
     map Some (msb_bits n data) @ edges (One_Port i c) True d' ops"
    using Suc.IH [of True ?b "Some (bit data n)"] by auto
  then show ?case using assms b by (auto simp: bit_simps Let_def)
qed

lemma bit_shift_out:
  assumes "wires_ok rest p" "0 < n"
  shows "\<exists>d'. \<forall>ops. edges p True d (fst (smi_bit_shift rest p data n False ins) @ ops) =
     map Some (msb_bits n data) @ edges p True d' ops"
proof (cases p)
  case Two_Ports
  then show ?thesis using assms edges_shift_two [of rest d n data ins]
    by (cases "shift_two rest False n data ins") auto
next
  case (One_Port i c)
  then show ?thesis using assms edges_shift_one [of rest i c True n 0 None data] by auto
qed

lemma bit_shift_out_data [simp]: "snd (smi_bit_shift rest p data n False ins) = (data, ins)"
  using shift_two_out_data [of rest n data ins]
  by (cases p) (auto split: prod.splits simp del: shift_two_out_data)

lemma msb_bits_2: "msb_bits 2 (2 :: u32) = [True, False]"
  by (simp add: numeral_eq_Suc)

lemma msb_bits_ucast:
  "n \<le> LENGTH('b) \<Longrightarrow> n \<le> LENGTH('a) \<Longrightarrow> msb_bits n (ucast w :: 'b::len word) = msb_bits n w" for w :: "'a::len word"
  by (induction n) (auto simp: bit_simps)

text \<open>The 46 bits that a read and a write share, and the rest of a write.\<close>

lemma edges_head:
  assumes "wires_ok rest p" "phy < 32" "reg < 32"
  shows "\<exists>d'. \<forall>ops. edges p True d (fst (smi_bit_shift rest p 0xffffffff 32 False ins) @
       fst (smi_bit_shift rest p (smi_header reading phy reg) 14 False ins') @ ops) =
     map Some (frame_head reading phy reg) @ edges p True d' ops"
proof -
  obtain d1 where d1: "\<And>ops. edges p True d (fst (smi_bit_shift rest p 0xffffffff 32 False ins) @ ops) =
      map Some (msb_bits 32 (0xffffffff :: u32)) @ edges p True d1 ops"
    using bit_shift_out [OF assms(1), of 32 d "0xffffffff" ins] by auto
  obtain d2 where d2: "\<And>ops. edges p True d1 (fst (smi_bit_shift rest p (smi_header reading phy reg) 14 False ins') @ ops) =
      map Some (msb_bits 14 (smi_header reading phy reg)) @ edges p True d2 ops"
    using bit_shift_out [OF assms(1), of 14 d1 "smi_header reading phy reg" ins'] by auto
  show ?thesis
    by (intro exI [of _ d2] allI) (simp add: d1 d2 msb_ones msb_header [OF assms(2,3)] frame_head_def)
qed

lemma smi_write_ops:
  "fst (smi rest p (Write_Reg phy reg v) val ins) =
     fst (smi_bit_shift rest p 0xffffffff 32 False ins) @ fst (smi_bit_shift rest p (smi_header False phy reg) 14 False ins) @
     fst (smi_bit_shift rest p 2 2 False ins) @ fst (smi_bit_shift rest p (ucast v) 16 False ins)"
  by (simp add: smi_access_def Let_def case_prod_beta)

lemma edges_write:
  assumes "wires_ok rest p" "phy < 32" "reg < 32"
  shows "edges p True d (fst (smi rest p (Write_Reg phy reg v) val ins)) = map Some (write_frame phy reg v)"
proof -
  obtain d1 where d1: "\<And>ops. edges p True d (fst (smi_bit_shift rest p 0xffffffff 32 False ins) @
       fst (smi_bit_shift rest p (smi_header False phy reg) 14 False ins) @ ops) =
     map Some (frame_head False phy reg) @ edges p True d1 ops"
    using edges_head [OF assms, of d ins False ins] by auto
  obtain d2 where d2: "\<And>ops. edges p True d1 (fst (smi_bit_shift rest p 2 2 False ins) @ ops) =
      map Some [True, False] @ edges p True d2 ops"
    using bit_shift_out [OF assms(1), of 2 d1 2 ins] by (auto simp: msb_bits_2)
  obtain d3 where d3: "\<And>ops. edges p True d2 (fst (smi_bit_shift rest p (ucast v) 16 False ins) @ ops) =
      map Some (msb_bits 16 v) @ edges p True d3 ops"
    using bit_shift_out [OF assms(1), of 16 d2 "ucast v" ins] by (auto simp: msb_bits_ucast)
  show ?thesis
    using d3 [of "[]"] by (simp add: smi_write_ops d1 d2 write_frame_def del: smi.simps)
qed

section \<open>Reading bits\<close>

text \<open>
  The level of MDIO in what an input returns. MDIO on a port of its own returns nothing else.
\<close>

fun level :: "smi_pins \<Rightarrow> u32 \<Rightarrow> bool" where
  "level Two_Ports v = bit v 0"
| "level (One_Port mdio mdc) v = bit v mdio"

fun sampled :: "smi_pins \<Rightarrow> u32 \<Rightarrow> bool" where
  "sampled Two_Ports v = (v = 0 \<or> v = 1)"
| "sampled (One_Port mdio mdc) v = True"

abbreviation shift_bits :: "'a::len word \<Rightarrow> bool list \<Rightarrow> 'a word" where
  "shift_bits \<equiv> foldl (\<lambda>w b. push_bit 1 w OR of_bool b)"

lemma shift_two_in:
  "n \<le> length ins \<Longrightarrow> \<forall>v\<in>set ins. sampled Two_Ports v \<Longrightarrow>
     snd (shift_two rest True n data ins) = (shift_bits data (map (level Two_Ports) (take n ins)), drop n ins)"
proof (induction n arbitrary: data ins)
  case 0
  then show ?case by simp
next
  case (Suc n)
  then obtain v vs where ins: "ins = v # vs" by (cases ins) auto
  then have "v = of_bool (bit v 0)" using Suc.prems(2) by auto
  then show ?case
    using Suc.IH [of vs "push_bit 1 data OR v"] Suc.prems ins
    by (simp add: next_in_def case_prod_beta Let_def)
qed

lemma one_port_sample:
  assumes "wires_ok rest (One_Port i c)"
  shows "signed_drop_bit i (v AND 2 ^ i OR rest) = of_bool (bit v i)"
proof (rule bit_word_eqI)
  fix k
  assume "k < LENGTH(32)"
  moreover have "\<not> bit rest 31" "\<not> bit rest (i + k)"
    using assms rest_above [of i rest 31] rest_above [of i rest "i + k"] by auto
  ultimately show "bit (signed_drop_bit i (v AND 2 ^ i OR rest)) k = bit (of_bool (bit v i) :: u32) k"
    using assms by (auto simp: bit_simps)
qed

lemma shift_one_in_data:
  "n \<le> length ins \<Longrightarrow> wires_ok rest (One_Port i c) \<Longrightarrow>
     snd (shift_one_in rest i c n data ins) = (shift_bits data (map (level (One_Port i c)) (take n ins)), drop n ins)"
proof (induction n arbitrary: data ins)
  case 0
  then show ?case by simp
next
  case (Suc n)
  then obtain v vs where ins: "ins = v # vs" by (cases ins) auto
  then show ?case
    using Suc.IH [of vs "push_bit 1 data OR of_bool (bit v i)"] Suc.prems(1)
    by (simp add: next_in_def case_prod_beta Let_def one_port_sample [OF Suc.prems(2)] Suc.prems(2)
        del: wires_ok.simps)
qed

lemma bit_shift_in:
  assumes "wires_ok rest p" "n \<le> length ins" "\<forall>v\<in>set ins. sampled p v"
  shows "snd (smi_bit_shift rest p data n True ins) = (shift_bits data (map (level p) (take n ins)), drop n ins)"
proof (cases p)
  case Two_Ports
  then show ?thesis using assms shift_two_in by (simp add: case_prod_beta)
next
  case (One_Port i c)
  then show ?thesis using assms shift_one_in_data [of n ins rest i c data] by (simp add: case_prod_beta)
qed

lemma shift_bits_from: "shift_bits x bs = push_bit (length bs) x OR shift_bits 0 bs"
  for x :: "'a::len word"
proof (induction bs arbitrary: x rule: rev_induct)
  case Nil
  then show ?case by simp
next
  case (snoc b bs)
  have "shift_bits x (bs @ [b]) = push_bit 1 (push_bit (length bs) x OR shift_bits 0 bs) OR of_bool b"
    by (simp only: foldl_append foldl.simps snoc [of x])
  also have "\<dots> = push_bit (length (bs @ [b])) x OR shift_bits 0 (bs @ [b])"
    by (simp only: foldl_append foldl.simps push_bit_or push_bit_push_bit or.assoc length_append_singleton plus_1_eq_Suc)
  finally show ?case .
qed

lemma ucast_shift_bits: "ucast (shift_bits x bs :: u32) = shift_bits (ucast x :: u16) bs"
proof (induction bs arbitrary: x)
  case Nil
  then show ?case by simp
next
  case (Cons b bs)
  have "ucast (push_bit 1 x OR of_bool b :: u32) = (push_bit 1 (ucast x) OR of_bool b :: u16)"
    by (intro bit_word_eqI) (auto simp: bit_simps simp del: One_nat_def push_bit_Suc)
  then show ?case using Cons [of "push_bit 1 x OR of_bool b"] by simp
qed

lemma shift_bits_16: "length bs = 16 \<Longrightarrow> shift_bits (x :: u16) bs = of_msb bs"
  by (subst shift_bits_from) (auto simp: of_msb_def intro!: bit_word_eqI simp: bit_simps)

lemma smi_read_ops:
  "\<exists>more. fst (smi rest p (Read_Reg phy reg) val ins) =
     fst (smi_bit_shift rest p 0xffffffff 32 False ins) @ fst (smi_bit_shift rest p (smi_header True phy reg) 14 False ins) @ more"
  by (simp add: smi_access_def Let_def case_prod_beta)

lemma edges_read:
  assumes "wires_ok rest p" "phy < 32" "reg < 32"
  shows "take 46 (edges p True d (fst (smi rest p (Read_Reg phy reg) val ins))) = map Some (frame_head True phy reg)"
proof -
  obtain more where m: "fst (smi rest p (Read_Reg phy reg) val ins) =
     fst (smi_bit_shift rest p 0xffffffff 32 False ins) @ fst (smi_bit_shift rest p (smi_header True phy reg) 14 False ins) @ more"
    using smi_read_ops by blast
  obtain d1 where "edges p True d (fst (smi rest p (Read_Reg phy reg) val ins)) =
     map Some (frame_head True phy reg) @ edges p True d1 more"
    unfolding m using edges_head [OF assms, of d ins True ins] by blast
  moreover have "length (frame_head True phy reg) = 46" by (simp add: frame_head_def)
  ultimately show ?thesis by simp
qed

lemma read_result:
  assumes "wires_ok rest p" "length ins = 18" "\<forall>v\<in>set ins. sampled p v"
  shows "snd (smi rest p (Read_Reg phy reg) val ins) = of_msb (map (level p) (drop 2 ins))"
proof -
  have two: "snd (smi_bit_shift rest p 2 2 True ins) = (shift_bits 2 (map (level p) (take 2 ins)), drop 2 ins)"
    using assms by (intro bit_shift_in) auto
  have "snd (smi_bit_shift rest p val 16 True (drop 2 ins)) =
      (shift_bits val (map (level p) (take 16 (drop 2 ins))), drop 16 (drop 2 ins))"
    using assms by (intro bit_shift_in) (auto dest: in_set_dropD)
  then show ?thesis
    using two assms(2) by (simp add: smi_access_def Let_def case_prod_beta ucast_shift_bits shift_bits_16
        del: One_nat_def)
qed

section \<open>The frames\<close>

lemma decode_write: "phy < 32 \<Longrightarrow> reg < 32 \<Longrightarrow> phy_decode (write_frame phy reg v) = Some (Write_Reg phy reg v)"
  by (simp add: phy_decode_def write_frame_def frame_head_def Let_def of_msb_bits take_bit_small)

lemma decode_read: "phy < 32 \<Longrightarrow> reg < 32 \<Longrightarrow> phy_decode (frame_head True phy reg) = Some (Read_Reg phy reg)"
  by (simp add: phy_decode_def frame_head_def Let_def of_msb_bits take_bit_small)

text \<open>C22. Whatever the pins, a write of register \<open>reg\<close> puts 64 bits on MDIO, each driven when MDC rises,
  and a PHY that reads them according to clause 22 finds the same write: preamble, start, operation, both
  addresses, turn-around and data are in place.\<close>

theorem smi_write_reaches_phy:
  assumes "wires_ok rest p" "phy < 32" "reg < 32"
  shows "\<exists>bs. edges p True d (fst (smi rest p (Write_Reg phy reg v) val ins)) = map Some bs \<and>
    length bs = 64 \<and> phy_decode bs = Some (Write_Reg phy reg v)"
proof (intro exI conjI)
  show "edges p True d (fst (smi rest p (Write_Reg phy reg v) val ins)) = map Some (write_frame phy reg v)"
    using assms by (rule edges_write)
  show "length (write_frame phy reg v) = 64" by (simp add: write_frame_def frame_head_def)
  show "phy_decode (write_frame phy reg v) = Some (Write_Reg phy reg v)"
    using assms(2,3) by (rule decode_write)
qed

theorem smi_write_reaches_phy_witness:
  "\<exists>bs. edges (One_Port 3 1) True None (fst (smi 4 (One_Port 3 1) (Write_Reg 7 4 0x1e1) 0 [])) = map Some bs \<and>
    length bs = 64 \<and> phy_decode bs = Some (Write_Reg 7 4 0x1e1)"
  by (rule smi_write_reaches_phy) (simp_all add: bit_simps)

text \<open>C36. A read drives the 46 bits that tell the PHY which register to send, and returns the 16 bits of MDIO that
  the component samples after the two of the turn-around, first bit highest, whatever the variable of the
  data held before.\<close>

theorem smi_read_returns_phy_bits:
  assumes "wires_ok rest p" "phy < 32" "reg < 32" "length ins = 18" "\<forall>v\<in>set ins. sampled p v"
  shows "(\<exists>bs. take 46 (edges p True d (fst (smi rest p (Read_Reg phy reg) val ins))) = map Some bs \<and>
      phy_decode bs = Some (Read_Reg phy reg)) \<and>
    (\<forall>w. map (level p) (drop 2 ins) = msb_bits 16 w \<longrightarrow> snd (smi rest p (Read_Reg phy reg) val ins) = w)"
  using edges_read [OF assms(1-3), of d val ins] decode_read [OF assms(2,3)] read_result [OF assms(1,4,5), of phy reg val]
  by (auto simp: of_msb_bits simp del: smi.simps)

text \<open>Samples of a word sent by a PHY, after two bits of turn-around.\<close>

abbreviation beef_samples :: "u32 list" where
  "beef_samples \<equiv> 0 # 0 # map of_bool (msb_bits 16 (0xBEEF :: u16))"

theorem smi_read_returns_phy_bits_witness:
  "snd (smi 0 Two_Ports (Read_Reg 7 2) 12345 beef_samples) = 0xBEEF \<and>
   (\<exists>bs. take 46 (edges Two_Ports True None (fst (smi 0 Two_Ports (Read_Reg 7 2) 12345 beef_samples))) = map Some bs \<and>
      phy_decode bs = Some (Read_Reg 7 2))"
proof -
  have "map (level Two_Ports) (drop 2 beef_samples) = msb_bits 16 (0xBEEF :: u16)"
    by (simp add: comp_def del: bit_numeral_word_iff)
  moreover have "\<forall>v\<in>set beef_samples. sampled Two_Ports v" by auto
  ultimately show ?thesis
    using smi_read_returns_phy_bits [of 0 Two_Ports 7 2 beef_samples None 12345] by (simp del: smi.simps)
qed



section \<open>Configuration\<close>

text \<open>The bits of the constants.\<close>

lemma bit_below_16: "bit w k \<Longrightarrow> k < 16" for w :: u16
  using bit_imp_le_length [of w k] by simp

lemma bit_power_2: "n < 16 \<Longrightarrow> bit (2 ^ n :: u16) k \<longleftrightarrow> k = n"
  by (auto simp: bit_exp_iff possible_bit_word)

lemma const_bits:
  "bit (0x40 :: u16) k \<longleftrightarrow> k = 6"
  "bit (0x100 :: u16) k \<longleftrightarrow> k = 8"
  "bit (0x200 :: u16) k \<longleftrightarrow> k = 9"
  "bit (0x1000 :: u16) k \<longleftrightarrow> k = 12"
  "bit (0x2000 :: u16) k \<longleftrightarrow> k = 13"
  "bit (0x4000 :: u16) k \<longleftrightarrow> k = 14"
  using bit_power_2 [of 6 k] bit_power_2 [of 8 k] bit_power_2 [of 9 k] bit_power_2 [of 12 k]
    bit_power_2 [of 13 k] bit_power_2 [of 14 k]
  by simp_all

lemma mask_bits:
  "bit (0xfc1f :: u16) k \<longleftrightarrow> k < 16 \<and> \<not> (5 \<le> k \<and> k \<le> 9)"
  "bit (0xfcff :: u16) k \<longleftrightarrow> k < 16 \<and> k \<noteq> 8 \<and> k \<noteq> 9"
proof -
  have eqs: "(0xfc1f :: u16) = NOT (push_bit 5 (mask 5))" "(0xfcff :: u16) = NOT (push_bit 8 (mask 2))"
    by code_simp+
  show "bit (0xfc1f :: u16) k \<longleftrightarrow> k < 16 \<and> \<not> (5 \<le> k \<and> k \<le> 9)"
    "bit (0xfcff :: u16) k \<longleftrightarrow> k < 16 \<and> k \<noteq> 8 \<and> k \<noteq> 9"
    unfolding eqs by (auto simp: bit_simps)
qed

lemma forced_bits: "bit (- 12353 :: u16) k \<longleftrightarrow> k < 16 \<and> k \<noteq> 6 \<and> k \<noteq> 12 \<and> k \<noteq> 13"
proof -
  have eq: "(- 12353 :: u16) = NOT (2 ^ 6 OR 2 ^ 12 OR 2 ^ 13)" by code_simp
  show ?thesis unfolding eq by (simp only: bit_not_iff bit_or_iff bit_power_2) (auto simp: possible_bit_word)
qed

definition full_duplex :: "ethernet_speed_t \<Rightarrow> bool" where
  "full_duplex s \<longleftrightarrow> s \<in> {LINK_10_MBPS_FULL_DUPLEX, LINK_100_MBPS_FULL_DUPLEX, LINK_1000_MBPS_FULL_DUPLEX}"

text \<open>\<open>smi_configure\<close> with auto-negotiation advertises the full-duplex speeds up to the one asked for and no
  other, keeps the other bits of the advertisement, and restarts the negotiation.\<close>

theorem smi_configure_advertises:
  assumes "full_duplex speed"
  shows "\<exists>s'. smi_configure phy speed SMI_ENABLE_AUTONEG s = Some s' \<and>
    (\<forall>k. bit (regs s' phy AUTONEG_ADVERT_REG) k \<longleftrightarrow>
       k = 6 \<or> (k = 8 \<and> speed \<noteq> LINK_10_MBPS_FULL_DUPLEX) \<or>
       (\<not> (5 \<le> k \<and> k \<le> 9) \<and> bit (regs s phy AUTONEG_ADVERT_REG) k)) \<and>
    (\<forall>k. bit (regs s' phy GIGE_CONTROL_REG) k \<longleftrightarrow>
       (k = 9 \<and> speed = LINK_1000_MBPS_FULL_DUPLEX) \<or> (k \<noteq> 8 \<and> k \<noteq> 9 \<and> bit (regs s phy GIGE_CONTROL_REG) k)) \<and>
    (\<forall>k. bit (regs s' phy BASIC_CONTROL_REG) k \<longleftrightarrow> k = 9 \<or> k = 12 \<or> bit (regs s phy BASIC_CONTROL_REG) k) \<and>
    (\<forall>p r. (p, r) \<notin> {phy} \<times> {AUTONEG_ADVERT_REG, GIGE_CONTROL_REG, BASIC_CONTROL_REG} \<longrightarrow> regs s' p r = regs s p r)"
    using assms
  by (cases speed)
    (auto simp: full_duplex_def smi_configure_def advertise_def read_reg_def write_reg_def Let_def bit_and_iff bit_or_iff
      const_bits mask_bits simp del: bit_numeral_word_iff dest: bit_below_16)

theorem smi_configure_advertises_witness:
  "\<exists>s'. smi_configure 0 LINK_100_MBPS_FULL_DUPLEX SMI_ENABLE_AUTONEG \<lparr>regs = \<lambda>_ _. 0x1e1, calls = []\<rparr> = Some s' \<and>
    bit (regs s' 0 AUTONEG_ADVERT_REG) 8"
  using smi_configure_advertises [of LINK_100_MBPS_FULL_DUPLEX 0 "\<lparr>regs = \<lambda>_ _. 0x1e1, calls = []\<rparr>"]
  by (auto simp: full_duplex_def)

text \<open>Without auto-negotiation the speed is forced, and 1000 Mbps cannot be.\<close>

theorem smi_configure_forces:
  "smi_configure phy LINK_1000_MBPS_FULL_DUPLEX SMI_DISABLE_AUTONEG s = None \<and>
   (\<exists>s10 s100. smi_configure phy LINK_10_MBPS_FULL_DUPLEX SMI_DISABLE_AUTONEG s = Some s10 \<and>
     smi_configure phy LINK_100_MBPS_FULL_DUPLEX SMI_DISABLE_AUTONEG s = Some s100 \<and>
     (\<forall>k. bit (regs s10 phy BASIC_CONTROL_REG) k \<longleftrightarrow> k = 8 \<or> (k \<notin> {6, 12, 13} \<and> bit (regs s phy BASIC_CONTROL_REG) k)) \<and>
     (\<forall>k. bit (regs s100 phy BASIC_CONTROL_REG) k \<longleftrightarrow>
        k = 8 \<or> k = 13 \<or> (k \<notin> {6, 12} \<and> bit (regs s phy BASIC_CONTROL_REG) k)))"
  by (auto simp: smi_configure_def read_reg_def write_reg_def Let_def bit_and_iff bit_or_iff bit_not_iff possible_bit_word
      const_bits forced_bits simp del: bit_numeral_word_iff bit_neg_numeral_word_iff dest: bit_below_16)

text \<open>Leaving loopback turns auto-negotiation on, also where \<open>smi_configure\<close> had turned it off.\<close>

theorem smi_loopback_off_negotiates:
  "bit (regs (smi_set_loopback_mode phy False s) phy BASIC_CONTROL_REG) BASIC_CONTROL_AUTONEG_EN_BIT"
  by (simp add: smi_set_loopback_mode_def read_reg_def write_reg_def Let_def bit_or_iff const_bits
      del: bit_numeral_word_iff)

text \<open>The reset returns when the PHY clears the bit, and not before: never, where every read gives ones.\<close>

theorem smi_phy_reset_returns_iff:
  "smi_phy_reset phy answers \<noteq> None \<longleftrightarrow> (\<exists>v\<in>set answers. \<not> bit v 15)"
proof -
  have "drop_bit 15 v AND 1 \<noteq> 0 \<longleftrightarrow> bit v 15" for v :: u16
    by (simp add: bit_iff_odd_drop_bit and_one_eq odd_iff_mod_2_eq_one)
  then have "reset_loop phy answers \<noteq> None \<longleftrightarrow> (\<exists>v\<in>set answers. \<not> bit v 15)"
    by (induction answers) auto
  then show ?thesis by (simp add: smi_phy_reset_def)
qed

end
