(* ===== verification/Rgmii_Buffers.thy ===== *)
theory Rgmii_Buffers
  imports Fifo Memory "HOL-Library.Multiset"
begin

text \<open>
  The buffers of the RGMII MAC, \<^verbatim>\<open>lib_ethernet/src/rgmii_buffering.xc\<close> and \<^verbatim>\<open>rgmii_buffering.h\<close>: a stack of the buffers that
  are free and rings of the buffers in use. The stack is a pool: what it gives away was put into it once. A ring is a
  FIFO. The lock makes each operation atomic; the memory of both is an array of pointers kept in the record.
\<close>

section \<open>The contract of a pool\<close>

text \<open>A schedule of takes (\<open>None\<close>) and returns (\<open>Some b\<close>): the final pool and what was taken.\<close>

fun pool_run :: "('p \<Rightarrow> 'b option \<times> 'p) \<Rightarrow> ('p \<Rightarrow> 'b \<Rightarrow> 'p) \<Rightarrow> 'p \<Rightarrow> 'b option list \<Rightarrow> 'p \<times> 'b list" where
  "pool_run take_one put p [] = (p, [])"
| "pool_run take_one put p (None # es) =
     (let (r, p) = take_one p; (p, bs) = pool_run take_one put p es
      in (p, (case r of None \<Rightarrow> bs | Some b \<Rightarrow> b # bs)))"
| "pool_run take_one put p (Some b # es) = pool_run take_one put (put p b) es"

definition returned :: "'b option list \<Rightarrow> 'b list" where
  "returned es = map the (filter (\<lambda>e. e \<noteq> None) es)"

lemma returned_simps [simp]: "returned [] = []" "returned (None # es) = returned es" "returned (Some b # es) = b # returned es"
  by (simp_all add: returned_def)

locale pool =
  fixes stock :: "'p \<Rightarrow> 'b multiset"
    and ok :: "'p \<Rightarrow> bool"
    and capacity :: nat
    and valid :: "'b \<Rightarrow> bool"
    and take_one :: "'p \<Rightarrow> 'b option \<times> 'p"
    and put :: "'p \<Rightarrow> 'b \<Rightarrow> 'p"
  assumes take_empty: "ok p \<Longrightarrow> stock p = {#} \<Longrightarrow> take_one p = (None, p)"
    and take_some: "ok p \<Longrightarrow> stock p \<noteq> {#} \<Longrightarrow> \<exists>b p'. take_one p = (Some b, p') \<and> ok p' \<and> stock p = add_mset b (stock p')"
    and put_stock: "ok p \<Longrightarrow> valid b \<Longrightarrow> size (stock p) < capacity \<Longrightarrow> ok (put p b) \<and> stock (put p b) = add_mset b (stock p)"
begin

lemma take_cases:
  assumes "ok p" "take_one p = (r, p')"
  shows "ok p' \<and> (case r of None \<Rightarrow> stock p = {#} \<and> p' = p | Some b \<Rightarrow> stock p = add_mset b (stock p'))"
  using take_empty [OF assms(1)] take_some [OF assms(1)] assms by (cases "stock p = {#}") auto

text \<open>Nothing is lost and nothing is given twice, while the pool is not overfilled.\<close>

theorem pool_conserves:
  assumes "ok p" "\<forall>b\<in>set (returned es). valid b" "size (stock p) + length (returned es) \<le> capacity"
    and "pool_run take_one put p es = (p', bs)"
  shows "ok p' \<and> stock p + mset (returned es) = mset bs + stock p'"
  using assms
proof (induction es arbitrary: p p' bs)
  case Nil
  then show ?case by simp
next
  case (Cons e es)
  show ?case
  proof (cases e)
    case (Some b)
    then have "ok (put p b)" "stock (put p b) = add_mset b (stock p)"
      using put_stock [of p b] Cons.prems by auto
    then show ?thesis using Cons.IH [of "put p b" p' bs] Cons.prems Some by simp
  next
    case None
    obtain r q where t: "take_one p = (r, q)" by fastforce
    obtain bs' where run: "pool_run take_one put q es = (p', bs')" "bs = (case r of None \<Rightarrow> bs' | Some b \<Rightarrow> b # bs')"
      using Cons.prems(4) None t by (auto split: prod.splits)
    have q: "ok q" "case r of None \<Rightarrow> stock p = {#} \<and> q = p | Some b \<Rightarrow> stock p = add_mset b (stock q)"
      using take_cases [OF Cons.prems(1) t] by auto
    then have "size (stock q) \<le> size (stock p)" by (cases r) auto
    then have "ok p' \<and> stock q + mset (returned es) = mset bs' + stock p'"
      using Cons.IH [OF q(1) _ _ run(1)] Cons.prems None by simp
    then show ?thesis using q(2) run(2) None by (cases r) auto
  qed
qed

end

section \<open>The free buffers\<close>

record buffers_free_t =
  bf_top_index :: u32
  bf_stack :: "addr list"

definition buffers_free_initialize :: "addr list \<Rightarrow> addr \<Rightarrow> nat \<Rightarrow> buffers_free_t" where
  "buffers_free_initialize pointers buffer buffer_count =
     \<lparr>bf_top_index = of_nat buffer_count,
      bf_stack = fold (\<lambda>i stack. stack[i := stack ! (i - 1) + sizeof_mii_packet_t]) [1..<buffer_count] (pointers[0 := buffer])\<rparr>"

definition buffers_free_initialize_c :: "buffers_free_t \<Rightarrow> addr \<Rightarrow> buffers_free_t" where
  "buffers_free_initialize_c free buffer = free\<lparr>bf_stack := (bf_stack free)[0 := buffer]\<rparr>"

definition buffers_free_available :: "buffers_free_t \<Rightarrow> u32" where
  "buffers_free_available free = bf_top_index free"

definition buffers_free_take :: "buffers_free_t \<Rightarrow> addr \<times> buffers_free_t" where
  "buffers_free_take free =
     (let top_index = bf_top_index free
      in if top_index \<noteq> 0
         then (let top_index = top_index - 1 in (bf_stack free ! unat top_index, free\<lparr>bf_top_index := top_index\<rparr>))
         else (0, free))"

definition buffers_free_add :: "buffers_free_t \<Rightarrow> addr \<Rightarrow> buffers_free_t" where
  "buffers_free_add free buf =
     (let top_index = bf_top_index free
      in free\<lparr>bf_stack := (bf_stack free)[unat top_index := buf], bf_top_index := top_index + 1\<rparr>)"

section \<open>The buffers in use\<close>

record buffers_used_t =
  bu_tail_index :: u32
  bu_head_index :: u32
  bu_pointers :: "addr list"

definition buffers_used_initialize :: "addr list \<Rightarrow> buffers_used_t" where
  "buffers_used_initialize pointers = \<lparr>bu_tail_index = 0, bu_head_index = 0, bu_pointers = pointers\<rparr>"

text \<open>The address of the slot that \<open>buffers_used_add\<close> returns is left out: no caller uses it.\<close>

definition buffers_used_add :: "buffers_used_t \<Rightarrow> addr \<Rightarrow> u32 \<Rightarrow> buffers_used_t" where
  "buffers_used_add used buf buffer_count =
     (let head_index = bu_head_index used; index = head_index mod buffer_count
      in used\<lparr>bu_pointers := (bu_pointers used)[unat index := buf], bu_head_index := head_index + 1\<rparr>)"

definition buffers_used_take :: "buffers_used_t \<Rightarrow> u32 \<Rightarrow> addr \<times> buffers_used_t" where
  "buffers_used_take used buffer_count =
     (let tail_index = bu_tail_index used; index = tail_index mod buffer_count
      in (bu_pointers used ! unat index, used\<lparr>bu_tail_index := tail_index + 1\<rparr>))"

definition buffers_used_empty :: "buffers_used_t \<Rightarrow> bool" where
  "buffers_used_empty used \<longleftrightarrow> bu_tail_index used = bu_head_index used"

section \<open>The stack is a pool\<close>

definition free_items :: "buffers_free_t \<Rightarrow> addr list" where
  "free_items f = take (unat (bf_top_index f)) (bf_stack f)"

text \<open>\<open>n\<close> is the size of the array. Null is not a buffer.\<close>

definition free_ok :: "nat \<Rightarrow> buffers_free_t \<Rightarrow> bool" where
  "free_ok n f \<longleftrightarrow> length (bf_stack f) = n \<and> unat (bf_top_index f) \<le> n \<and> n < 2 ^ 32 \<and> 0 \<notin> set (free_items f)"

lemma length_free_items: "free_ok n f \<Longrightarrow> length (free_items f) = unat (bf_top_index f)"
  by (simp add: free_items_def free_ok_def)

lemma free_take_items:
  assumes "free_ok n f"
  shows "free_items f = [] \<Longrightarrow> buffers_free_take f = (0, f)"
    "free_items f \<noteq> [] \<Longrightarrow> \<exists>f'. buffers_free_take f = (last (free_items f), f') \<and> free_ok n f' \<and>
       free_items f = free_items f' @ [last (free_items f)] \<and> last (free_items f) \<noteq> 0"
proof -
  show "free_items f = [] \<Longrightarrow> buffers_free_take f = (0, f)"
    using length_free_items [OF assms] by (simp add: buffers_free_take_def unat_eq_0)
  assume ne: "free_items f \<noteq> []"
  define t where "t = unat (bf_top_index f)"
  have t: "0 < t" "t \<le> length (bf_stack f)" using ne length_free_items [OF assms] assms
    by (auto simp: t_def free_ok_def simp flip: length_greater_0_conv)
  have u: "unat (bf_top_index f - 1) = t - 1" using t by (simp add: t_def unat_minus_one unat_gt_0)
  have items: "free_items f = take (t - 1) (bf_stack f) @ [bf_stack f ! (t - 1)]"
    using t take_Suc_conv_app_nth [of "t - 1" "bf_stack f"] by (simp add: free_items_def t_def [symmetric])
  let ?f' = "f\<lparr>bf_top_index := bf_top_index f - 1\<rparr>"
  have "free_items ?f' = take (t - 1) (bf_stack f)" by (simp add: free_items_def u)
  moreover have "buffers_free_take f = (bf_stack f ! (t - 1), ?f')"
    using t by (auto simp: buffers_free_take_def Let_def u t_def)
  ultimately show "\<exists>f'. buffers_free_take f = (last (free_items f), f') \<and> free_ok n f' \<and>
       free_items f = free_items f' @ [last (free_items f)] \<and> last (free_items f) \<noteq> 0"
    using assms items t u by (auto simp: free_ok_def t_def)
qed

lemma free_add_items:
  assumes "free_ok n f" "length (free_items f) < n" "b \<noteq> 0"
  shows "free_ok n (buffers_free_add f b)" "free_items (buffers_free_add f b) = free_items f @ [b]"
proof -
  have t: "unat (bf_top_index f) < length (bf_stack f)" "length (bf_stack f) = n" "n < 2 ^ 32"
    using assms by (auto simp: free_ok_def free_items_def)
  then have u: "unat (bf_top_index f + 1) = unat (bf_top_index f) + 1"
    by (simp add: unat_word_ariths)
  show i: "free_items (buffers_free_add f b) = free_items f @ [b]"
    using t u by (simp add: free_items_def buffers_free_add_def Let_def take_Suc_conv_app_nth)
  show "free_ok n (buffers_free_add f b)"
    using assms t u i by (auto simp: free_ok_def buffers_free_add_def Let_def)
qed

lemma sizeof_1568 [simp]: "sizeof_mii_packet_t = 1568"
  by (simp add: sizeof_mii_packet_t_def MII_PACKET_DATA_BYTES_def)

lemma init_stack:
  assumes "0 < n" "n \<le> length pointers"
  shows "take n (bf_stack (buffers_free_initialize pointers base n)) = map (\<lambda>i. base + int i * 1568) [0..<n]"
    "length (bf_stack (buffers_free_initialize pointers base n)) = length pointers"
proof -
  let ?f = "\<lambda>k. fold (\<lambda>i stack. stack[i := stack ! (i - 1) + sizeof_mii_packet_t]) [1..<k] (pointers[0 := base])"
  have "take k (?f k) = map (\<lambda>i. base + int i * 1568) [0..<k] \<and> length (?f k) = length pointers" if "0 < k" "k \<le> n" for k
    using that
  proof (induction k)
    case 0
    then show ?case by simp
  next
    case (Suc k)
    show ?case
    proof (cases "k = 0")
      case True
      then show ?thesis using assms by (cases pointers) auto
    next
      case False
      then have k: "take k (?f k) = map (\<lambda>i. base + int i * 1568) [0..<k]" "length (?f k) = length pointers" "k < length pointers"
        using Suc assms by auto
      then have "?f k ! (k - 1) = base + int (k - 1) * 1568"
        using False by (metis (no_types, lifting) add_0 diff_less length_upt less_numeral_extra(1) minus_nat.diff_0 nth_map nth_take nth_upt not_gr_zero)
      then have "?f (Suc k) = (?f k)[k := base + int k * 1568]" using False by (simp add: algebra_simps of_nat_diff)
      then show ?thesis using k by (simp add: take_Suc_conv_app_nth)
    qed
  qed
  from this [OF assms(1) order_refl] show
    "take n (bf_stack (buffers_free_initialize pointers base n)) = map (\<lambda>i. base + int i * 1568) [0..<n]"
    "length (bf_stack (buffers_free_initialize pointers base n)) = length pointers"
    by (simp_all add: buffers_free_initialize_def)
qed

text \<open>The null pointer of \<open>buffers_free_take\<close> is \<open>None\<close> of the contract.\<close>

definition take_buffer :: "buffers_free_t \<Rightarrow> addr option \<times> buffers_free_t" where
  "take_buffer f = (let (b, f) = buffers_free_take f in (if b = 0 then None else Some b, f))"

interpretation free_rx: pool "\<lambda>f. mset (free_items f)" "free_ok 32" 32 "\<lambda>b. b \<noteq> 0" take_buffer buffers_free_add
proof
  fix f assume ok: "free_ok 32 f"
  show "mset (free_items f) = {#} \<Longrightarrow> take_buffer f = (None, f)"
    using free_take_items(1) [OF ok] by (simp add: take_buffer_def)
  show "mset (free_items f) \<noteq> {#} \<Longrightarrow>
      \<exists>b f'. take_buffer f = (Some b, f') \<and> free_ok 32 f' \<and> mset (free_items f) = add_mset b (mset (free_items f'))"
    using free_take_items(2) [OF ok] by (fastforce simp: take_buffer_def dest: arg_cong [of _ _ mset])
  show "b \<noteq> 0 \<Longrightarrow> size (mset (free_items f)) < 32 \<Longrightarrow> free_ok 32 (buffers_free_add f b) \<and>
      mset (free_items (buffers_free_add f b)) = add_mset b (mset (free_items f))" for b
    using free_add_items [OF ok] by simp
qed

section \<open>A ring is a FIFO\<close>

text \<open>The indices run freely and are reduced at each access, so the size has to divide \<open>2 ^ 32\<close>.\<close>

definition used_count :: "buffers_used_t \<Rightarrow> nat" where
  "used_count u = unat (bu_head_index u - bu_tail_index u)"

definition used_items :: "nat \<Rightarrow> buffers_used_t \<Rightarrow> addr list" where
  "used_items n u = map (\<lambda>k. bu_pointers u ! ((unat (bu_tail_index u) + k) mod n)) [0..<used_count u]"

definition used_ok :: "nat \<Rightarrow> buffers_used_t \<Rightarrow> bool" where
  "used_ok n u \<longleftrightarrow> used_count u \<le> n \<and> n \<le> length (bu_pointers u) \<and> 0 < n \<and> n < 2 ^ 32 \<and> n dvd 2 ^ 32"

lemma length_used_items [simp]: "length (used_items n u) = used_count u"
  by (simp add: used_items_def)

text \<open>A free-running index reduced to its slot.\<close>

lemma unat_mod_n: "n < 2 ^ 32 \<Longrightarrow> 0 < n \<Longrightarrow> unat (x mod of_nat n :: u32) = unat x mod n"
  by (simp add: unat_mod unat_of_nat)

lemma unat_plus_slot:
  assumes "n dvd 2 ^ 32"
  shows "(unat (x + y :: u32) + k) mod n = (unat x + (unat y + k)) mod n"
proof -
  have "unat (x + y) = (unat x + unat y) mod 2 ^ 32" by (simp add: unat_word_ariths)
  then have "unat (x + y) mod n = (unat x + unat y) mod n" using assms by (simp add: mod_mod_cancel)
  then show ?thesis by (metis add.assoc mod_add_left_eq)
qed

lemma free_slot_inj: "i < n \<Longrightarrow> k < n \<Longrightarrow> (r + i) mod n = (r + k) mod n \<longleftrightarrow> i = k" for r n i k :: nat
  using ring_slot_inj [of "r mod n" n i k] by (cases n) (simp_all add: mod_simps)

lemma head_slot:
  assumes "n dvd 2 ^ 32"
  shows "unat (bu_head_index u) mod n = (unat (bu_tail_index u) + used_count u) mod n"
  using unat_plus_slot [OF assms, of "bu_tail_index u" "bu_head_index u - bu_tail_index u" 0]
  by (simp add: used_count_def)

lemma used_add_items:
  assumes "used_ok n u" "used_count u < n"
  shows "used_ok n (buffers_used_add u b (of_nat n))" "used_items n (buffers_used_add u b (of_nat n)) = used_items n u @ [b]"
proof -
  let ?u = "buffers_used_add u b (of_nat n)" and ?slot = "(unat (bu_tail_index u) + used_count u) mod n"
  have n: "0 < n" "n < 2 ^ 32" "n dvd 2 ^ 32" "n \<le> length (bu_pointers u)" using assms by (auto simp: used_ok_def)
  have d: "bu_head_index u + 1 - bu_tail_index u = (bu_head_index u - bu_tail_index u) + 1" by simp
  have "used_count ?u = unat (bu_head_index u + 1 - bu_tail_index u)"
    by (simp add: used_count_def buffers_used_add_def Let_def)
  also have "\<dots> = used_count u + 1"
    unfolding d using assms(2) n by (simp add: used_count_def unat_word_ariths)
  finally have c: "used_count ?u = used_count u + 1" .
  have slot: "unat (bu_head_index u mod of_nat n) = ?slot"
    using head_slot [OF n(3), of u] by (simp add: unat_mod_n [OF n(2,1)])
  have p: "bu_pointers ?u = (bu_pointers u)[?slot := b]" "bu_tail_index ?u = bu_tail_index u"
    by (simp_all add: buffers_used_add_def Let_def slot)
  have "?slot < length (bu_pointers u)" using n by (metis mod_less_divisor less_le_trans)
  then show "used_items n ?u = used_items n u @ [b]"
    using free_slot_inj [of "used_count u" n _ "unat (bu_tail_index u)"] assms(2)
    by (auto simp: used_items_def c p nth_list_update)
  show "used_ok n ?u" using assms n by (simp add: used_ok_def c p)
qed

lemma used_count_next: "0 < used_count u \<Longrightarrow> used_count u = used_count (u\<lparr>bu_tail_index := bu_tail_index u + 1\<rparr>) + 1"
proof -
  assume pos: "0 < used_count u"
  have d: "bu_head_index u - (bu_tail_index u + 1) = (bu_head_index u - bu_tail_index u) - 1" by simp
  have "bu_head_index u - bu_tail_index u \<noteq> 0" using pos by (auto simp: used_count_def)
  then have "unat (bu_head_index u - (bu_tail_index u + 1)) = used_count u - 1"
    unfolding d used_count_def by (rule unat_minus_one)
  then show ?thesis using pos by (simp add: used_count_def)
qed

lemma used_take_items:
  assumes "used_ok n u" "used_items n u \<noteq> []"
  shows "\<exists>u'. buffers_used_take u (of_nat n) = (hd (used_items n u), u') \<and> used_ok n u' \<and>
    used_items n u' = tl (used_items n u) \<and> used_count u = used_count u' + 1"
proof -
  let ?u = "u\<lparr>bu_tail_index := bu_tail_index u + 1\<rparr>"
  have n: "0 < n" "n < 2 ^ 32" "n dvd 2 ^ 32" using assms by (auto simp: used_ok_def)
  have pos: "0 < used_count u" using assms(2) by (simp add: used_items_def)
  have c: "used_count u = used_count ?u + 1" using pos by (rule used_count_next)
  have s: "(unat (bu_tail_index u + 1) + k) mod n = (unat (bu_tail_index u) + Suc k) mod n" for k
    using unat_plus_slot [OF n(3), of "bu_tail_index u" 1 k] by simp
  have "used_items n u = bu_pointers u ! (unat (bu_tail_index u) mod n) # used_items n ?u"
    by (simp add: used_items_def [of n u] c map_upt_Suc del: upt_Suc) (simp add: used_items_def s)
  then show ?thesis
    using assms c by (intro exI [of _ ?u]) (simp add: buffers_used_take_def Let_def unat_mod_n [OF n(2,1)] used_ok_def)
qed

lemma used_empty_items: "buffers_used_empty u \<longleftrightarrow> used_items n u = []"
  by (auto simp: buffers_used_empty_def used_items_def used_count_def unat_eq_0)

text \<open>The interpretations, for the rings of the receiver and of the transmitter.\<close>

definition used_room :: "nat \<Rightarrow> buffers_used_t \<Rightarrow> bool" where
  "used_room n u \<longleftrightarrow> used_count u < n"

definition used_front :: "u32 \<Rightarrow> buffers_used_t \<Rightarrow> addr option" where
  "used_front n u = (if buffers_used_empty u then None else Some (fst (buffers_used_take u n)))"

lemma used_fifo:
  assumes "n < 2 ^ 32"
  shows "fifo (used_items n) (used_ok n) (used_room n) (\<lambda>_. True) (\<lambda>u b. buffers_used_add u b (of_nat n))
    (\<lambda>u. snd (buffers_used_take u (of_nat n))) (used_front (of_nat n))"
proof
  fix u b assume ok: "used_ok n u"
  show "used_room n u \<Longrightarrow> used_items n (buffers_used_add u b (of_nat n)) = used_items n u @ [b]"
    "used_room n u \<Longrightarrow> used_ok n (buffers_used_add u b (of_nat n))"
    using used_add_items [OF ok] by (simp_all add: used_room_def)
  show "used_items n u \<noteq> [] \<Longrightarrow> used_items n (snd (buffers_used_take u (of_nat n))) = tl (used_items n u)"
    "used_items n u \<noteq> [] \<Longrightarrow> used_ok n (snd (buffers_used_take u (of_nat n)))"
    using used_take_items [OF ok] by auto
  show "used_front (of_nat n) u = (case used_items n u of [] \<Rightarrow> None | x # _ \<Rightarrow> Some x)"
    using used_take_items [OF ok] by (auto simp: used_front_def used_empty_items [of u n] split: list.splits)
qed

interpretation used_rx: fifo "used_items 32" "used_ok 32" "used_room 32" "\<lambda>_. True" "\<lambda>u b. buffers_used_add u b 32"
  "\<lambda>u. snd (buffers_used_take u 32)" "used_front 32"
  using used_fifo [of 32] by simp

interpretation used_tx: fifo "used_items 8" "used_ok 8" "used_room 8" "\<lambda>_. True" "\<lambda>u b. buffers_used_add u b 8"
  "\<lambda>u. snd (buffers_used_take u 8)" "used_front 8"
  using used_fifo [of 8] by simp

end
