(* ===== verification/Rgmii_Rx.thy ===== *)
theory Rgmii_Rx
  imports Rgmii_Buffers Client_Ring Macaddr_Hash
begin

text \<open>
  The receive side of the 10/100/1000 MAC, \<^verbatim>\<open>lib_ethernet/src/rgmii_buffering.xc\<close>: the buffer managers, which exchange
  buffers with the low level receivers, look up the destination address and queue the frame; the server,
  which offers the frames to the clients and hands them out; and the restart of \<^verbatim>\<open>rgmii_ethernet_mac.xc\<close> after a change of
  speed. The header \<^verbatim>\<open>default_ethernet_conf.h\<close> gives a client 16 entries in an RGMII build.
\<close>

section \<open>State\<close>

abbreviation RGMII_RX_CLIENT_QUEUE_SIZE :: u32 where "RGMII_RX_CLIENT_QUEUE_SIZE \<equiv> 16"
abbreviation RGMII_MAC_BUFFER_COUNT_RX :: u32 where "RGMII_MAC_BUFFER_COUNT_RX \<equiv> 32"
abbreviation RGMII_MAC_BUFFER_COUNT_TX :: u32 where "RGMII_MAC_BUFFER_COUNT_TX \<equiv> 8"
abbreviation RGMII_RX_BUFFERS_THRESHOLD :: u32 where "RGMII_RX_BUFFERS_THRESHOLD \<equiv> 16"

text \<open>
  The state the tasks share and that of the server. \<open>rg_lld k\<close> are the buffers on the other side of the
  channel of manager \<open>k\<close>, in the low level receiver; \<open>rg_link\<close> is \<^verbatim>\<open>cur_link_state\<close>; \<open>rg_ready\<close> the clients notified;
  \<open>rg_hp_out\<close> what was sent on the high priority channel. A client entry is the address of a buffer.
\<close>

record rgmii_rx =
  rg_mem :: mem
  rg_free :: buffers_free_t
  rg_lp :: buffers_used_t
  rg_hp :: buffers_used_t
  rg_clients :: "rx_client_state_t list"
  rg_hash :: hash_state
  rg_port :: ethernet_port_state_t
  rg_link :: ethernet_link_state_t
  rg_lld :: "nat \<Rightarrow> addr list"
  rg_mac_address :: "u8 list"
  rg_ready :: "nat list"
  rg_hp_out :: "(ethernet_packet_info_t \<times> u8 list) list"

section \<open>The buffer managers\<close>

definition take_free :: "rgmii_rx \<Rightarrow> addr \<times> rgmii_rx" where
  "take_free s = (let (b, f) = buffers_free_take (rg_free s) in (b, s\<lparr>rg_free := f\<rparr>))"

definition free_buffer :: "addr \<Rightarrow> rgmii_rx \<Rightarrow> rgmii_rx" where
  "free_buffer b s = s\<lparr>rg_free := buffers_free_add (rg_free s) b\<rparr>"

text \<open>\<^verbatim>\<open>c_rx <: buffer\<close>\<close>

definition give_lld :: "nat \<Rightarrow> addr \<Rightarrow> rgmii_rx \<Rightarrow> rgmii_rx" where
  "give_lld k b s = s\<lparr>rg_lld := (rg_lld s)(k := rg_lld s k @ [b])\<rparr>"

text \<open>The start of a manager: two buffers for its receiver.\<close>

definition manager_start :: "nat \<Rightarrow> rgmii_rx \<Rightarrow> rgmii_rx" where
  "manager_start k s =
     (let (b, s) = take_free s; s = give_lld k b s; (b, s) = take_free s in give_lld k b s)"

text \<open>The look-up of the destination address of a frame, and where the frame goes.\<close>

definition file_packet :: "mii_macaddr_hash_table_t \<Rightarrow> addr \<Rightarrow> rgmii_rx \<Rightarrow> rgmii_rx" where
  "file_packet table buffer s =
     (let m = rg_mem s; key0 = m (pkt_data buffer); key1 = m (pkt_data buffer + 4) AND 0xffff;
          (filter_result, filter_data) = mii_macaddr_hash_lookup table key0 key1 (getf m buffer filter_data_f);
          s = s\<lparr>rg_mem := setf m buffer filter_data_f filter_data\<rparr>
      in if filter_result \<noteq> 0
         then (let s = s\<lparr>rg_mem := setf (rg_mem s) buffer filter_result_f filter_result\<rparr>
               in if ethernet_filter_result_is_hp filter_result \<noteq> 0
                  then s\<lparr>rg_hp := buffers_used_add (rg_hp s) buffer RGMII_MAC_BUFFER_COUNT_RX\<rparr>
                  else s\<lparr>rg_lp := buffers_used_add (rg_lp s) buffer RGMII_MAC_BUFFER_COUNT_RX\<rparr>)
         else free_buffer buffer s)"

text \<open>One turn of the loop: the receiver has sent back a buffer with a frame, or it has not.\<close>

definition rgmii_buffer_manager :: "nat \<Rightarrow> addr option \<Rightarrow> rgmii_rx \<Rightarrow> rgmii_rx" where
  "rgmii_buffer_manager filter_num received s =
     (let (table, hash) = mii_macaddr_get_hash_table filter_num (rg_hash s); s = s\<lparr>rg_hash := hash\<rparr>
      in case received of
           None \<Rightarrow> s
         | Some buffer \<Rightarrow>
             (let s = s\<lparr>rg_lld := (rg_lld s)(filter_num := remove1 buffer (rg_lld s filter_num))\<rparr>;
                  (next_buffer, s) = take_free s
              in if next_buffer \<noteq> 0 then file_packet table buffer (give_lld filter_num next_buffer s)
                 else give_lld filter_num buffer s))"

section \<open>The server\<close>

text \<open>Offering a packet to client \<open>i\<close>. The indices stay below 16, so their comparison as signed integers is this one.\<close>

definition offer_client_rgmii ::
    "mem \<Rightarrow> addr \<Rightarrow> nat \<Rightarrow> nat \<times> rx_client_state_t list \<times> nat list \<Rightarrow> nat \<times> rx_client_state_t list \<times> nat list" where
  "offer_client_rgmii m buf i st =
     (let (tcount, clients, ready) = st; c = clients ! i
      in if \<not> client_wants m buf i c then st
         else (let wrptr = rc_wr_index c; new_wrptr = wrptr + 1;
                   new_wrptr = (if new_wrptr \<ge> RGMII_RX_CLIENT_QUEUE_SIZE then 0 else new_wrptr)
               in if new_wrptr \<noteq> rc_rd_index c
                  then (tcount + 1,
                        clients[i := c\<lparr>rc_fifo := (rc_fifo c)[unat wrptr := of_int buf], rc_wr_index := new_wrptr\<rparr>],
                        ready @ [i])
                  else (tcount, clients[i := c\<lparr>rc_dropped_pkt_cnt := rc_dropped_pkt_cnt c + 1\<rparr>], ready)))"

definition handle_incoming_packet_rgmii :: "rgmii_rx \<Rightarrow> rgmii_rx" where
  "handle_incoming_packet_rgmii s =
     (if buffers_used_empty (rg_lp s) then s
      else (let (buf, lp) = buffers_used_take (rg_lp s) RGMII_MAC_BUFFER_COUNT_RX; m = rg_mem s;
                (tcount, clients, ready) =
                  (if getf m buf filter_result_f \<noteq> 0
                   then fold (offer_client_rgmii m buf) [0..<length (rg_clients s)] (0, rg_clients s, [])
                   else (0, rg_clients s, []));
                s = s\<lparr>rg_lp := lp, rg_clients := clients, rg_ready := rg_ready s @ ready\<rparr>
            in if tcount = 0 then free_buffer buf s else s\<lparr>rg_mem := setf m buf tcount_f (of_nat (tcount - 1))\<rparr>))"

text \<open>Client \<open>i\<close> gives up its oldest packet; shared by dropping and reading.\<close>

definition oldest_buffer :: "rx_client_state_t \<Rightarrow> addr" where
  "oldest_buffer c = uint (rc_fifo c ! unat (rc_rd_index c))"

definition release_oldest_rgmii :: "nat \<Rightarrow> rgmii_rx \<Rightarrow> rgmii_rx" where
  "release_oldest_rgmii i s =
     (let c = rg_clients s ! i; buf = oldest_buffer c;
          (count, m) = mii_get_and_dec_transmit_count (rg_mem s) buf;
          s = s\<lparr>rg_mem := m\<rparr>;
          s = (if count = 0 then free_buffer buf s else s)
      in s\<lparr>rg_clients := (rg_clients s)[i := c\<lparr>rc_rd_index :=
           increment_and_wrap_power_of_2 (rc_rd_index c) RGMII_RX_CLIENT_QUEUE_SIZE\<rparr>]\<rparr>)"

definition drop_oldest_rgmii :: "nat \<Rightarrow> rgmii_rx \<Rightarrow> rgmii_rx" where
  "drop_oldest_rgmii i s =
     (if \<not> has_packet (rg_clients s ! i) then s
      else (let s = release_oldest_rgmii i s; c = rg_clients s ! i
            in s\<lparr>rg_clients := (rg_clients s)[i := c\<lparr>rc_dropped_pkt_cnt := rc_dropped_pkt_cnt c + 1\<rparr>]\<rparr>))"

definition drop_lp_packets_rgmii :: "rgmii_rx \<Rightarrow> rgmii_rx" where
  "drop_lp_packets_rgmii s = fold drop_oldest_rgmii [0..<length (rg_clients s)] s"

definition packet_info_rgmii :: "rgmii_rx \<Rightarrow> addr \<Rightarrow> ethernet_packet_info_t" where
  "packet_info_rgmii s buf =
     (let m = rg_mem s
      in \<lparr>pi_type = ETH_DATA, pi_len = getf m buf length_f,
          pi_timestamp = getf m buf timestamp_f - ps_ingress_ts_latency (rg_port s) ! speed_num (ps_link_speed (rg_port s)),
          pi_src_ifnum = 0, pi_filter_data = getf m buf filter_data_f\<rparr>)"

definition packet_bytes :: "mem \<Rightarrow> addr \<Rightarrow> u8 list" where
  "packet_bytes m buf = ldbs m (pkt_data buf) (unat (getf m buf length_f))"

text \<open>The call \<open>get_packet\<close> of client \<open>i\<close>.\<close>

definition get_packet_rgmii ::
    "nat \<Rightarrow> u8 list \<Rightarrow> rgmii_rx \<Rightarrow> fault + (ethernet_packet_info_t \<times> u8 list \<times> rgmii_rx)" where
  "get_packet_rgmii i data s =
     (let c = rg_clients s ! i
      in if rc_status_update_state c = STATUS_UPDATE_PENDING
         then bind (put_bytes data 0 [of_nat (link_num (rg_link s)), of_nat (speed_num (ps_link_speed (rg_port s)))])
                (\<lambda>data. Inr (status_info, data,
                   s\<lparr>rg_clients := (rg_clients s)[i := c\<lparr>rc_status_update_state := STATUS_UPDATE_WAITING\<rparr>]\<rparr>))
         else if has_packet c
         then bind (put_bytes data 0 (packet_bytes (rg_mem s) (oldest_buffer c)))
                (\<lambda>data. let info = packet_info_rgmii s (oldest_buffer c); s = release_oldest_rgmii i s
                   in Inr (info, data, if has_packet (rg_clients s ! i) then s\<lparr>rg_ready := rg_ready s @ [i]\<rparr> else s))
         else Inr (no_info, data, s))"

text \<open>Clients waiting for the link status are told of a change.\<close>

definition link_change :: "rgmii_rx \<Rightarrow> rgmii_rx" where
  "link_change s =
     (if rg_link s \<noteq> ps_link_state (rg_port s)
      then s\<lparr>rg_link := ps_link_state (rg_port s),
             rg_clients := map (\<lambda>c. if rc_status_update_state c = STATUS_UPDATE_WAITING
               then c\<lparr>rc_status_update_state := STATUS_UPDATE_PENDING\<rparr> else c) (rg_clients s),
             rg_ready := rg_ready s @ filter (\<lambda>i. rc_status_update_state (rg_clients s ! i) = STATUS_UPDATE_WAITING)
               [0..<length (rg_clients s)]\<rparr>
      else s)"

text \<open>The loop over the high priority packets; \<open>hp_rx\<close> says whether the channel is connected.\<close>

function handle_hp_packets_rgmii :: "bool \<Rightarrow> rgmii_rx \<Rightarrow> rgmii_rx" where
  "handle_hp_packets_rgmii hp_rx s =
     (if buffers_used_empty (rg_hp s) then s
      else (let (buf, hp) = buffers_used_take (rg_hp s) RGMII_MAC_BUFFER_COUNT_RX; s = s\<lparr>rg_hp := hp\<rparr>;
                s = (if hp_rx then s\<lparr>rg_hp_out := rg_hp_out s @
                       [(packet_info_rgmii s buf, sout_char_array (packet_bytes (rg_mem s) buf))]\<rparr> else s)
            in handle_hp_packets_rgmii hp_rx (free_buffer buf s)))"
  by pat_completeness auto
termination
proof (relation "measure (\<lambda>(_, s). used_count (rg_hp s))", goal_cases)
  case 1
  then show ?case by simp
next
  case (2 hp_rx s p buf hp s' s'')
  have "rg_hp (free_buffer buf s'') = (rg_hp s)\<lparr>bu_tail_index := bu_tail_index (rg_hp s) + 1\<rparr>"
    using 2 by (auto simp: free_buffer_def buffers_used_take_def Let_def)
  moreover have "0 < used_count (rg_hp s)"
    using 2(1) used_empty_items [of "rg_hp s" 32] by (simp add: used_items_def)
  ultimately show ?case using used_count_next [of "rg_hp s"] by simp
qed

declare handle_hp_packets_rgmii.simps [simp del]

text \<open>One turn of the loop of the server, with the call taken, if any.\<close>

definition rgmii_housekeeping :: "bool \<Rightarrow> rgmii_rx \<Rightarrow> rgmii_rx" where
  "rgmii_housekeeping hp_rx s =
     (let s = handle_incoming_packet_rgmii (handle_hp_packets_rgmii hp_rx (link_change s))
      in if hp_rx \<and> buffers_free_available (rg_free s) \<le> RGMII_RX_BUFFERS_THRESHOLD then drop_lp_packets_rgmii s else s)"

fun handle_rx_rgmii :: "nat \<Rightarrow> ethernet_rx_if \<Rightarrow> rgmii_rx \<Rightarrow> fault + (reply \<times> rgmii_rx)" where
  "handle_rx_rgmii i Get_Index s = Inr (Index i, s)"
| "handle_rx_rgmii i (Get_Packet data) s = bind (get_packet_rgmii i data s) (\<lambda>(info, data, s). Inr (Packet info data, s))"

definition rgmii_ethernet_rx_server ::
    "bool \<Rightarrow> (nat \<times> ethernet_rx_if) option \<Rightarrow> rgmii_rx \<Rightarrow> fault + (reply \<times> rgmii_rx)" where
  "rgmii_ethernet_rx_server hp_rx call s =
     bind (case call of None \<Rightarrow> Inr (No_Reply, s) | Some (i, e) \<Rightarrow> handle_rx_rgmii i e s)
       (\<lambda>(r, s). Inr (r, rgmii_housekeeping hp_rx s))"

section \<open>The configuration task\<close>

text \<open>\<open>taken\<close> are the answers of the filter threads to a swap of the tables.\<close>

definition on_client_rgmii :: "nat \<Rightarrow> (rx_client_state_t \<Rightarrow> rx_client_state_t) \<Rightarrow> rgmii_rx \<Rightarrow> rgmii_rx" where
  "on_client_rgmii i f s = s\<lparr>rg_clients := (rg_clients s)[i := f (rg_clients s ! i)]\<rparr>"

fun rgmii_ethernet_mac_config ::
    "(nat \<Rightarrow> nat \<Rightarrow> bool) \<Rightarrow> u32 \<Rightarrow> u32 \<Rightarrow> ethernet_cfg_if \<Rightarrow> rgmii_rx \<Rightarrow> fault + (reply \<times> rgmii_rx)" where
  "rgmii_ethernet_mac_config taken tile_id time Get_Macaddr s = Inr (Macaddr (rg_mac_address s), s)"
| "rgmii_ethernet_mac_config taken tile_id time (Set_Macaddr mac) s = Inr (No_Reply, s\<lparr>rg_mac_address := mac\<rparr>)"
| "rgmii_ethernet_mac_config taken tile_id time (Set_Link_State status speed) s =
     Inr (No_Reply, s\<lparr>rg_port := (rg_port s)\<lparr>ps_link_state := status, ps_link_speed := speed\<rparr>\<rparr>)"
| "rgmii_ethernet_mac_config taken tile_id time (Add_Macaddr_Filter client_num is_hp entry) s =
     bind (from_loop (mii_macaddr_hash_table_add_entry taken client_num is_hp entry (rg_hash s)))
       (\<lambda>(result, h). Inr (Filter_Result result, s\<lparr>rg_hash := h\<rparr>))"
| "rgmii_ethernet_mac_config taken tile_id time (Del_Macaddr_Filter client_num is_hp entry) s =
     Inr (No_Reply, s\<lparr>rg_hash := mii_macaddr_hash_table_delete_entry taken client_num is_hp entry (rg_hash s)\<rparr>)"
| "rgmii_ethernet_mac_config taken tile_id time (Del_All_Macaddr_Filters client_num is_hp) s =
     Inr (No_Reply, s\<lparr>rg_hash := mii_macaddr_hash_table_clear taken (rg_hash s)\<rparr>)"
| "rgmii_ethernet_mac_config taken tile_id time (Add_Ethertype_Filter i ethertype) s =
     (case add_ethertype_filter ethertype (rg_clients s ! i) of
        None \<Rightarrow> Inl Assertion | Some c \<Rightarrow> Inr (No_Reply, on_client_rgmii i (\<lambda>_. c) s))"
| "rgmii_ethernet_mac_config taken tile_id time (Del_Ethertype_Filter i ethertype) s =
     Inr (No_Reply, on_client_rgmii i (del_ethertype_filter ethertype) s)"
| "rgmii_ethernet_mac_config taken tile_id time Get_Tile_Id_And_Timer s = Inr (Tile_And_Time tile_id time, s)"
| "rgmii_ethernet_mac_config taken tile_id time (Set_Egress_Qav_Idle_Slope slope) s =
     Inr (No_Reply, s\<lparr>rg_port := (rg_port s)\<lparr>ps_qav_idle_slope := slope\<rparr>\<rparr>)"
| "rgmii_ethernet_mac_config taken tile_id time (Set_Ingress_Timestamp_Latency speed v) s =
     bind (set_latency speed v (ps_ingress_ts_latency (rg_port s)))
       (\<lambda>l. Inr (No_Reply, s\<lparr>rg_port := (rg_port s)\<lparr>ps_ingress_ts_latency := l\<rparr>\<rparr>))"
| "rgmii_ethernet_mac_config taken tile_id time (Set_Egress_Timestamp_Latency speed v) s =
     bind (set_latency speed v (ps_egress_ts_latency (rg_port s)))
       (\<lambda>l. Inr (No_Reply, s\<lparr>rg_port := (rg_port s)\<lparr>ps_egress_ts_latency := l\<rparr>\<rparr>))"
| "rgmii_ethernet_mac_config taken tile_id time (Enable_Strip_Vlan_Tag i) s = Inl Assertion"
| "rgmii_ethernet_mac_config taken tile_id time (Disable_Strip_Vlan_Tag i) s = Inl Assertion"
| "rgmii_ethernet_mac_config taken tile_id time (Enable_Link_Status_Notification i) s =
     Inr (No_Reply, on_client_rgmii i (\<lambda>c. c\<lparr>rc_status_update_state := STATUS_UPDATE_WAITING\<rparr>) s)"
| "rgmii_ethernet_mac_config taken tile_id time (Disable_Link_Status_Notification i) s =
     Inr (No_Reply, on_client_rgmii i (\<lambda>c. c\<lparr>rc_status_update_state := STATUS_UPDATE_IGNORING\<rparr>) s)"

section \<open>Change of speed\<close>

datatype rgmii_inband_status_t =
    INBAND_STATUS_OFF
  | INBAND_STATUS_10M_FULLDUPLEX_DOWN
  | INBAND_STATUS_10M_FULLDUPLEX_UP
  | INBAND_STATUS_100M_FULLDUPLEX_DOWN
  | INBAND_STATUS_100M_FULLDUPLEX_UP
  | INBAND_STATUS_1G_FULLDUPLEX_DOWN
  | INBAND_STATUS_1G_FULLDUPLEX_UP

fun inband_num :: "rgmii_inband_status_t \<Rightarrow> u32" where
  "inband_num INBAND_STATUS_OFF = 0"
| "inband_num INBAND_STATUS_10M_FULLDUPLEX_DOWN = 8"
| "inband_num INBAND_STATUS_10M_FULLDUPLEX_UP = 9"
| "inband_num INBAND_STATUS_100M_FULLDUPLEX_DOWN = 10"
| "inband_num INBAND_STATUS_100M_FULLDUPLEX_UP = 11"
| "inband_num INBAND_STATUS_1G_FULLDUPLEX_DOWN = 12"
| "inband_num INBAND_STATUS_1G_FULLDUPLEX_UP = 13"

text \<open>
  The mode after reading the port between frames, and whether the change is announced. \<open>reads\<close> are the values read before
  a timeout.
\<close>

fun get_current_rgmii_mode :: "u32 \<Rightarrow> u32 list \<Rightarrow> u32 \<times> bool" where
  "get_current_rgmii_mode last_mode (mode0 # mode1 # _) =
     (if mode0 < inband_num INBAND_STATUS_10M_FULLDUPLEX_DOWN \<or> mode0 > inband_num INBAND_STATUS_1G_FULLDUPLEX_UP \<or>
         mode1 < inband_num INBAND_STATUS_10M_FULLDUPLEX_DOWN \<or> mode1 > inband_num INBAND_STATUS_1G_FULLDUPLEX_UP
      then (last_mode, False)
      else if mode0 = mode1 \<and> last_mode \<noteq> mode0 then (mode0, True) else (last_mode, False))"
| "get_current_rgmii_mode last_mode _ = (last_mode, False)"

definition slow_mode :: "u32 \<Rightarrow> bool" where
  "slow_mode mode \<longleftrightarrow> inband_num INBAND_STATUS_10M_FULLDUPLEX_DOWN \<le> mode \<and> mode \<le> inband_num INBAND_STATUS_100M_FULLDUPLEX_UP"

text \<open>
  One turn of the loop of \<open>rgmii_ethernet_mac\<close>: the buffers are set up afresh in the array at address \<open>buffer_rx\<close> and the
  tasks of the mode started; the clients stay as they are.
\<close>

definition rgmii_restart :: "addr \<Rightarrow> u32 \<Rightarrow> rgmii_rx \<Rightarrow> rgmii_rx" where
  "rgmii_restart buffer_rx mode s =
     (let s = s\<lparr>rg_lp := buffers_used_initialize (bu_pointers (rg_lp s)), rg_hp := buffers_used_initialize (bu_pointers (rg_hp s)),
                rg_free := buffers_free_initialize (bf_stack (rg_free s)) buffer_rx (unat RGMII_MAC_BUFFER_COUNT_RX),
                rg_lld := (\<lambda>_. []), rg_link := ps_link_state (rg_port s)\<rparr>
      in if slow_mode mode
         then manager_start 0 (s\<lparr>rg_hash := mii_macaddr_set_num_active_filters 1 (rg_hash s)\<rparr>)
         else manager_start 1 (manager_start 0 (s\<lparr>rg_hash := mii_macaddr_set_num_active_filters 2 (rg_hash s)\<rparr>)))"

definition rgmii_ethernet_mac :: "addr \<Rightarrow> u32 \<Rightarrow> rgmii_rx \<Rightarrow> rgmii_rx" where
  "rgmii_ethernet_mac buffer_rx mode s =
     rgmii_restart buffer_rx mode (s\<lparr>rg_clients := init_rx_client_state (rg_clients s),
       rg_hash := mii_macaddr_hash_table_init (rg_hash s)\<rparr>)"

end
