(* ===== verification/Rgmii_Inv.thy ===== *)
theory Rgmii_Inv
  imports Rgmii_Rx
begin

text \<open>
  Where the receive buffers of the RGMII MAC are. Each of the 32 buffers is in exactly one place: free, with a low level
  receiver, in one of the two rings, or with the clients, who count in the packet how many of them still have
  to read it. Every operation moves buffers between these places and keeps this; a buffer in
  the hand of an operation is kept in a multiset beside the state.
\<close>

section \<open>The pool\<close>

definition pool_at :: "addr \<Rightarrow> addr set" where
  "pool_at base = (\<lambda>i. base + int i * sizeof_mii_packet_t) ` {..<32}"

definition pool_ok :: "addr \<Rightarrow> bool" where
  "pool_ok base \<longleftrightarrow> 0 < base \<and> base mod 4 = 0 \<and> base + 32 * sizeof_mii_packet_t \<le> 2 ^ 32"

lemma pool_range: "pool_ok base \<Longrightarrow> b \<in> pool_at base \<Longrightarrow> 0 < b \<and> b + 1568 \<le> 2 ^ 32"
  by (auto simp: pool_ok_def pool_at_def)

lemma pool_apart: "b \<in> pool_at base \<Longrightarrow> b' \<in> pool_at base \<Longrightarrow> b \<noteq> b' \<Longrightarrow> b + 1568 \<le> b' \<or> b' + 1568 \<le> b"
  by (auto simp: pool_at_def)

lemma card_pool: "finite (pool_at base)" "card (pool_at base) = 32"
proof -
  have "inj_on (\<lambda>i. base + int i * sizeof_mii_packet_t) {..<32}" by (auto simp: inj_on_def)
  then show "card (pool_at base) = 32" by (simp add: pool_at_def card_image)
  show "finite (pool_at base)" by (simp add: pool_at_def)
qed

lemma pool_word: "pool_ok base \<Longrightarrow> b \<in> pool_at base \<Longrightarrow> uint (of_int b :: u32) = b"
  using pool_range [of base b] by (simp add: unsigned_of_int take_bit_int_eq_self)

section \<open>The invariant\<close>

definition stock :: "rgmii_rx \<Rightarrow> addr multiset" where
  "stock s = mset (free_items (rg_free s)) + mset (rg_lld s 0) + mset (rg_lld s 1) +
     mset (used_items 32 (rg_lp s)) + mset (used_items 32 (rg_hp s))"

text \<open>How many clients hold a buffer.\<close>

definition holders :: "rx_client_state_t list \<Rightarrow> addr \<Rightarrow> nat" where
  "holders cs b = held_at 16 cs (of_int b)"

text \<open>\<open>X\<close> are the buffers in hand.\<close>

definition owned :: "addr \<Rightarrow> addr multiset \<Rightarrow> rx_client_state_t list \<Rightarrow> mem \<Rightarrow> bool" where
  "owned base st cs m \<longleftrightarrow> set_mset st \<subseteq> pool_at base \<and>
     (\<forall>b\<in>pool_at base. count st b = (if holders cs b = 0 then 1 else 0) \<and>
       (holders cs b \<noteq> 0 \<longrightarrow> holders cs b = unat (getf m b tcount_f) + 1)) \<and>
     (\<forall>x. held_at 16 cs x \<noteq> 0 \<longrightarrow> uint x \<in> pool_at base)"

definition rgmii_inv_at :: "addr \<Rightarrow> addr multiset \<Rightarrow> rgmii_rx \<Rightarrow> bool" where
  "rgmii_inv_at base X s \<longleftrightarrow> pool_ok base \<and> free_ok 32 (rg_free s) \<and> used_ok 32 (rg_lp s) \<and> used_ok 32 (rg_hp s) \<and>
     (\<forall>c\<in>set (rg_clients s). client_ok 16 c) \<and> length (rg_clients s) < 2 ^ 32 \<and>
     owned base (stock s + X) (rg_clients s) (rg_mem s)"

abbreviation rgmii_inv :: "addr \<Rightarrow> rgmii_rx \<Rightarrow> bool" where
  "rgmii_inv base \<equiv> rgmii_inv_at base {#}"

lemma owned_count: "owned base st cs m \<Longrightarrow> count st b \<le> 1"
proof -
  assume o: "owned base st cs m"
  show "count st b \<le> 1"
  proof (cases "b \<in> pool_at base")
    case True
    then show ?thesis using o by (auto simp: owned_def)
  next
    case False
    then have "b \<notin># st" using o by (auto simp: owned_def)
    then show ?thesis by (simp add: not_in_iff)
  qed
qed

lemma owned_size: "owned base st cs m \<Longrightarrow> size st \<le> 32"
proof -
  assume o: "owned base st cs m"
  have "size st = (\<Sum>b\<in>set_mset st. count st b)" by (simp add: size_multiset_overloaded_eq)
  also have "\<dots> \<le> (\<Sum>b\<in>set_mset st. 1)" using owned_count [OF o] by (intro sum_mono) auto
  also have "\<dots> \<le> card (pool_at base)" using card_mono [OF card_pool(1) [of base], of "set_mset st"] o by (simp add: owned_def)
  finally show ?thesis by (simp add: card_pool)
qed

lemma inv_size: "rgmii_inv_at base X s \<Longrightarrow> size (stock s + X) \<le> 32"
  using owned_size [of base "stock s + X" "rg_clients s" "rg_mem s"] by (simp add: rgmii_inv_at_def)

lemma inv_hand:
  assumes "rgmii_inv_at base (add_mset b X) s"
  shows "b \<in> pool_at base" "b \<noteq> 0" "b \<notin># stock s + X" "holders (rg_clients s) b = 0"
proof -
  have o: "owned base (stock s + add_mset b X) (rg_clients s) (rg_mem s)" "pool_ok base"
    using assms by (auto simp: rgmii_inv_at_def)
  show p: "b \<in> pool_at base" using o by (auto simp: owned_def)
  show "b \<noteq> 0" using pool_range [OF o(2) p] by simp
  have "count (stock s + add_mset b X) b \<le> 1" using owned_count [OF o(1)] .
  then show "b \<notin># stock s + X" by (simp add: not_in_iff)
  show "holders (rg_clients s) b = 0" using o(1) p by (auto simp: owned_def split: if_splits)
qed

text \<open>Operations that only move buffers: everything but the places is kept.\<close>

lemma inv_move:
  assumes "rgmii_inv_at base X s" "stock s' + Y = stock s + X" "rg_clients s' = rg_clients s" "rg_mem s' = rg_mem s"
    and "free_ok 32 (rg_free s')" "used_ok 32 (rg_lp s')" "used_ok 32 (rg_hp s')"
  shows "rgmii_inv_at base Y s'"
  using assms by (simp add: rgmii_inv_at_def)

lemma inv_mem:
  assumes "rgmii_inv_at base X s" "\<And>b. b \<in> pool_at base \<Longrightarrow> b \<notin># stock s + X \<Longrightarrow> getf m b tcount_f = getf (rg_mem s) b tcount_f"
  shows "rgmii_inv_at base X (s\<lparr>rg_mem := m\<rparr>)"
proof -
  have "b \<notin># stock s + X" if "b \<in> pool_at base" "holders (rg_clients s) b \<noteq> 0" for b
    using assms(1) that by (auto simp: rgmii_inv_at_def owned_def not_in_iff)
  then have "owned base (stock s + X) (rg_clients s) m"
    using assms by (auto simp: rgmii_inv_at_def owned_def)
  then show ?thesis using assms(1) by (simp add: rgmii_inv_at_def stock_def)
qed

section \<open>Moves\<close>

lemma take_free_inv:
  assumes "rgmii_inv_at base X s" "take_free s = (b, s')"
  shows "b = 0 \<and> s' = s \<and> free_items (rg_free s) = [] \<or>
    b \<noteq> 0 \<and> rgmii_inv_at base (add_mset b X) s' \<and> rg_clients s' = rg_clients s \<and> rg_mem s' = rg_mem s \<and>
      rg_lld s' = rg_lld s \<and> length (free_items (rg_free s)) = length (free_items (rg_free s')) + 1"
proof -
  have ok: "free_ok 32 (rg_free s)" using assms(1) by (simp add: rgmii_inv_at_def)
  show ?thesis
  proof (cases "free_items (rg_free s) = []")
    case True
    then show ?thesis using assms(2) free_take_items(1) [OF ok] by (simp add: take_free_def)
  next
    case False
    then obtain f' where f': "buffers_free_take (rg_free s) = (last (free_items (rg_free s)), f')" "free_ok 32 f'"
      "free_items (rg_free s) = free_items f' @ [last (free_items (rg_free s))]" "last (free_items (rg_free s)) \<noteq> 0"
      using free_take_items(2) [OF ok] by blast
    then have s': "b = last (free_items (rg_free s))" "s' = s\<lparr>rg_free := f'\<rparr>" using assms(2) by (auto simp: take_free_def)
    have "mset (free_items (rg_free s)) = mset (free_items f') + {#b#}" by (subst f'(3)) (simp add: s'(1))
    then have "stock s' + add_mset b X = stock s + X" by (simp add: stock_def s'(2))
    then have "rgmii_inv_at base (add_mset b X) s'"
      using assms(1) f'(2) by (intro inv_move [OF assms(1)]) (auto simp: s'(2) rgmii_inv_at_def)
    moreover have "length (free_items (rg_free s)) = length (free_items f') + 1" by (subst f'(3)) simp
    ultimately show ?thesis using f'(4) s' by simp
  qed
qed

lemma free_buffer_inv:
  assumes "rgmii_inv_at base (add_mset b X) s"
  shows "rgmii_inv_at base X (free_buffer b s)"
proof -
  have ok: "free_ok 32 (rg_free s)" using assms by (simp add: rgmii_inv_at_def)
  have "size (stock s) < 32" using inv_size [OF assms] by simp
  then have r: "length (free_items (rg_free s)) < 32" by (simp add: stock_def)
  show ?thesis
    using free_add_items [OF ok r inv_hand(2) [OF assms]] assms
    by (intro inv_move [OF assms]) (auto simp: free_buffer_def stock_def rgmii_inv_at_def)
qed

lemma give_lld_inv:
  assumes "rgmii_inv_at base (add_mset b X) s" "k < 2"
  shows "rgmii_inv_at base X (give_lld k b s)"
proof (rule inv_move [OF assms(1)])
  have "k = 0 \<or> k = 1" using assms(2) by auto
  then show "stock (give_lld k b s) + X = stock s + add_mset b X" by (auto simp: give_lld_def stock_def)
qed (use assms(1) in \<open>simp_all add: give_lld_def rgmii_inv_at_def\<close>)

lemma from_lld_inv:
  assumes "rgmii_inv_at base X s" "k < 2" "b \<in> set (rg_lld s k)"
  shows "rgmii_inv_at base (add_mset b X) (s\<lparr>rg_lld := (rg_lld s)(k := remove1 b (rg_lld s k))\<rparr>)"
proof (rule inv_move [OF assms(1)])
  have k: "k = 0 \<or> k = 1" using assms(2) by auto
  have "add_mset b (mset (rg_lld s k) - {#b#}) = mset (rg_lld s k)" using assms(3) by simp
  then show "stock (s\<lparr>rg_lld := (rg_lld s)(k := remove1 b (rg_lld s k))\<rparr>) + add_mset b X = stock s + X"
    using k by (auto simp: stock_def)
qed (use assms(1) in \<open>simp_all add: rgmii_inv_at_def\<close>)

lemma lp_add_inv:
  assumes "rgmii_inv_at base (add_mset b X) s"
  shows "rgmii_inv_at base X (s\<lparr>rg_lp := buffers_used_add (rg_lp s) b 32\<rparr>)"
proof -
  have ok: "used_ok 32 (rg_lp s)" using assms by (simp add: rgmii_inv_at_def)
  have "used_count (rg_lp s) < 32" using inv_size [OF assms] by (simp add: stock_def)
  note a = used_add_items [OF ok this, of b]
  show ?thesis using a assms by (intro inv_move [OF assms]) (auto simp: stock_def rgmii_inv_at_def)
qed

lemma hp_add_inv:
  assumes "rgmii_inv_at base (add_mset b X) s"
  shows "rgmii_inv_at base X (s\<lparr>rg_hp := buffers_used_add (rg_hp s) b 32\<rparr>)"
proof -
  have ok: "used_ok 32 (rg_hp s)" using assms by (simp add: rgmii_inv_at_def)
  have "used_count (rg_hp s) < 32" using inv_size [OF assms] by (simp add: stock_def)
  note a = used_add_items [OF ok this, of b]
  show ?thesis using a assms by (intro inv_move [OF assms]) (auto simp: stock_def rgmii_inv_at_def)
qed

lemma mset_hd_tl: "xs \<noteq> [] \<Longrightarrow> add_mset (hd xs) (mset (tl xs)) = mset xs"
  by (cases xs) auto

lemma lp_take_inv:
  assumes "rgmii_inv_at base X s" "\<not> buffers_used_empty (rg_lp s)"
  obtains b lp where "buffers_used_take (rg_lp s) 32 = (b, lp)" "b = hd (used_items 32 (rg_lp s))"
    "rgmii_inv_at base (add_mset b X) (s\<lparr>rg_lp := lp\<rparr>)"
proof -
  have ok: "used_ok 32 (rg_lp s)" and ne: "used_items 32 (rg_lp s) \<noteq> []"
    using assms by (simp_all add: rgmii_inv_at_def used_empty_items [of _ 32])
  obtain u' where u': "buffers_used_take (rg_lp s) 32 = (hd (used_items 32 (rg_lp s)), u')" "used_ok 32 u'"
    "used_items 32 u' = tl (used_items 32 (rg_lp s))"
    using used_take_items [OF ok ne] by auto
  have "rgmii_inv_at base (add_mset (hd (used_items 32 (rg_lp s))) X) (s\<lparr>rg_lp := u'\<rparr>)"
    using u' assms(1) mset_hd_tl [OF ne]
    by (intro inv_move [OF assms(1)]) (auto simp: stock_def rgmii_inv_at_def)
  then show ?thesis using that u'(1) by blast
qed

lemma hp_take_inv:
  assumes "rgmii_inv_at base X s" "\<not> buffers_used_empty (rg_hp s)"
  obtains b hp where "buffers_used_take (rg_hp s) 32 = (b, hp)" "b = hd (used_items 32 (rg_hp s))"
    "rgmii_inv_at base (add_mset b X) (s\<lparr>rg_hp := hp\<rparr>)"
proof -
  have ok: "used_ok 32 (rg_hp s)" and ne: "used_items 32 (rg_hp s) \<noteq> []"
    using assms by (simp_all add: rgmii_inv_at_def used_empty_items [of _ 32])
  obtain u' where u': "buffers_used_take (rg_hp s) 32 = (hd (used_items 32 (rg_hp s)), u')" "used_ok 32 u'"
    "used_items 32 u' = tl (used_items 32 (rg_hp s))"
    using used_take_items [OF ok ne] by auto
  have "rgmii_inv_at base (add_mset (hd (used_items 32 (rg_hp s))) X) (s\<lparr>rg_hp := u'\<rparr>)"
    using u' assms(1) mset_hd_tl [OF ne]
    by (intro inv_move [OF assms(1)]) (auto simp: stock_def rgmii_inv_at_def)
  then show ?thesis using that u'(1) by blast
qed

section \<open>The managers\<close>

lemma setf_other_pool:
  assumes "b \<in> pool_at base" "b' \<in> pool_at base" "b \<noteq> b'"
  shows "getf (setf m b f v) b' g = getf m b' g"
  using pool_apart [OF assms] by (intro getf_setf_apart) auto

text \<open>Writing the header of a buffer in hand.\<close>

lemma inv_setf:
  assumes "rgmii_inv_at base (add_mset b X) s"
  shows "rgmii_inv_at base (add_mset b X) (s\<lparr>rg_mem := setf (rg_mem s) b f v\<rparr>)"
proof (rule inv_mem [OF assms])
  fix b' assume "b' \<in> pool_at base" "b' \<notin># stock s + add_mset b X"
  then have "b \<noteq> b'" by auto
  then show "getf (setf (rg_mem s) b f v) b' tcount_f = getf (rg_mem s) b' tcount_f"
    using setf_other_pool [OF inv_hand(1) [OF assms] \<open>b' \<in> pool_at base\<close>] by simp
qed

lemma file_packet_inv:
  assumes "rgmii_inv_at base (add_mset b X) s"
  shows "rgmii_inv_at base X (file_packet table b s)"
proof -
  obtain r d where l: "mii_macaddr_hash_lookup table (rg_mem s (pkt_data b)) (rg_mem s (pkt_data b + 4) AND 0xffff)
      (getf (rg_mem s) b filter_data_f) = (r, d)" by fastforce
  let ?s1 = "s\<lparr>rg_mem := setf (rg_mem s) b filter_data_f d\<rparr>"
  have i1: "rgmii_inv_at base (add_mset b X) ?s1" using assms by (rule inv_setf)
  have i2: "rgmii_inv_at base (add_mset b X) (?s1\<lparr>rg_mem := setf (rg_mem ?s1) b filter_result_f r\<rparr>)"
    using i1 by (rule inv_setf)
  show ?thesis
    unfolding file_packet_def Let_def l prod.case
    using free_buffer_inv [OF i1] lp_add_inv [OF i2] hp_add_inv [OF i2] by simp
qed

lemma inv_hash: "rgmii_inv_at base X s \<Longrightarrow> rgmii_inv_at base X (s\<lparr>rg_hash := h\<rparr>)"
  by (simp add: rgmii_inv_at_def stock_def)

lemma manager_inv:
  assumes "rgmii_inv base s" "k < 2" "\<And>b. received = Some b \<Longrightarrow> b \<in> set (rg_lld s k)"
  shows "rgmii_inv base (rgmii_buffer_manager k received s)"
proof (cases received)
  case None
  then show ?thesis using inv_hash [OF assms(1)] by (simp add: rgmii_buffer_manager_def mii_macaddr_get_hash_table_def)
next
  case (Some b)
  define h where "h = snd (mii_macaddr_get_hash_table k (rg_hash s))"
  let ?s1 = "s\<lparr>rg_hash := h, rg_lld := (rg_lld s)(k := remove1 b (rg_lld s k))\<rparr>"
  have i1: "rgmii_inv_at base {#b#} ?s1"
    using from_lld_inv [OF inv_hash [OF assms(1), of h] assms(2), of b] assms(3) [OF Some] by simp
  obtain b' s2 where t: "take_free ?s1 = (b', s2)" by fastforce
  have "rgmii_inv base (if b' \<noteq> 0 then file_packet (hs_table (rg_hash s)) b (give_lld k b' s2) else give_lld k b s2)"
    using take_free_inv [OF i1 t] give_lld_inv [OF i1 assms(2)]
      file_packet_inv [of base b "{#}" "give_lld k b' s2"] give_lld_inv [of base b' "{#b#}" s2 k] assms(2)
    by (auto simp: add_mset_commute)
  then show ?thesis
    using t Some by (simp add: rgmii_buffer_manager_def mii_macaddr_get_hash_table_def h_def)
qed

lemma manager_start_inv:
  assumes "rgmii_inv_at base X s" "k < 2" "2 \<le> length (free_items (rg_free s))"
  shows "rgmii_inv_at base X (manager_start k s)"
    "length (free_items (rg_free (manager_start k s))) + 2 = length (free_items (rg_free s))"
proof -
  obtain b1 s1 where t1: "take_free s = (b1, s1)" by fastforce
  obtain b2 s2 where t2: "take_free (give_lld k b1 s1) = (b2, s2)" by fastforce
  have i1: "rgmii_inv_at base (add_mset b1 X) s1" "length (free_items (rg_free s)) = length (free_items (rg_free s1)) + 1"
    using take_free_inv [OF assms(1) t1] assms(3) by auto
  have i2: "rgmii_inv_at base X (give_lld k b1 s1)" using give_lld_inv [OF i1(1) assms(2)] .
  have f: "rg_free (give_lld k b s) = rg_free s" for b s by (simp add: give_lld_def)
  have "free_items (rg_free (give_lld k b1 s1)) \<noteq> []" using i1(2) assms(3) by (auto simp: f)
  then have i3: "rgmii_inv_at base (add_mset b2 X) s2" "length (free_items (rg_free s1)) = length (free_items (rg_free s2)) + 1"
    using take_free_inv [OF i2 t2] by (auto simp: f)
  show "rgmii_inv_at base X (manager_start k s)"
    using give_lld_inv [OF i3(1) assms(2)] t1 t2 by (simp add: manager_start_def)
  show "length (free_items (rg_free (manager_start k s))) + 2 = length (free_items (rg_free s))"
    using i1(2) i3(2) t1 t2 by (simp add: manager_start_def f)
qed

section \<open>The clients\<close>

interpretation rgmii_ring: fifo "ring_queue 16" "client_ok 16" "ring_room 16" "\<lambda>_. True" "ring_push 16" "ring_pop 16" ring_front
  using ring_push_queue [of 16] ring_pop_queue(2) [of 16] ring_pop_tl [of 16] ring_front_queue [of 16] by unfold_locales simp_all

lemma wrap_16: "unat w < 16 \<Longrightarrow> (if w + 1 \<ge> 16 then 0 else w + 1) = increment_and_wrap_to_zero w 16" for w :: u32
proof -
  assume "unat w < 16"
  then have u: "unat (w + 1) = unat w + 1" by (simp add: unat_word_ariths)
  then have "w + 1 \<le> 16" using \<open>unat w < 16\<close> by (simp add: word_le_nat_alt)
  then show ?thesis by (auto simp: increment_and_wrap_to_zero_def)
qed

lemma offer_rgmii_fold:
  assumes "\<forall>c\<in>set cs. client_ok 16 c" "k \<le> length cs"
  shows "fold (offer_client_rgmii m buf) [0..<k] (0, cs, []) =
     (length (filter (takes_at 16 m buf cs) [0..<k]), offer_upto_at 16 m buf (of_int buf) k cs, filter (takes_at 16 m buf cs) [0..<k])"
proof (rule offer_at_fold [where P = "client_ok 16", OF _ assms])
  fix i t and cs :: "rx_client_state_t list" and ready
  assume "client_ok 16 (cs ! i)"
  then have w: "unat (rc_wr_index (cs ! i)) < 16" by (simp add: client_ok_def)
  show "offer_client_rgmii m buf i (t, cs, ready) =
     (if takes_at 16 m buf cs i then (t + 1, cs[i := offered_at 16 m buf (of_int buf) i (cs ! i)], ready @ [i])
      else (t, cs[i := offered_at 16 m buf (of_int buf) i (cs ! i)], ready))"
    using wrap_16 [OF w]
    by (simp add: offer_client_rgmii_def takes_at_def offered_at_def ring_room_def ring_push_def Let_def)
qed

text \<open>Clients that come to hold the buffer in hand \<open>t\<close> times more, and nothing else.\<close>

lemma inv_clients:
  assumes inv: "rgmii_inv_at base (add_mset b X) s"
    and ok: "\<forall>c\<in>set cs. client_ok 16 c" "length cs = length (rg_clients s)"
    and held: "\<And>y. held_at 16 cs y = held_at 16 (rg_clients s) y + (if y = of_int b then t else 0)"
  shows "t = 0 \<Longrightarrow> rgmii_inv_at base (add_mset b X) (s\<lparr>rg_clients := cs\<rparr>)"
    "unat v + 1 = t \<Longrightarrow> rgmii_inv_at base X (s\<lparr>rg_clients := cs, rg_mem := setf (rg_mem s) b tcount_f v\<rparr>)"
proof -
  have p: "pool_ok base" "b \<in> pool_at base" "holders (rg_clients s) b = 0" "b \<notin># stock s + X"
    using inv inv_hand [OF inv] by (auto simp: rgmii_inv_at_def)
  have o: "owned base (stock s + add_mset b X) (rg_clients s) (rg_mem s)" using inv by (simp add: rgmii_inv_at_def)
  have inj: "of_int b' = (of_int b :: u32) \<longleftrightarrow> b' = b" if "b' \<in> pool_at base" for b'
    using pool_word [OF p(1)] that p(2) by metis
  then have h: "holders cs b' = holders (rg_clients s) b' + (if b' = b then t else 0)" if "b' \<in> pool_at base" for b'
    using held that by (simp add: holders_def)
  have mem: "held_at 16 cs x \<noteq> 0 \<Longrightarrow> uint x \<in> pool_at base" for x
    using held [of x] o p by (auto simp: owned_def pool_word split: if_splits)
  show "rgmii_inv_at base (add_mset b X) (s\<lparr>rg_clients := cs\<rparr>)" if "t = 0"
    using inv ok mem h that by (auto simp: rgmii_inv_at_def owned_def stock_def)
  show "rgmii_inv_at base X (s\<lparr>rg_clients := cs, rg_mem := setf (rg_mem s) b tcount_f v\<rparr>)"
    if t: "unat v + 1 = t"
  proof -
    let ?m = "setf (rg_mem s) b tcount_f v"
    have "count (stock s + X) b' = (if holders cs b' = 0 then 1 else 0) \<and>
        (holders cs b' \<noteq> 0 \<longrightarrow> holders cs b' = unat (getf ?m b' tcount_f) + 1)" if b': "b' \<in> pool_at base" for b'
    proof (cases "b' = b")
      case True
      then show ?thesis using h [OF b'] p(3,4) t by (auto simp: not_in_iff)
    next
      case False
      then have "getf ?m b' tcount_f = getf (rg_mem s) b' tcount_f" using setf_other_pool [OF p(2) b'] by simp
      moreover have "holders cs b' = holders (rg_clients s) b'" using h [OF b'] False by simp
      moreover have "count (stock s + X) b' = count (stock s + add_mset b X) b'" using False by simp
      moreover have "count (stock s + add_mset b X) b' = (if holders (rg_clients s) b' = 0 then 1 else 0)"
        "holders (rg_clients s) b' \<noteq> 0 \<longrightarrow> holders (rg_clients s) b' = unat (getf (rg_mem s) b' tcount_f) + 1"
        using o b' unfolding owned_def by blast+
      ultimately show ?thesis by (simp del: count_union)
    qed
    moreover have "set_mset (stock s + X) \<subseteq> pool_at base" using o by (auto simp: owned_def)
    ultimately have "owned base (stock s + X) cs ?m" using mem unfolding owned_def by blast
    then show ?thesis using inv ok by (simp add: rgmii_inv_at_def stock_def)
  qed
qed

lemma tcount_word: "0 < t \<Longrightarrow> t < 2 ^ 32 \<Longrightarrow> unat (of_nat (t - 1) :: u32) + 1 = t"
  by (subst unat_of_nat) simp

lemma inv_ready: "rgmii_inv_at base X s \<Longrightarrow> rgmii_inv_at base X (s\<lparr>rg_ready := r\<rparr>)"
  by (simp add: rgmii_inv_at_def stock_def)

text \<open>The outcomes of offering a packet.\<close>

lemma handle_incoming_cases:
  assumes "\<not> buffers_used_empty (rg_lp s)" "buffers_used_take (rg_lp s) 32 = (b, lp)"
    and "getf (rg_mem s) b filter_result_f \<noteq> 0"
    and "fold (offer_client_rgmii (rg_mem s) b) [0..<length (rg_clients s)] (0, rg_clients s, []) = (t, cs, rdy)"
  shows "t \<noteq> 0 \<Longrightarrow> handle_incoming_packet_rgmii s = s\<lparr>rg_lp := lp, rg_clients := cs,
        rg_mem := setf (rg_mem s) b tcount_f (of_nat (t - 1)), rg_ready := rg_ready s @ rdy\<rparr>"
    "t = 0 \<Longrightarrow> handle_incoming_packet_rgmii s = free_buffer b (s\<lparr>rg_lp := lp, rg_clients := cs, rg_ready := rg_ready s @ rdy\<rparr>)"
  using assms by (simp_all add: handle_incoming_packet_rgmii_def)

lemma handle_incoming_rgmii_inv:
  assumes "rgmii_inv base s"
  shows "rgmii_inv base (handle_incoming_packet_rgmii s)"
proof (cases "buffers_used_empty (rg_lp s)")
  case True
  then show ?thesis using assms by (simp add: handle_incoming_packet_rgmii_def)
next
  case ne: False
  obtain b lp where t: "buffers_used_take (rg_lp s) 32 = (b, lp)" and i: "rgmii_inv_at base {#b#} (s\<lparr>rg_lp := lp\<rparr>)"
    using lp_take_inv [OF assms ne] by blast
  let ?s = "s\<lparr>rg_lp := lp\<rparr>" and ?m = "rg_mem s" and ?cs = "rg_clients s" and ?n = "length (rg_clients s)"
  have ok: "\<forall>c\<in>set ?cs. client_ok 16 c" "?n < 2 ^ 32" using assms by (simp_all add: rgmii_inv_at_def)
  let ?t = "length (filter (takes_at 16 ?m b ?cs) [0..<?n])" and ?off = "offer_upto_at 16 ?m b (of_int b) ?n ?cs"
  have off: "\<forall>c\<in>set ?off. client_ok 16 c" "length ?off = length (rg_clients ?s)"
    using ok(1) offered_at_queue(3) by (auto simp: offer_upto_at_def)
  have held: "held_at 16 ?off y = held_at 16 (rg_clients ?s) y + (if y = of_int b then ?t else 0)" for y
    using offer_upto_held_at [of ?n ?cs 16 ?m b "of_int b" y] ok(1) by simp
  have tn: "?t \<le> ?n" by (metis length_filter_le length_upt minus_nat.diff_0)
  then have t32: "?t < 2 ^ 32" using ok(2) by linarith
  have i0: "rgmii_inv_at base {#b#} (?s\<lparr>rg_clients := ?cs\<rparr>)" using i by simp
  have r: "free_buffer b (s\<lparr>rg_ready := r\<rparr>) = (free_buffer b s)\<lparr>rg_ready := r\<rparr>" for r and s :: rgmii_rx
    by (simp add: free_buffer_def)
  show ?thesis
  proof (cases "getf ?m b filter_result_f \<noteq> 0")
    case False
    then show ?thesis
      using ne t free_buffer_inv [OF i0]
      by (simp add: handle_incoming_packet_rgmii_def Let_def r inv_ready)
  next
    case True
    have f: "fold (offer_client_rgmii ?m b) [0..<?n] (0, ?cs, []) = (?t, ?off, filter (takes_at 16 ?m b ?cs) [0..<?n])"
      by (rule offer_rgmii_fold [OF ok(1)]) simp
    show ?thesis
    proof (cases "?t = 0")
      case z: True
      have "rgmii_inv base (free_buffer b (?s\<lparr>rg_clients := ?off\<rparr>))"
        using free_buffer_inv [OF inv_clients(1) [OF i off held z]] .
      then show ?thesis
        unfolding handle_incoming_cases(2) [OF ne t True f z] by (simp add: r inv_ready)
    next
      case nz: False
      then have "0 < ?t" by blast
      then have "rgmii_inv base (?s\<lparr>rg_clients := ?off, rg_mem := setf (rg_mem ?s) b tcount_f (of_nat (?t - 1))\<rparr>)"
        using t32 by (intro inv_clients(2) [OF i off held] tcount_word)
      then have "rgmii_inv base (?s\<lparr>rg_clients := ?off, rg_mem := setf ?m b tcount_f (of_nat (?t - 1)),
          rg_ready := rg_ready s @ filter (takes_at 16 ?m b ?cs) [0..<?n]\<rparr>)"
        by (intro inv_ready) simp
      then show ?thesis unfolding handle_incoming_cases(1) [OF ne t True f nz] .
    qed
  qed
qed

end
