(* ===== verification/Rgmii_Clients.thy ===== *)
theory Rgmii_Clients
  imports Rgmii_Inv
begin

text \<open>
  The clients of the RGMII MAC give buffers up, by reading or because the server drops their oldest packet; the
  loops over the high priority packets and over the clients; all keep every buffer in its one place.
\<close>

section \<open>Giving up the oldest packet\<close>

abbreviation packets_of :: "rgmii_rx \<Rightarrow> nat \<Rightarrow> u32 list" where
  "packets_of s i \<equiv> ring_queue 16 (rg_clients s ! i)"

lemma inv_ring: "rgmii_inv_at base X s \<Longrightarrow> i < length (rg_clients s) \<Longrightarrow> client_ok 16 (rg_clients s ! i)"
  by (simp add: rgmii_inv_at_def)

lemma inv_held:
  assumes inv: "rgmii_inv_at base X s" and i: "i < length (rg_clients s)" and x: "x \<in> set (packets_of s i)"
  shows "uint x \<in> pool_at base" "uint x \<notin># stock s + X"
    "holders (rg_clients s) (uint x) = unat (getf (rg_mem s) (uint x) tcount_f) + 1"
proof -
  have h: "0 < held_at 16 (rg_clients s) x" by (rule held_at_member [OF i x])
  then show p: "uint x \<in> pool_at base" using inv by (auto simp: rgmii_inv_at_def owned_def)
  have "holders (rg_clients s) (uint x) \<noteq> 0" using h by (simp add: holders_def)
  then show "uint x \<notin># stock s + X" "holders (rg_clients s) (uint x) = unat (getf (rg_mem s) (uint x) tcount_f) + 1"
    using inv p by (auto simp: rgmii_inv_at_def owned_def not_in_iff)
qed

lemma inv_pop:
  assumes inv: "rgmii_inv_at base X s" and i: "i < length (rg_clients s)" and q: "packets_of s i \<noteq> []"
  defines "b \<equiv> oldest_buffer (rg_clients s ! i)" and "cs \<equiv> (rg_clients s)[i := ring_pop 16 (rg_clients s ! i)]"
  shows "hd (packets_of s i) = of_int b" "uint (hd (packets_of s i)) = b"
    "holders (rg_clients s) b = 1 \<Longrightarrow> rgmii_inv_at base (add_mset b X) (s\<lparr>rg_clients := cs\<rparr>)"
    "holders (rg_clients s) b \<noteq> 1 \<Longrightarrow>
       rgmii_inv_at base X (s\<lparr>rg_clients := cs, rg_mem := setf (rg_mem s) b tcount_f (getf (rg_mem s) b tcount_f - 1)\<rparr>)"
proof -
  let ?c = "rg_clients s ! i" and ?m = "setf (rg_mem s) b tcount_f (getf (rg_mem s) b tcount_f - 1)"
  have ok: "client_ok 16 ?c" by (rule inv_ring [OF inv i])
  note pop = ring_pop_queue [OF ok q, simplified]
  show hd: "uint (hd (packets_of s i)) = b" by (subst pop(1)) (simp add: b_def oldest_buffer_def)
  then show hd': "hd (packets_of s i) = of_int b" by (metis word_of_int_uint)
  have x: "hd (packets_of s i) \<in> set (packets_of s i)" using q by simp
  note in_pool = inv_held [OF inv i x, unfolded hd]
  have o: "owned base (stock s + X) (rg_clients s) (rg_mem s)" "pool_ok base" using inv by (auto simp: rgmii_inv_at_def)
  have held: "held_at 16 cs y + (if y = of_int b then 1 else 0) = held_at 16 (rg_clients s) y" for y
  proof -
    have "packets_of s i = of_int b # ring_queue 16 (ring_pop 16 ?c)"
      using pop(1) hd' by (metis list.sel(1))
    then show ?thesis using held_at_update [OF i, of 16 "ring_pop 16 ?c" y] unfolding cs_def by (simp split: if_splits)
  qed
  have inj: "of_int b' = (of_int b :: u32) \<longleftrightarrow> b' = b" if "b' \<in> pool_at base" for b'
    using pool_word [OF o(2)] that in_pool(1) by metis
  have h: "holders cs b' + (if b' = b then 1 else 0) = holders (rg_clients s) b'" if "b' \<in> pool_at base" for b'
    using held [of "of_int b'"] inj [OF that] by (simp add: holders_def)
  have mem: "held_at 16 cs y \<noteq> 0 \<Longrightarrow> uint y \<in> pool_at base" for y
    using held [of y] o by (auto simp: owned_def split: if_splits)
  have cs: "\<forall>c\<in>set cs. client_ok 16 c" "length cs = length (rg_clients s)"
    using inv pop(2) set_update_subset_insert [of "rg_clients s" i "ring_pop 16 ?c"]
    by (auto simp: cs_def rgmii_inv_at_def)
  have old: "count (stock s + X) b' = (if holders (rg_clients s) b' = 0 then 1 else 0)"
    "holders (rg_clients s) b' \<noteq> 0 \<longrightarrow> holders (rg_clients s) b' = unat (getf (rg_mem s) b' tcount_f) + 1"
    if "b' \<in> pool_at base" for b'
    using o(1) that unfolding owned_def by blast+
  have sub: "set_mset (stock s + X) \<subseteq> pool_at base" using o(1) by (auto simp: owned_def)
  show "rgmii_inv_at base (add_mset b X) (s\<lparr>rg_clients := cs\<rparr>)" if one: "holders (rg_clients s) b = 1"
  proof -
    have "count (stock s + add_mset b X) b' = (if holders cs b' = 0 then 1 else 0) \<and>
        (holders cs b' \<noteq> 0 \<longrightarrow> holders cs b' = unat (getf (rg_mem s) b' tcount_f) + 1)" if b': "b' \<in> pool_at base" for b'
      using old [OF b'] h [OF b'] one by (cases "b' = b") auto
    moreover have "set_mset (stock s + add_mset b X) \<subseteq> pool_at base" using sub in_pool(1) by auto
    ultimately have "owned base (stock s + add_mset b X) cs (rg_mem s)" using mem unfolding owned_def by blast
    then show ?thesis using inv cs by (simp add: rgmii_inv_at_def stock_def)
  qed
  show "rgmii_inv_at base X (s\<lparr>rg_clients := cs, rg_mem := ?m\<rparr>)" if more: "holders (rg_clients s) b \<noteq> 1"
  proof -
    have nz: "getf (rg_mem s) b tcount_f \<noteq> 0" using more in_pool(3) by auto
    then have dec: "unat (getf (rg_mem s) b tcount_f - 1) + 1 = unat (getf (rg_mem s) b tcount_f)"
      by (metis Suc_eq_plus1 gr0_conv_Suc unat_gt_0 unat_minus_one diff_Suc_1 )
    have "count (stock s + X) b' = (if holders cs b' = 0 then 1 else 0) \<and>
        (holders cs b' \<noteq> 0 \<longrightarrow> holders cs b' = unat (getf ?m b' tcount_f) + 1)" if b': "b' \<in> pool_at base" for b'
    proof (cases "b' = b")
      case True
      then show ?thesis using old [OF b'] h [OF b'] in_pool(3) nz dec by (auto simp: unat_eq_zero)
    next
      case False
      then have "getf ?m b' tcount_f = getf (rg_mem s) b' tcount_f"
        using setf_other_pool [OF in_pool(1) b'] by simp
      then show ?thesis using old [OF b'] h [OF b'] False by simp
    qed
    then have "owned base (stock s + X) cs ?m" using mem sub unfolding owned_def by blast
    then show ?thesis using inv cs by (simp add: rgmii_inv_at_def stock_def)
  qed
qed


text \<open>What the tasks write of a buffer that holds a frame is not the frame: its length, time and data stay.\<close>

definition keeps_frames :: "addr \<Rightarrow> mem \<Rightarrow> mem \<Rightarrow> bool" where
  "keeps_frames base m m' \<longleftrightarrow> (\<forall>b\<in>pool_at base. getf m' b length_f = getf m b length_f \<and>
     getf m' b timestamp_f = getf m b timestamp_f \<and> (\<forall>k. 0 \<le> k \<and> k < 1528 \<longrightarrow> m' (pkt_data b + k) = m (pkt_data b + k)))"

lemma keeps_frames_refl [simp]: "keeps_frames base m m"
  by (simp add: keeps_frames_def)

lemma keeps_frames_trans: "keeps_frames base m m' \<Longrightarrow> keeps_frames base m' m'' \<Longrightarrow> keeps_frames base m m''"
  by (auto simp: keeps_frames_def)

lemma keeps_frames_setf:
  assumes "b \<in> pool_at base" "f \<noteq> length_f" "f \<noteq> timestamp_f"
  shows "keeps_frames base m (setf m b f v)"
  unfolding keeps_frames_def
proof (intro ballI conjI allI impI)
  fix b' assume b': "b' \<in> pool_at base"
  show "getf (setf m b f v) b' length_f = getf m b' length_f" "getf (setf m b f v) b' timestamp_f = getf m b' timestamp_f"
    using setf_other_pool [OF assms(1) b', of m f v] assms(2,3) by (cases "b = b'"; simp)+
  fix k :: int assume k: "0 \<le> k \<and> k < 1528"
  have "pkt_data b' + k < b \<or> b + 40 \<le> pkt_data b' + k"
    using pool_apart [OF assms(1) b'] k by (cases "b = b'") (auto simp: pkt_data_def)
  then show "setf m b f v (pkt_data b' + k) = m (pkt_data b' + k)" by (rule setf_other)
qed

lemma keeps_packet_bytes:
  assumes "keeps_frames base m m'" "b \<in> pool_at base" "b mod 4 = 0" "unat (getf m b length_f) \<le> 1528"
  shows "packet_bytes m' b = packet_bytes m b"
proof -
  have "ldb m' (pkt_data b + int i) = ldb m (pkt_data b + int i)" if "i < 1528" for i
  proof -
    define j where "j = int i - int i mod 4"
    have a: "(pkt_data b + int i) - (pkt_data b + int i) mod 4 = pkt_data b + j"
      using assms(3) by (simp add: pkt_data_def j_def) presburger
    have "0 \<le> j" "j < 1528" using that by (simp_all add: j_def minus_mod_eq_mult_div)
    then have "m' (pkt_data b + j) = m (pkt_data b + j)" using assms(1,2) by (auto simp: keeps_frames_def)
    then show ?thesis by (simp only: ldb_def a)
  qed
  then show ?thesis using assms by (auto simp: packet_bytes_def ldbs_def keeps_frames_def)
qed

lemma pool_aligned: "pool_ok base \<Longrightarrow> b \<in> pool_at base \<Longrightarrow> b mod 4 = 0"
  by (auto simp: pool_ok_def pool_at_def)

text \<open>The state of the tasks beside the buffers and their clients.\<close>

definition same_rest :: "rgmii_rx \<Rightarrow> rgmii_rx \<Rightarrow> bool" where
  "same_rest s s' \<longleftrightarrow> rg_lp s' = rg_lp s \<and> rg_hp s' = rg_hp s \<and> rg_lld s' = rg_lld s \<and> rg_port s' = rg_port s \<and>
     rg_link s' = rg_link s \<and> rg_ready s' = rg_ready s \<and> rg_hp_out s' = rg_hp_out s"

lemma release_oldest_rgmii_inv:
  assumes inv: "rgmii_inv_at base X s" and i: "i < length (rg_clients s)" and q: "packets_of s i \<noteq> []"
  shows "rgmii_inv_at base X (release_oldest_rgmii i s)"
    "rg_clients (release_oldest_rgmii i s) = (rg_clients s)[i := ring_pop 16 (rg_clients s ! i)]"
    "keeps_frames base (rg_mem s) (rg_mem (release_oldest_rgmii i s))"
    "same_rest s (release_oldest_rgmii i s)"
proof -
  let ?c = "rg_clients s ! i" and ?b = "oldest_buffer (rg_clients s ! i)"
  let ?cs = "(rg_clients s)[i := ring_pop 16 ?c]" and ?t = "getf (rg_mem s) ?b tcount_f"
  have x: "hd (packets_of s i) \<in> set (packets_of s i)" using q by simp
  note p = inv_held [OF inv i x, unfolded inv_pop(2) [OF inv i q]]
  have "unat (rc_rd_index ?c) < 16" using inv_ring [OF inv i] by (simp add: client_ok_def)
  then have "rc_rd_index ?c < 16" by (simp add: word_less_nat_alt)
  then have c: "?c\<lparr>rc_rd_index := increment_and_wrap_power_of_2 (rc_rd_index ?c) RGMII_RX_CLIENT_QUEUE_SIZE\<rparr> = ring_pop 16 ?c"
    by (simp add: ring_pop_def wrap_schemes_agree)
  have r: "release_oldest_rgmii i s = (if ?t = 0 then free_buffer ?b (s\<lparr>rg_clients := ?cs\<rparr>)
      else s\<lparr>rg_clients := ?cs, rg_mem := setf (rg_mem s) ?b tcount_f (?t - 1)\<rparr>)"
    by (simp add: release_oldest_rgmii_def mii_get_and_dec_transmit_count_def free_buffer_def Let_def c)
  have one: "holders (rg_clients s) ?b = 1 \<longleftrightarrow> ?t = 0" using p(3) by (simp add: unat_eq_zero)
  show "rgmii_inv_at base X (release_oldest_rgmii i s)"
    using inv_pop(3,4) [OF inv i q] free_buffer_inv one by (simp add: r)
  show "rg_clients (release_oldest_rgmii i s) = ?cs" "same_rest s (release_oldest_rgmii i s)"
    "keeps_frames base (rg_mem s) (rg_mem (release_oldest_rgmii i s))"
    using keeps_frames_setf [OF p(1), of tcount_f] by (simp_all add: r free_buffer_def same_rest_def)
qed

lemma inv_client:
  assumes inv: "rgmii_inv_at base X s" and len: "length cs = length (rg_clients s)"
    and c: "\<And>i. i < length cs \<Longrightarrow> ring_queue 16 (cs ! i) = packets_of s i \<and> client_ok 16 (cs ! i)"
  shows "rgmii_inv_at base X (s\<lparr>rg_clients := cs\<rparr>)"
proof -
  have "map (ring_queue 16) cs = map (ring_queue 16) (rg_clients s)"
    using len c by (intro nth_equalityI) simp_all
  moreover have "held_at 16 ds j = sum_list (map (\<lambda>q. count_list q j) (map (ring_queue 16) ds))" for ds j
    by (simp add: held_at_def comp_def)
  ultimately have h: "held_at 16 cs = held_at 16 (rg_clients s)" by (auto simp only:)
  have "\<forall>c\<in>set cs. client_ok 16 c" using c by (auto simp: in_set_conv_nth)
  then show ?thesis using inv len by (simp add: rgmii_inv_at_def owned_def holders_def h stock_def)
qed

lemma drop_oldest_rgmii_inv:
  assumes inv: "rgmii_inv_at base X s" and i: "i < length (rg_clients s)"
  shows "rgmii_inv_at base X (drop_oldest_rgmii i s)"
    "length (rg_clients (drop_oldest_rgmii i s)) = length (rg_clients s)"
    "j < length (rg_clients s) \<Longrightarrow> packets_of (drop_oldest_rgmii i s) j = (if j = i then tl (packets_of s i) else packets_of s j)"
    "keeps_frames base (rg_mem s) (rg_mem (drop_oldest_rgmii i s))"
    "same_rest s (drop_oldest_rgmii i s)"
proof -
  have ok: "client_ok 16 (rg_clients s ! i)" by (rule inv_ring [OF inv i])
  have "rgmii_inv_at base X (drop_oldest_rgmii i s) \<and> length (rg_clients (drop_oldest_rgmii i s)) = length (rg_clients s) \<and>
    (\<forall>j<length (rg_clients s). packets_of (drop_oldest_rgmii i s) j = (if j = i then tl (packets_of s i) else packets_of s j)) \<and>
    keeps_frames base (rg_mem s) (rg_mem (drop_oldest_rgmii i s)) \<and> same_rest s (drop_oldest_rgmii i s)"
  proof (cases "packets_of s i = []")
    case True
    then show ?thesis using inv ring_has_packet [OF ok] by (simp add: drop_oldest_rgmii_def same_rest_def)
  next
    case False
    let ?s = "release_oldest_rgmii i s" and ?c = "ring_pop 16 (rg_clients s ! i)"
    note r = release_oldest_rgmii_inv [OF inv i False]
    let ?cs = "(rg_clients s)[i := ?c\<lparr>rc_dropped_pkt_cnt := rc_dropped_pkt_cnt ?c + 1\<rparr>]"
    have d: "drop_oldest_rgmii i s = ?s\<lparr>rg_clients := ?cs\<rparr>"
      using False ring_has_packet [OF ok] i by (simp add: drop_oldest_rgmii_def r(2) Let_def)
    have q: "ring_queue 16 (c\<lparr>rc_dropped_pkt_cnt := v\<rparr>) = ring_queue 16 c" "client_ok 16 (c\<lparr>rc_dropped_pkt_cnt := v\<rparr>) = client_ok 16 c"
      for c v by (simp_all add: ring_queue_def client_ok_def)
    have "rgmii_inv_at base X (?s\<lparr>rg_clients := ?cs\<rparr>)"
      using inv_ring [OF inv] ring_pop_queue(2) [OF ok False] i
      by (intro inv_client [OF r(1)]) (auto simp: r(2) nth_list_update q)
    then show ?thesis
      using r(3,4) i ring_pop_tl [OF ok False] by (auto simp: d nth_list_update q same_rest_def)
  qed
  then show "rgmii_inv_at base X (drop_oldest_rgmii i s)"
    "length (rg_clients (drop_oldest_rgmii i s)) = length (rg_clients s)"
    "j < length (rg_clients s) \<Longrightarrow> packets_of (drop_oldest_rgmii i s) j = (if j = i then tl (packets_of s i) else packets_of s j)"
    "keeps_frames base (rg_mem s) (rg_mem (drop_oldest_rgmii i s))"
    "same_rest s (drop_oldest_rgmii i s)" by blast+
qed

lemma drop_lp_packets_rgmii_inv:
  assumes inv: "rgmii_inv_at base X s"
  shows "rgmii_inv_at base X (drop_lp_packets_rgmii s)"
    "length (rg_clients (drop_lp_packets_rgmii s)) = length (rg_clients s)"
    "j < length (rg_clients s) \<Longrightarrow> packets_of (drop_lp_packets_rgmii s) j = tl (packets_of s j)"
    "keeps_frames base (rg_mem s) (rg_mem (drop_lp_packets_rgmii s))"
    "same_rest s (drop_lp_packets_rgmii s)"
proof -
  let ?N = "length (rg_clients s)" and ?f = "\<lambda>k. fold drop_oldest_rgmii [0..<k] s"
  have "rgmii_inv_at base X (?f k) \<and> length (rg_clients (?f k)) = ?N \<and>
      (\<forall>j<?N. packets_of (?f k) j = (if j < k then tl (packets_of s j) else packets_of s j)) \<and>
      keeps_frames base (rg_mem s) (rg_mem (?f k)) \<and> same_rest s (?f k)" if "k \<le> ?N" for k
    using that
  proof (induction k)
    case 0
    then show ?case using inv by (simp add: same_rest_def)
  next
    case (Suc k)
    then have "rgmii_inv_at base X (?f k)" "k < length (rg_clients (?f k))" by auto
    note d = drop_oldest_rgmii_inv [OF this]
    show ?case
      using Suc d keeps_frames_trans [OF _ d(4)] by (auto simp: less_Suc_eq same_rest_def)
  qed
  from this [of ?N] show "rgmii_inv_at base X (drop_lp_packets_rgmii s)"
    "length (rg_clients (drop_lp_packets_rgmii s)) = length (rg_clients s)"
    "j < length (rg_clients s) \<Longrightarrow> packets_of (drop_lp_packets_rgmii s) j = tl (packets_of s j)"
    "keeps_frames base (rg_mem s) (rg_mem (drop_lp_packets_rgmii s))"
    "same_rest s (drop_lp_packets_rgmii s)"
    by (simp_all add: drop_lp_packets_rgmii_def)
qed

section \<open>The high priority loop\<close>

definition hp_message_rgmii :: "rgmii_rx \<Rightarrow> addr \<Rightarrow> ethernet_packet_info_t \<times> u8 list" where
  "hp_message_rgmii s b = (packet_info_rgmii s b, sout_char_array (packet_bytes (rg_mem s) b))"

text \<open>One packet of the loop, in full.\<close>

definition hp_one :: "bool \<Rightarrow> rgmii_rx \<Rightarrow> rgmii_rx" where
  "hp_one hp_rx s = (let (b, hp) = buffers_used_take (rg_hp s) 32
     in free_buffer b (s\<lparr>rg_hp := hp, rg_hp_out := rg_hp_out s @ (if hp_rx then [hp_message_rgmii s b] else [])\<rparr>))"

lemma handle_hp_step:
  "handle_hp_packets_rgmii hp_rx s = (if buffers_used_empty (rg_hp s) then s else handle_hp_packets_rgmii hp_rx (hp_one hp_rx s))"
  by (subst handle_hp_packets_rgmii.simps)
    (auto simp: hp_one_def Let_def hp_message_rgmii_def packet_info_rgmii_def split: prod.split)

lemma hp_one_inv:
  assumes inv: "rgmii_inv_at base X s" and ne: "\<not> buffers_used_empty (rg_hp s)"
  shows "rgmii_inv_at base X (hp_one hp_rx s)"
    "used_items 32 (rg_hp s) = hd (used_items 32 (rg_hp s)) # used_items 32 (rg_hp (hp_one hp_rx s))"
    "rg_hp_out (hp_one hp_rx s) = rg_hp_out s @ (if hp_rx then [hp_message_rgmii s (hd (used_items 32 (rg_hp s)))] else [])"
    "rg_clients (hp_one hp_rx s) = rg_clients s" "rg_mem (hp_one hp_rx s) = rg_mem s" "rg_lp (hp_one hp_rx s) = rg_lp s"
    "rg_lld (hp_one hp_rx s) = rg_lld s" "rg_port (hp_one hp_rx s) = rg_port s" "rg_ready (hp_one hp_rx s) = rg_ready s"
    "free_items (rg_free (hp_one hp_rx s)) = free_items (rg_free s) @ [hd (used_items 32 (rg_hp s))]"
proof -
  have ok: "used_ok 32 (rg_hp s)" and ni: "used_items 32 (rg_hp s) \<noteq> []"
    using inv ne by (simp_all add: rgmii_inv_at_def used_empty_items [of _ 32])
  obtain u where u: "buffers_used_take (rg_hp s) 32 = (hd (used_items 32 (rg_hp s)), u)" "used_items 32 u = tl (used_items 32 (rg_hp s))"
    using used_take_items [OF ok ni] by auto
  let ?b = "hd (used_items 32 (rg_hp s))"
  have one: "hp_one hp_rx s = free_buffer ?b (s\<lparr>rg_hp := u, rg_hp_out := rg_hp_out s @ (if hp_rx then [hp_message_rgmii s ?b] else [])\<rparr>)"
    by (simp add: hp_one_def u)
  have "rgmii_inv_at base (add_mset ?b X) (s\<lparr>rg_hp := u\<rparr>)" using hp_take_inv [OF inv ne] u(1) by fastforce
  then have hand: "rgmii_inv_at base (add_mset ?b X) (s\<lparr>rg_hp := u, rg_hp_out := rg_hp_out s @ (if hp_rx then [hp_message_rgmii s ?b] else [])\<rparr>)"
    (is "rgmii_inv_at base _ ?s") by (simp add: rgmii_inv_at_def stock_def)
  then show "rgmii_inv_at base X (hp_one hp_rx s)" unfolding one by (rule free_buffer_inv)
  have "free_ok 32 (rg_free s)" "length (free_items (rg_free s)) < 32" "?b \<noteq> 0"
    using inv inv_size [OF hand] inv_hand(2) [OF hand] by (simp_all add: rgmii_inv_at_def stock_def)
  then show "free_items (rg_free (hp_one hp_rx s)) = free_items (rg_free s) @ [?b]"
    unfolding one by (simp add: free_buffer_def free_add_items)
qed (use used_take_items [of 32 "rg_hp s"] ne inv in
  \<open>auto simp: hp_one_def free_buffer_def used_empty_items [of _ 32] rgmii_inv_at_def\<close>)

lemma handle_hp_packets_inv:
  fixes hp_rx :: bool and s :: rgmii_rx
  assumes "rgmii_inv_at base X s"
  defines "s' \<equiv> handle_hp_packets_rgmii hp_rx s"
  shows "rgmii_inv_at base X s' \<and> used_items 32 (rg_hp s') = [] \<and>
    rg_hp_out s' = rg_hp_out s @ (if hp_rx then map (hp_message_rgmii s) (used_items 32 (rg_hp s)) else []) \<and>
    rg_clients s' = rg_clients s \<and> rg_mem s' = rg_mem s \<and> rg_lp s' = rg_lp s \<and> rg_lld s' = rg_lld s \<and>
    rg_port s' = rg_port s \<and> rg_ready s' = rg_ready s \<and>
    free_items (rg_free s') = free_items (rg_free s) @ used_items 32 (rg_hp s)"
  using assms(1) unfolding s'_def
proof (induction "length (used_items 32 (rg_hp s))" arbitrary: s)
  case 0
  then have e: "used_items 32 (rg_hp s) = []" by (simp add: used_items_def)
  then have "handle_hp_packets_rgmii hp_rx s = s" by (subst handle_hp_step) (simp add: used_empty_items [of _ 32])
  then show ?case using 0(2) e by simp
next
  case (Suc n)
  then have ne: "\<not> buffers_used_empty (rg_hp s)" by (auto simp: used_empty_items [of _ 32] used_items_def)
  note o = hp_one_inv [OF Suc.prems ne, where hp_rx = hp_rx]
  have n: "n = length (used_items 32 (rg_hp (hp_one hp_rx s)))" using Suc.hyps(2) o(2) by (metis length_Cons nat.inject)
  have m: "hp_message_rgmii (hp_one hp_rx s) = hp_message_rgmii s"
    by (simp add: fun_eq_iff hp_message_rgmii_def packet_info_rgmii_def o(5,8))
  have s: "handle_hp_packets_rgmii hp_rx s = handle_hp_packets_rgmii hp_rx (hp_one hp_rx s)" using ne by (subst handle_hp_step) simp
  have "map (hp_message_rgmii s) (used_items 32 (rg_hp s)) = hp_message_rgmii s (hd (used_items 32 (rg_hp s))) #
      map (hp_message_rgmii s) (used_items 32 (rg_hp (hp_one hp_rx s)))" by (subst o(2)) simp
  moreover have "[hd (used_items 32 (rg_hp s))] @ used_items 32 (rg_hp (hp_one hp_rx s)) = used_items 32 (rg_hp s)"
    using o(2) by simp
  ultimately show ?case using Suc.hyps(1) [OF n o(1)] o unfolding s m by auto
qed


end
