(* ===== verification/Rgmii_Run.thy ===== *)
theory Rgmii_Run
  imports Rgmii_Clients
begin

text \<open>
  The receive side of the RGMII MAC as a whole: its tasks, interleaved in any way within one mode of the link, and
  what each step does to the frames queued for the clients.
\<close>

section \<open>Offering a packet\<close>

definition takers :: "rgmii_rx \<Rightarrow> addr \<Rightarrow> nat list" where
  "takers s b = filter (takes_at 16 (rg_mem s) b (rg_clients s)) [0..<length (rg_clients s)]"

lemma handle_incoming_rgmii_effect:
  assumes inv: "rgmii_inv base s" and ne: "\<not> buffers_used_empty (rg_lp s)"
  defines "b \<equiv> hd (used_items 32 (rg_lp s))" and "s' \<equiv> handle_incoming_packet_rgmii s"
  shows "b \<in> pool_at base" "rg_clients s' = offer_upto_at 16 (rg_mem s) b (of_int b) (length (rg_clients s)) (rg_clients s)"
    "rg_ready s' = rg_ready s @ takers s b" "keeps_frames base (rg_mem s) (rg_mem s')"
    "used_items 32 (rg_lp s') = tl (used_items 32 (rg_lp s))"
    "rg_lld s' = rg_lld s" "rg_port s' = rg_port s" "rg_hp s' = rg_hp s" "rg_hp_out s' = rg_hp_out s"
proof -
  have okl: "used_ok 32 (rg_lp s)" and ni: "used_items 32 (rg_lp s) \<noteq> []"
    using inv ne by (simp_all add: rgmii_inv_at_def used_empty_items [of _ 32])
  obtain lp where t: "buffers_used_take (rg_lp s) 32 = (b, lp)" "used_items 32 lp = tl (used_items 32 (rg_lp s))"
    using used_take_items [OF okl ni] by (auto simp: b_def)
  have "b \<in># stock s" using ni by (simp add: b_def stock_def)
  then show p: "b \<in> pool_at base" using inv by (auto simp: rgmii_inv_at_def owned_def)
  let ?cs = "rg_clients s" and ?m = "rg_mem s" and ?n = "length (rg_clients s)"
  have ok: "\<forall>c\<in>set ?cs. client_ok 16 c" using inv by (simp add: rgmii_inv_at_def)
  have h: "handle_incoming_packet_rgmii s =
      (let s1 = s\<lparr>rg_lp := lp, rg_clients := offer_upto_at 16 ?m b (of_int b) ?n ?cs, rg_ready := rg_ready s @ takers s b\<rparr>
       in if length (takers s b) = 0 then free_buffer b s1
          else s1\<lparr>rg_mem := setf ?m b tcount_f (of_nat (length (takers s b) - 1))\<rparr>)"
  proof (cases "getf ?m b filter_result_f = 0")
    case False
    show ?thesis
      using offer_rgmii_fold [OF ok order_refl, of ?m b] ne t False
      by (simp add: handle_incoming_packet_rgmii_def takers_def Let_def)
  next
    case True
    then have w: "\<not> client_wants ?m b i c" for i c by (simp add: client_wants_def)
    then have "takers s b = []" "offer_upto_at 16 ?m b (of_int b) ?n ?cs = ?cs"
      by (simp_all add: takers_def takes_at_def offer_upto_at_def offered_at_def map_nth cong: if_cong)
    then show ?thesis using ne t True by (simp add: handle_incoming_packet_rgmii_def Let_def)
  qed
  show "rg_clients s' = offer_upto_at 16 ?m b (of_int b) ?n ?cs" "rg_ready s' = rg_ready s @ takers s b"
    "used_items 32 (rg_lp s') = tl (used_items 32 (rg_lp s))"
    "rg_lld s' = rg_lld s" "rg_port s' = rg_port s" "rg_hp s' = rg_hp s" "rg_hp_out s' = rg_hp_out s"
    using t(2) by (simp_all add: s'_def h Let_def free_buffer_def)
  show "keeps_frames base ?m (rg_mem s')"
    using keeps_frames_setf [OF p, of tcount_f] by (simp add: s'_def h Let_def free_buffer_def)
qed

section \<open>The managers and the configuration\<close>

lemma take_free_frame:
  "take_free s = (b, s') \<Longrightarrow> rg_clients s' = rg_clients s \<and> rg_mem s' = rg_mem s \<and> rg_lld s' = rg_lld s \<and> rg_port s' = rg_port s"
  by (auto simp: take_free_def split: prod.splits)

lemma file_packet_frame:
  "rg_clients (file_packet table b s) = rg_clients s" "rg_lld (file_packet table b s) = rg_lld s"
  "b \<in> pool_at base \<Longrightarrow> keeps_frames base (rg_mem s) (rg_mem (file_packet table b s))"
  using keeps_frames_setf [of b base] keeps_frames_trans [OF keeps_frames_setf [of b base] keeps_frames_setf [of b base]]
  by (auto simp: file_packet_def free_buffer_def Let_def split: prod.split)

lemma manager_frame:
  assumes inv: "rgmii_inv base s" and k: "k < 2" and r: "\<And>b. received = Some b \<Longrightarrow> b \<in> set (rg_lld s k)"
  shows "rg_clients (rgmii_buffer_manager k received s) = rg_clients s"
    "keeps_frames base (rg_mem s) (rg_mem (rgmii_buffer_manager k received s))"
    "length (rg_lld (rgmii_buffer_manager k received s) j) = length (rg_lld s j)"
proof -
  have p: "b \<in> pool_at base" if "received = Some b" for b
  proof -
    have "k = 0 \<or> k = 1" using k by auto
    then have "b \<in># stock s" using r [OF that] by (auto simp: stock_def)
    then show ?thesis using inv by (auto simp: rgmii_inv_at_def owned_def)
  qed
  have f: "keeps_frames base m (rg_mem (file_packet table b s2))" if "received = Some b" "rg_mem s2 = m" for table b s2 m
    using file_packet_frame(3) [OF p [OF that(1)], of s2 table] that(2) by simp
  show "rg_clients (rgmii_buffer_manager k received s) = rg_clients s"
    "keeps_frames base (rg_mem s) (rg_mem (rgmii_buffer_manager k received s))"
    by (auto intro!: f simp: rgmii_buffer_manager_def Let_def file_packet_frame give_lld_def split: option.split prod.split
        dest!: take_free_frame)
  have "0 < length (rg_lld s k)" if "received = Some b" for b using r [OF that] by (cases "rg_lld s k") auto
  then show "length (rg_lld (rgmii_buffer_manager k received s) j) = length (rg_lld s j)"
    using r by (auto simp: rgmii_buffer_manager_def Let_def file_packet_frame give_lld_def length_remove1
        split: option.split prod.split dest!: take_free_frame)
qed

lemma ethertype_ring:
  "client_ok n c \<Longrightarrow> client_ok n (del_ethertype_filter e c) \<and> ring_queue n (del_ethertype_filter e c) = ring_queue n c"
  "client_ok n c \<Longrightarrow> add_ethertype_filter e c = Some c' \<Longrightarrow> client_ok n c' \<and> ring_queue n c' = ring_queue n c"
  using del_etype_loop_spec [of 0 "rc_num_etype_filters c" "rc_etype_filters c" e]
  by (auto simp: del_ethertype_filter_def add_ethertype_filter_def client_ok_def ring_queue_def Let_def
      split: prod.split if_splits)

text \<open>A step that neither moves a buffer nor touches the packets of the clients.\<close>

definition quiet :: "rgmii_rx \<Rightarrow> rgmii_rx \<Rightarrow> bool" where
  "quiet s s' \<longleftrightarrow> rg_mem s' = rg_mem s \<and> rg_free s' = rg_free s \<and> rg_lp s' = rg_lp s \<and> rg_hp s' = rg_hp s \<and>
     rg_lld s' = rg_lld s \<and> length (rg_clients s') = length (rg_clients s) \<and>
     (\<forall>i<length (rg_clients s). client_ok 16 (rg_clients s ! i) \<longrightarrow> client_ok 16 (rg_clients s' ! i) \<and> packets_of s' i = packets_of s i)"

lemma quiet_inv:
  assumes "quiet s s'" "rgmii_inv_at base X s"
  shows "rgmii_inv_at base X s'"
proof -
  have "rgmii_inv_at base X (s\<lparr>rg_clients := rg_clients s'\<rparr>)"
    using assms inv_ring [OF assms(2)] by (intro inv_client [OF assms(2)]) (auto simp: quiet_def)
  then show ?thesis using assms(1) by (simp add: rgmii_inv_at_def stock_def quiet_def)
qed

lemma quiet_on_client:
  assumes "\<And>c. client_ok 16 c \<Longrightarrow> client_ok 16 (f c) \<and> ring_queue 16 (f c) = ring_queue 16 c"
  shows "quiet s (on_client_rgmii i f s)"
  using assms by (cases "i < length (rg_clients s)") (auto simp: quiet_def on_client_rgmii_def nth_list_update)

lemma status_ring [simp]:
  "client_ok n (c\<lparr>rc_status_update_state := v\<rparr>) = client_ok n c"
  "ring_queue n (c\<lparr>rc_status_update_state := v\<rparr>) = ring_queue n c"
  by (simp_all add: client_ok_def ring_queue_def)

lemma config_quiet:
  assumes "rgmii_ethernet_mac_config taken tile_id time e s = Inr (r, s')"
  shows "quiet s s'"
proof (cases e)
  case (Add_Ethertype_Filter i t)
  then obtain c where c: "add_ethertype_filter t (rg_clients s ! i) = Some c" "s' = on_client_rgmii i (\<lambda>_. c) s"
    using assms by (auto split: option.splits)
  then show ?thesis
    using ethertype_ring(2) [of 16 "rg_clients s ! i" t c]
    by (cases "i < length (rg_clients s)") (auto simp: quiet_def on_client_rgmii_def nth_list_update)
next
  case (Del_Ethertype_Filter i t)
  then show ?thesis using assms ethertype_ring(1) by (auto intro!: quiet_on_client)
next
  case (Enable_Link_Status_Notification i)
  then show ?thesis using assms by (auto intro!: quiet_on_client)
next
  case (Disable_Link_Status_Notification i)
  then show ?thesis using assms by (auto intro!: quiet_on_client)
qed (use assms in \<open>auto simp: quiet_def\<close>)

lemma link_change_quiet: "quiet s (link_change s)"
  by (simp add: quiet_def link_change_def ring_queue_def client_ok_def)

section \<open>Steps\<close>

text \<open>What happens to the packets of the clients: frame \<open>f\<close> queued for client \<open>i\<close>, read by it, or lost.\<close>

datatype client_event = Queued nat "u8 list" | Read nat "u8 list" | Lost nat "u8 list"

fun read_event :: "nat \<Rightarrow> reply \<Rightarrow> client_event list" where
  "read_event i (Packet info data) = (if pi_type info = ETH_DATA then [Read i (take (unat (pi_len info)) data)] else [])"
| "read_event i _ = []"

text \<open>
  A low level receiver writes anywhere in a buffer it holds, and it sends back buffers with frames of at most
  \<^verbatim>\<open>MII_PACKET_DATA_BYTES\<close> bytes. The server, the managers and the configuration task take turns at any point.
\<close>

inductive rgmii_step :: "rgmii_rx \<Rightarrow> client_event list \<Rightarrow> rgmii_rx \<Rightarrow> bool" where
  fills: "k < 2 \<Longrightarrow> b \<in> set (rg_lld s k) \<Longrightarrow> (\<forall>a. a < b \<or> b + sizeof_mii_packet_t \<le> a \<longrightarrow> m a = rg_mem s a) \<Longrightarrow>
    rgmii_step s [] (s\<lparr>rg_mem := m\<rparr>)"
| manages: "k < 2 \<Longrightarrow> (\<forall>b. received = Some b \<longrightarrow> b \<in> set (rg_lld s k) \<and> uint (getf (rg_mem s) b length_f) \<le> MII_PACKET_DATA_BYTES) \<Longrightarrow>
    rgmii_step s [] (rgmii_buffer_manager k received s)"
| configures: "rgmii_ethernet_mac_config taken tile_id time e s = Inr (r, s') \<Longrightarrow> rgmii_step s [] s'"
| links: "rgmii_step s [] (link_change s)"
| sends_hp: "rgmii_step s [] (handle_hp_packets_rgmii hp_rx s)"
| offers: "s' = handle_incoming_packet_rgmii s \<Longrightarrow>
    rgmii_step s (map (\<lambda>i. Queued i (packet_bytes (rg_mem s) (fst (buffers_used_take (rg_lp s) 32))))
      (drop (length (rg_ready s)) (rg_ready s'))) s'"
| drops: "buffers_free_available (rg_free s) \<le> RGMII_RX_BUFFERS_THRESHOLD \<Longrightarrow>
    rgmii_step s (map (\<lambda>i. Lost i (packet_bytes (rg_mem s) (oldest_buffer (rg_clients s ! i))))
      (filter (\<lambda>i. has_packet (rg_clients s ! i)) [0..<length (rg_clients s)])) (drop_lp_packets_rgmii s)"
| calls: "i < length (rg_clients s) \<Longrightarrow> handle_rx_rgmii i e s = Inr (r, s') \<Longrightarrow> rgmii_step s (read_event i r) s'"

inductive rgmii_run :: "rgmii_rx \<Rightarrow> client_event list \<Rightarrow> rgmii_rx \<Rightarrow> bool" where
  start: "rgmii_run s [] s"
| more: "rgmii_run s es s' \<Longrightarrow> rgmii_step s' es' s'' \<Longrightarrow> rgmii_run s (es @ es') s''"

text \<open>The frames queued for client \<open>i\<close>, and those that have left its queue.\<close>

fun queued :: "nat \<Rightarrow> client_event list \<Rightarrow> u8 list list" where
  "queued i [] = []"
| "queued i (Queued j f # es) = (if j = i then f # queued i es else queued i es)"
| "queued i (_ # es) = queued i es"

fun gone :: "nat \<Rightarrow> client_event list \<Rightarrow> u8 list list" where
  "gone i [] = []"
| "gone i (Queued j f # es) = gone i es"
| "gone i (Read j f # es) = (if j = i then f # gone i es else gone i es)"
| "gone i (Lost j f # es) = (if j = i then f # gone i es else gone i es)"

lemma events_append [simp]:
  "queued i (es @ es') = queued i es @ queued i es'" "gone i (es @ es') = gone i es @ gone i es'"
  by (induction es rule: queued.induct) auto

lemma queued_map:
  "distinct is \<Longrightarrow> queued i (map (\<lambda>j. Queued j (f j)) is) = (if i \<in> set is then [f i] else [])" "gone i (map (\<lambda>j. Queued j (f j)) is) = []"
  by (induction "is") auto

lemma lost_map:
  "distinct is \<Longrightarrow> gone i (map (\<lambda>j. Lost j (f j)) is) = (if i \<in> set is then [f i] else [])" "queued i (map (\<lambda>j. Lost j (f j)) is) = []"
  by (induction "is") auto

section \<open>The frames in the buffers\<close>

definition in_use :: "rgmii_rx \<Rightarrow> addr set" where
  "in_use s = set (used_items 32 (rg_lp s)) \<union> set (used_items 32 (rg_hp s)) \<union>
     (\<Union>i<length (rg_clients s). uint ` set (packets_of s i))"

definition frames_ok :: "rgmii_rx \<Rightarrow> bool" where
  "frames_ok s \<longleftrightarrow> (\<forall>b\<in>in_use s. uint (getf (rg_mem s) b length_f) \<le> MII_PACKET_DATA_BYTES)"

definition client_frames :: "rgmii_rx \<Rightarrow> nat \<Rightarrow> u8 list list" where
  "client_frames s i = map (\<lambda>x. packet_bytes (rg_mem s) (uint x)) (packets_of s i)"

lemma in_use_client: "i < length (rg_clients s) \<Longrightarrow> x \<in> set (packets_of s i) \<Longrightarrow> uint x \<in> in_use s"
  by (auto simp: in_use_def)

lemma in_use_pool:
  assumes inv: "rgmii_inv base s" and b: "b \<in> in_use s"
  shows "b \<in> pool_at base" "b \<notin> set (rg_lld s 0)" "b \<notin> set (rg_lld s 1)" "b \<notin> set (free_items (rg_free s))"
proof -
  have o: "owned base (stock s) (rg_clients s) (rg_mem s)" using inv by (simp add: rgmii_inv_at_def)
  have "b \<in> pool_at base \<and> b \<notin> set (rg_lld s 0) \<and> b \<notin> set (rg_lld s 1) \<and> b \<notin> set (free_items (rg_free s))"
  proof (cases "\<exists>i<length (rg_clients s). \<exists>x\<in>set (packets_of s i). b = uint x")
    case True
    then show ?thesis using inv_held [OF inv] by (auto simp: stock_def)
  next
    case False
    then have "b \<in> set (used_items 32 (rg_lp s)) \<union> set (used_items 32 (rg_hp s))" using b by (auto simp: in_use_def)
    then have "1 \<le> count (mset (used_items 32 (rg_lp s)) + mset (used_items 32 (rg_hp s))) b"
      by (metis Un_iff count_greater_eq_one_iff set_mset_mset set_mset_union)
    then have "count (mset (rg_lld s 0)) b = 0" "count (mset (rg_lld s 1)) b = 0" "count (mset (free_items (rg_free s))) b = 0"
      using owned_count [OF o, of b] unfolding stock_def count_union by linarith+
    moreover have "b \<in># stock s" using \<open>b \<in> set (used_items 32 (rg_lp s)) \<union> set (used_items 32 (rg_hp s))\<close> by (auto simp: stock_def)
    moreover have "set_mset (stock s) \<subseteq> pool_at base" using o by (simp add: owned_def)
    ultimately show ?thesis by auto
  qed
  then show "b \<in> pool_at base" "b \<notin> set (rg_lld s 0)" "b \<notin> set (rg_lld s 1)" "b \<notin> set (free_items (rg_free s))" by auto
qed

lemma frame_kept:
  assumes inv: "rgmii_inv base s" and ok: "frames_ok s" and b: "b \<in> in_use s" and k: "keeps_frames base (rg_mem s) m"
  shows "packet_bytes m b = packet_bytes (rg_mem s) b" "getf m b length_f = getf (rg_mem s) b length_f"
proof -
  note p = in_use_pool(1) [OF inv b]
  have "uint (getf (rg_mem s) b length_f) \<le> 1526"
    using ok b by (simp add: frames_ok_def MII_PACKET_DATA_BYTES_def)
  then have "unat (getf (rg_mem s) b length_f) \<le> 1526" using nat_mono by fastforce
  moreover have "b mod 4 = 0" using pool_aligned p inv by (auto simp: rgmii_inv_at_def)
  ultimately show "packet_bytes m b = packet_bytes (rg_mem s) b" using keeps_packet_bytes [OF k p] by simp
  show "getf m b length_f = getf (rg_mem s) b length_f" using k p by (simp add: keeps_frames_def)
qed

text \<open>A step after which no new packet is in the rings: only frames sent back by a receiver need checking.\<close>

lemma frames_ok_step:
  assumes "rgmii_inv base s" "frames_ok s" "keeps_frames base (rg_mem s) (rg_mem s')"
    and "in_use s' \<subseteq> in_use s \<union> B" "\<And>b. b \<in> B \<Longrightarrow> uint (getf (rg_mem s') b length_f) \<le> MII_PACKET_DATA_BYTES"
  shows "frames_ok s'"
proof -
  have "uint (getf (rg_mem s') b length_f) \<le> MII_PACKET_DATA_BYTES" if "b \<in> in_use s" for b
    using frame_kept(2) [OF assms(1,2) that assms(3)] assms(2) that by (simp add: frames_ok_def)
  then show ?thesis using assms(4,5) unfolding frames_ok_def by blast
qed

lemma client_frames_kept:
  assumes "rgmii_inv base s" "frames_ok s" "keeps_frames base (rg_mem s) (rg_mem s')"
    and "i < length (rg_clients s)" "set xs \<subseteq> set (packets_of s i)"
  shows "map (\<lambda>x. packet_bytes (rg_mem s') (uint x)) xs = map (\<lambda>x. packet_bytes (rg_mem s) (uint x)) xs"
  using frame_kept(1) [OF assms(1,2) in_use_client [OF assms(4)] assms(3)] assms(5) by auto

text \<open>What every step keeps, and how it changes the queues.\<close>

definition step_ok :: "addr \<Rightarrow> rgmii_rx \<Rightarrow> client_event list \<Rightarrow> rgmii_rx \<Rightarrow> bool" where
  "step_ok base s es s' \<longleftrightarrow> rgmii_inv base s' \<and> frames_ok s' \<and> length (rg_clients s') = length (rg_clients s) \<and>
     (\<forall>k. length (rg_lld s' k) = length (rg_lld s k)) \<and>
     (\<forall>i<length (rg_clients s). client_frames s i @ queued i es = gone i es @ client_frames s' i)"

lemma quiet_ok:
  assumes "quiet s s'" "rgmii_inv base s" "frames_ok s"
  shows "step_ok base s [] s'"
proof -
  have p: "packets_of s' i = packets_of s i" if "i < length (rg_clients s)" for i
    using assms(1) inv_ring [OF assms(2) that] that by (simp add: quiet_def)
  then have "in_use s' = in_use s" using assms(1) by (auto simp: in_use_def quiet_def)
  then show ?thesis
    using assms p quiet_inv [OF assms(1,2)] by (simp add: step_ok_def frames_ok_def client_frames_def quiet_def)
qed

lemma same_queues_ok:
  assumes "rgmii_inv base s" "frames_ok s" "rgmii_inv base s'" "frames_ok s'" "rg_clients s' = rg_clients s"
    "keeps_frames base (rg_mem s) (rg_mem s')" "\<And>k. length (rg_lld s' k) = length (rg_lld s k)"
  shows "step_ok base s [] s'"
  using assms(3-) client_frames_kept [OF assms(1,2,6) _ order_refl]
  by (auto simp: step_ok_def client_frames_def simp del: map_eq_conv)

section \<open>Each step\<close>

lemma in_set_tlD: "x \<in> set (tl xs) \<Longrightarrow> x \<in> set xs"
  by (cases xs) auto

lemma fills_ok:
  assumes inv: "rgmii_inv base s" and ok: "frames_ok s" and k: "k < 2" "b \<in> set (rg_lld s k)"
    and m: "\<forall>a. a < b \<or> b + sizeof_mii_packet_t \<le> a \<longrightarrow> m a = rg_mem s a"
  shows "step_ok base s [] (s\<lparr>rg_mem := m\<rparr>)"
proof -
  have kk: "k = 0 \<or> k = 1" using k by auto
  then have st: "b \<in># stock s" using k(2) by (auto simp: stock_def)
  have p: "b \<in> pool_at base" using inv st by (auto simp: rgmii_inv_at_def owned_def)
  have same: "m a = rg_mem s a" if "b' \<in> pool_at base" "b' \<noteq> b" "b' \<le> a" "a < b' + 1568" for a b'
    using pool_apart [OF p that(1)] that m by auto
  have hdr: "getf m b' f = getf (rg_mem s) b' f" if "b' \<in> pool_at base" "b' \<noteq> b" for b' f
    using same [OF that] fld_off_range [of f] by (simp add: getf_def)
  have inv': "rgmii_inv base (s\<lparr>rg_mem := m\<rparr>)" by (rule inv_mem [OF inv]) (use hdr st in auto)
  have use: "b' \<in> pool_at base" "b' \<noteq> b" if "b' \<in> in_use s" for b'
    using in_use_pool [OF inv that] k(2) kk by auto
  have bytes: "packet_bytes m b' = packet_bytes (rg_mem s) b'" if "b' \<in> in_use s" for b'
  proof -
    note u = use [OF that]
    define m2 where "m2 = (\<lambda>a. if b' \<le> a \<and> a < b' + 1568 then m a else rg_mem s a)"
    have "m2 = rg_mem s" using same [OF u] by (auto simp: m2_def)
    moreover have "packet_bytes m b' = packet_bytes m2 b'"
    proof -
      have l: "unat (getf (rg_mem s) b' length_f) \<le> 1526"
        using ok that nat_mono [of "uint (getf (rg_mem s) b' length_f)" 1526] by (simp add: frames_ok_def MII_PACKET_DATA_BYTES_def)
      have al: "b' mod 4 = 0" using pool_aligned u(1) inv by (auto simp: rgmii_inv_at_def)
      have "ldb m (pkt_data b' + int i) = ldb m2 (pkt_data b' + int i)" if "i < 1526" for i
      proof -
        have "b' \<le> (pkt_data b' + int i) - (pkt_data b' + int i) mod 4" "(pkt_data b' + int i) - (pkt_data b' + int i) mod 4 < b' + 1568"
          using al that by (simp_all add: pkt_data_def)
        then show ?thesis by (simp add: ldb_def m2_def)
      qed
      moreover have "getf m2 b' length_f = getf m b' length_f" by (simp add: m2_def getf_def)
      ultimately show ?thesis using l hdr [OF u] by (simp add: packet_bytes_def ldbs_def)
    qed
    ultimately show ?thesis by simp
  qed
  have "in_use (s\<lparr>rg_mem := m\<rparr>) = in_use s" by (simp add: in_use_def)
  then have "frames_ok (s\<lparr>rg_mem := m\<rparr>)" using ok hdr use by (simp add: frames_ok_def)
  moreover have "client_frames (s\<lparr>rg_mem := m\<rparr>) i = client_frames s i" if "i < length (rg_clients s)" for i
    using bytes in_use_client [OF that] by (simp add: client_frames_def)
  ultimately show ?thesis using inv' by (simp add: step_ok_def)
qed

lemma in_use_cong:
  "rg_clients s' = rg_clients s \<Longrightarrow> set (used_items 32 (rg_lp s')) \<union> set (used_items 32 (rg_hp s')) \<subseteq>
     set (used_items 32 (rg_lp s)) \<union> set (used_items 32 (rg_hp s)) \<union> B \<Longrightarrow> in_use s' \<subseteq> in_use s \<union> B"
  by (auto simp: in_use_def)

lemma used_add_set:
  "rgmii_inv_at base (add_mset b X) s \<Longrightarrow> set (used_items 32 (buffers_used_add (rg_lp s) b 32)) = insert b (set (used_items 32 (rg_lp s)))"
  "rgmii_inv_at base (add_mset b X) s \<Longrightarrow> set (used_items 32 (buffers_used_add (rg_hp s) b 32)) = insert b (set (used_items 32 (rg_hp s)))"
proof -
  assume i: "rgmii_inv_at base (add_mset b X) s"
  have "used_count (rg_lp s) < 32" "used_count (rg_hp s) < 32" "used_ok 32 (rg_lp s)" "used_ok 32 (rg_hp s)"
    using inv_size [OF i] i by (simp_all add: stock_def rgmii_inv_at_def)
  then show "set (used_items 32 (buffers_used_add (rg_lp s) b 32)) = insert b (set (used_items 32 (rg_lp s)))"
    "set (used_items 32 (buffers_used_add (rg_hp s) b 32)) = insert b (set (used_items 32 (rg_hp s)))"
    using used_add_items(2) [of 32 "rg_lp s" b] used_add_items(2) [of 32 "rg_hp s" b] by simp_all
qed

lemma file_packet_use:
  assumes "rgmii_inv_at base (add_mset b X) s"
  shows "in_use (file_packet table b s) \<subseteq> in_use s \<union> {b}"
proof (rule in_use_cong)
  show "rg_clients (file_packet table b s) = rg_clients s" by (rule file_packet_frame)
  show "set (used_items 32 (rg_lp (file_packet table b s))) \<union> set (used_items 32 (rg_hp (file_packet table b s))) \<subseteq>
     set (used_items 32 (rg_lp s)) \<union> set (used_items 32 (rg_hp s)) \<union> {b}"
    using used_add_set [OF assms] by (auto simp: file_packet_def free_buffer_def Let_def split: prod.splits)
qed

lemma manager_use:
  assumes inv: "rgmii_inv base s" and k: "k < 2" and r: "\<And>b. received = Some b \<Longrightarrow> b \<in> set (rg_lld s k)"
  shows "in_use (rgmii_buffer_manager k received s) \<subseteq> in_use s \<union> set_option received"
proof (cases received)
  case None
  then show ?thesis
    by (intro in_use_cong) (auto simp: rgmii_buffer_manager_def mii_macaddr_get_hash_table_def)
next
  case (Some b)
  define h where "h = snd (mii_macaddr_get_hash_table k (rg_hash s))"
  let ?s1 = "s\<lparr>rg_hash := h, rg_lld := (rg_lld s)(k := remove1 b (rg_lld s k))\<rparr>"
  have i1: "rgmii_inv_at base {#b#} ?s1"
    using from_lld_inv [OF inv_hash [OF inv, of h] k, of b] r [OF Some] by simp
  obtain b' s2 where t: "take_free ?s1 = (b', s2)" by fastforce
  have u: "in_use s2 = in_use s" using t by (auto simp: take_free_def in_use_def split: prod.splits)
  have g: "in_use (give_lld k c s2) = in_use s" for c by (subst u [symmetric]) (simp add: give_lld_def in_use_def)
  have "rgmii_inv_at base {#b#} (give_lld k b' s2)" if "b' \<noteq> 0"
    using take_free_inv [OF i1 t] give_lld_inv [of base b' "{#b#}" s2 k] k that by (auto simp: add_mset_commute)
  then have "in_use (file_packet (hs_table (rg_hash s)) b (give_lld k b' s2)) \<subseteq> in_use s \<union> {b}" if "b' \<noteq> 0"
    using file_packet_use [of base b "{#}" "give_lld k b' s2"] that g by simp
  then show ?thesis
    using t Some g by (auto simp: rgmii_buffer_manager_def mii_macaddr_get_hash_table_def h_def)
qed

lemma manages_ok:
  assumes inv: "rgmii_inv base s" and ok: "frames_ok s" and k: "k < 2"
    and r: "\<forall>b. received = Some b \<longrightarrow> b \<in> set (rg_lld s k) \<and> uint (getf (rg_mem s) b length_f) \<le> MII_PACKET_DATA_BYTES"
  shows "step_ok base s [] (rgmii_buffer_manager k received s)"
proof -
  let ?s = "rgmii_buffer_manager k received s"
  have rr: "\<And>b. received = Some b \<Longrightarrow> b \<in> set (rg_lld s k)" using r by simp
  note f = manager_frame [where received = received, OF inv k rr] manager_inv [where received = received, OF inv k rr]
  have l: "uint (getf (rg_mem ?s) b length_f) \<le> MII_PACKET_DATA_BYTES" if "b \<in> set_option received" for b
  proof -
    have "k = 0 \<or> k = 1" using k by auto
    then have "b \<in># stock s" using r that by (auto simp: stock_def)
    then have "b \<in> pool_at base" using inv by (auto simp: rgmii_inv_at_def owned_def)
    moreover have "uint (getf (rg_mem s) b length_f) \<le> MII_PACKET_DATA_BYTES" using r that by simp
    ultimately show ?thesis using f(2) by (simp add: keeps_frames_def)
  qed
  have "frames_ok ?s"
    by (rule frames_ok_step [OF inv ok f(2) manager_use [where received = received, OF inv k rr]]) (use l in auto)
  then show ?thesis using f(1,2,4) f(3) by (intro same_queues_ok [OF inv ok]) simp_all
qed

lemma sends_hp_ok:
  assumes inv: "rgmii_inv base s" and ok: "frames_ok s"
  shows "step_ok base s [] (handle_hp_packets_rgmii hp_rx s)"
proof -
  note h = handle_hp_packets_inv [OF inv, of hp_rx]
  have "frames_ok (handle_hp_packets_rgmii hp_rx s)"
    using h by (intro frames_ok_step [OF inv ok _ in_use_cong [of _ _ "{}"]]) auto
  then show ?thesis using h by (intro same_queues_ok [OF inv ok]) auto
qed

lemma step_ok_refl: "rgmii_inv base s \<Longrightarrow> frames_ok s \<Longrightarrow> step_ok base s [] s"
  by (simp add: step_ok_def)

lemma offers_ok:
  assumes inv: "rgmii_inv base s" and ok: "frames_ok s"
  shows "step_ok base s (map (\<lambda>i. Queued i (packet_bytes (rg_mem s) (fst (buffers_used_take (rg_lp s) 32))))
    (drop (length (rg_ready s)) (rg_ready (handle_incoming_packet_rgmii s)))) (handle_incoming_packet_rgmii s)"
proof (cases "buffers_used_empty (rg_lp s)")
  case True
  then show ?thesis using step_ok_refl [OF assms] by (simp add: handle_incoming_packet_rgmii_def)
next
  case False
  let ?s = "handle_incoming_packet_rgmii s" and ?b = "hd (used_items 32 (rg_lp s))" and ?n = "length (rg_clients s)"
  note e = handle_incoming_rgmii_effect [OF inv False]
  have okl: "used_ok 32 (rg_lp s)" and ni: "used_items 32 (rg_lp s) \<noteq> []"
    using inv False by (simp_all add: rgmii_inv_at_def used_empty_items [of _ 32])
  have b: "fst (buffers_used_take (rg_lp s) 32) = ?b" using used_take_items [OF okl ni] by auto
  have w: "uint (of_int ?b :: u32) = ?b" using pool_word [OF _ e(1)] inv by (simp add: rgmii_inv_at_def)
  have q: "packets_of ?s i = packets_of s i @ (if i \<in> set (takers s ?b) then [of_int ?b] else [])" if "i < ?n" for i
    using offered_at_queue(1,2) [OF inv_ring [OF inv that]] that by (simp add: e(2) takers_def takes_at_def)
  have bu: "?b \<in> in_use s" using ni by (auto simp: in_use_def)
  have "in_use ?s \<subseteq> in_use s"
  proof
    fix a assume "a \<in> in_use ?s"
    then consider "a \<in> set (tl (used_items 32 (rg_lp s)))" | "a \<in> set (used_items 32 (rg_hp s))"
      | i x where "i < ?n" "x \<in> set (packets_of ?s i)" "a = uint x"
      by (auto simp: in_use_def e)
    then show "a \<in> in_use s"
    proof cases
      case 1
      then show ?thesis using list.set_sel(2) [OF ni] by (auto simp: in_use_def)
    next
      case 2
      then show ?thesis by (simp add: in_use_def)
    next
      case 3
      then show ?thesis using q [OF 3(1)] bu w in_use_client by (auto split: if_splits)
    qed
  qed
  then have f: "frames_ok ?s" by (intro frames_ok_step [OF inv ok e(4), of "{}"]) auto
  have "client_frames ?s i = client_frames s i @ (if i \<in> set (takers s ?b) then [packet_bytes (rg_mem s) ?b] else [])"
    if "i < ?n" for i
    using client_frames_kept [OF inv ok e(4) that order_refl] frame_kept(1) [OF inv ok bu e(4)]
    by (simp add: client_frames_def q [OF that] w del: map_eq_conv)
  moreover have "distinct (takers s ?b)" by (simp add: takers_def)
  ultimately show ?thesis
    using f handle_incoming_rgmii_inv [OF inv] by (simp add: step_ok_def e queued_map b)
qed

lemma subset_use:
  assumes inv: "rgmii_inv base s" and ok: "frames_ok s" and k: "keeps_frames base (rg_mem s) (rg_mem s')"
    and len: "length (rg_clients s') = length (rg_clients s)" and same: "same_rest s s'"
    and q: "\<And>i. i < length (rg_clients s) \<Longrightarrow> set (packets_of s' i) \<subseteq> set (packets_of s i)"
  shows "frames_ok s'"
proof -
  have "in_use s' \<subseteq> in_use s \<union> {}" using same q len by (fastforce simp: in_use_def same_rest_def)
  then show ?thesis by (intro frames_ok_step [OF inv ok k, of "{}"]) auto
qed

lemma drops_ok:
  assumes inv: "rgmii_inv base s" and ok: "frames_ok s"
  shows "step_ok base s (map (\<lambda>i. Lost i (packet_bytes (rg_mem s) (oldest_buffer (rg_clients s ! i))))
      (filter (\<lambda>i. has_packet (rg_clients s ! i)) [0..<length (rg_clients s)])) (drop_lp_packets_rgmii s)"
proof -
  let ?s = "drop_lp_packets_rgmii s" and ?n = "length (rg_clients s)"
  note d = drop_lp_packets_rgmii_inv [OF inv]
  have f: "frames_ok ?s"
    by (rule subset_use [OF inv ok d(4,2,5)]) (use d(3) in \<open>auto dest: in_set_tlD\<close>)
  have c: "client_frames s i = (if has_packet (rg_clients s ! i)
      then packet_bytes (rg_mem s) (oldest_buffer (rg_clients s ! i)) # client_frames ?s i else client_frames ?s i)" if i: "i < ?n" for i
  proof -
    have "set (tl (packets_of s i)) \<subseteq> set (packets_of s i)" by (cases "packets_of s i") auto
    then have t: "client_frames ?s i = map (\<lambda>x. packet_bytes (rg_mem s) (uint x)) (tl (packets_of s i))"
      using client_frames_kept [OF inv ok d(4) i] d(3) [OF i] by (simp add: client_frames_def del: map_eq_conv)
    show ?thesis
    proof (cases "packets_of s i = []")
      case True
      then show ?thesis using t ring_has_packet [OF inv_ring [OF inv i]] by (simp add: client_frames_def)
    next
      case False
      then show ?thesis
        using t ring_has_packet [OF inv_ring [OF inv i]] inv_pop(2) [OF inv i False]
        by (cases "packets_of s i") (simp_all add: client_frames_def)
    qed
  qed
  have "distinct (filter (\<lambda>i. has_packet (rg_clients s ! i)) [0..<?n])" by simp
  then show ?thesis using f d c by (simp add: step_ok_def lost_map same_rest_def)
qed

lemma calls_ok:
  assumes inv: "rgmii_inv base s" and ok: "frames_ok s" and i: "i < length (rg_clients s)"
    and h: "handle_rx_rgmii i e s = Inr (r, s')"
  shows "step_ok base s (read_event i r) s'"
proof (cases e)
  case Get_Index
  then show ?thesis using h step_ok_refl [OF inv ok] by auto
next
  case (Get_Packet data)
  let ?c = "rg_clients s ! i"
  obtain info d where g: "get_packet_rgmii i data s = Inr (info, d, s')" and r: "r = Packet info d"
    using h Get_Packet by (auto simp: bind_eq_Inr)
  consider (status) "rc_status_update_state ?c = STATUS_UPDATE_PENDING"
    | (packet) "rc_status_update_state ?c \<noteq> STATUS_UPDATE_PENDING" "has_packet ?c"
    | (none) "rc_status_update_state ?c \<noteq> STATUS_UPDATE_PENDING" "\<not> has_packet ?c" by blast
  then show ?thesis
  proof cases
    case status
    then have "info = status_info" "s' = s\<lparr>rg_clients := (rg_clients s)[i := ?c\<lparr>rc_status_update_state := STATUS_UPDATE_WAITING\<rparr>]\<rparr>"
      using g by (auto simp: get_packet_rgmii_def bind_eq_Inr)
    moreover from this have "quiet s s'"
      using quiet_on_client [of "rc_status_update_state_update (\<lambda>_. STATUS_UPDATE_WAITING)" s i] by (simp add: on_client_rgmii_def)
    ultimately show ?thesis using quiet_ok [OF _ inv ok] by (simp add: r status_info_def)
  next
    case none
    then have "info = no_info" "s' = s" using g by (auto simp: get_packet_rgmii_def)
    then show ?thesis using step_ok_refl [OF inv ok] by (simp add: r no_info_def)
  next
    case packet
    have q: "packets_of s i \<noteq> []" using ring_has_packet [OF inv_ring [OF inv i]] packet by simp
    let ?b = "oldest_buffer ?c" and ?s1 = "release_oldest_rgmii i s"
    note rel = release_oldest_rgmii_inv [OF inv i q]
    have info: "info = packet_info_rgmii s ?b" "put_bytes data 0 (packet_bytes (rg_mem s) ?b) = Inr d"
      and s': "s' = ?s1 \<or> s' = ?s1\<lparr>rg_ready := rg_ready ?s1 @ [i]\<rparr>"
      using g packet by (auto simp: get_packet_rgmii_def bind_eq_Inr Let_def)
    then have d: "take (unat (pi_len info)) d = packet_bytes (rg_mem s) ?b" "pi_type info = ETH_DATA"
      by (auto simp: put_bytes_def packet_info_rgmii_def packet_bytes_def Let_def split: if_splits)
    have "quiet ?s1 s'" using s' by (auto simp: quiet_def)
    have pq: "packets_of ?s1 j = (if j = i then tl (packets_of s i) else packets_of s j)" if "j < length (rg_clients s)" for j
      using that i ring_pop_tl [OF inv_ring [OF inv i] q] by (simp add: rel(2))
    have f: "frames_ok ?s1"
      by (rule subset_use [OF inv ok rel(3) _ rel(4)]) (use pq rel(2) in \<open>auto dest: in_set_tlD\<close>)
    have "client_frames s j = (if j = i then [packet_bytes (rg_mem s) ?b] else []) @ client_frames ?s1 j"
      if j: "j < length (rg_clients s)" for j
    proof -
      have "set (packets_of ?s1 j) \<subseteq> set (packets_of s j)" using pq [OF j] list.set_sel(2) [OF q] by auto
      then have t: "client_frames ?s1 j = map (\<lambda>x. packet_bytes (rg_mem s) (uint x)) (packets_of ?s1 j)"
        using client_frames_kept [OF inv ok rel(3) j] by (simp add: client_frames_def del: map_eq_conv)
      show ?thesis using t pq [OF j] inv_pop(2) [OF inv i q] q
        by (cases "packets_of s i") (auto simp: client_frames_def)
    qed
    then have one: "step_ok base s [Read i (packet_bytes (rg_mem s) ?b)] ?s1"
      using rel f by (auto simp: step_ok_def same_rest_def)
    have "step_ok base ?s1 [] s'" using quiet_ok [OF \<open>quiet ?s1 s'\<close> rel(1) f] .
    then show ?thesis using one d by (auto simp: step_ok_def r)
  qed
qed


end
