(* ===== verification/Rgmii_Props.thy ===== *)
theory Rgmii_Props
  imports Rgmii_Run
begin

text \<open>
  What the receive side of the RGMII MAC promises, for every run within one mode of the link, and how a change of the
  mode breaks it.
\<close>

section \<open>Starting\<close>

text \<open>Arrays as large as the code needs (those of the rings have one entry more), and clients that hold nothing.\<close>

definition fresh_rgmii :: "addr \<Rightarrow> rgmii_rx \<Rightarrow> bool" where
  "fresh_rgmii base s \<longleftrightarrow> pool_ok base \<and> length (bf_stack (rg_free s)) = 32 \<and> 32 \<le> length (bu_pointers (rg_lp s)) \<and>
     32 \<le> length (bu_pointers (rg_hp s)) \<and> length (rg_clients s) < 2 ^ 32 \<and>
     (\<forall>c\<in>set (rg_clients s). client_ok 16 c \<and> ring_queue 16 c = [])"

lemma restart_inv:
  assumes "fresh_rgmii base s"
  shows "rgmii_inv base (rgmii_restart base mode s)" "frames_ok (rgmii_restart base mode s)"
    "rg_clients (rgmii_restart base mode s) = rg_clients s"
    "length (rg_lld (rgmii_restart base mode s) k) = (if k = 0 \<or> k = 1 \<and> \<not> slow_mode mode then 2 else 0)"
proof -
  define h where "h = mii_macaddr_set_num_active_filters (if slow_mode mode then 1 else 2) (rg_hash s)"
  let ?init = "s\<lparr>rg_lp := buffers_used_initialize (bu_pointers (rg_lp s)), rg_hp := buffers_used_initialize (bu_pointers (rg_hp s)),
    rg_free := buffers_free_initialize (bf_stack (rg_free s)) base 32, rg_lld := (\<lambda>_. []), rg_link := ps_link_state (rg_port s), rg_hash := h\<rparr>"
  have top: "bf_top_index (buffers_free_initialize p base 32) = 32" for p by (simp add: buffers_free_initialize_def)
  note st = init_stack [of 32 "bf_stack (rg_free s)" base]
  have items: "free_items (rg_free ?init) = map (\<lambda>i. base + int i * 1568) [0..<32]"
    using st(1) assms by (simp add: free_items_def top fresh_rgmii_def)
  have pos: "0 < base" using assms by (simp add: fresh_rgmii_def pool_ok_def)
  have fo: "free_ok 32 (rg_free ?init)"
    using st(2) assms items pos by (auto simp: free_ok_def top fresh_rgmii_def)
  have ue: "used_items 32 (buffers_used_initialize p) = []" "used_ok 32 (buffers_used_initialize p) \<longleftrightarrow> 32 \<le> length p" for p
    by (simp_all add: buffers_used_initialize_def used_items_def used_count_def used_ok_def)
  have none: "held_at 16 (rg_clients s) x = 0" for x
    using assms by (simp add: held_at_def fresh_rgmii_def)
  have "mset (free_items (rg_free ?init)) = mset_set (pool_at base)"
  proof -
    have "inj_on (\<lambda>i. base + int i * 1568) {..<32}" by (auto simp: inj_on_def)
    then have "mset_set (pool_at base) = image_mset (\<lambda>i. base + int i * 1568) (mset_set {..<32})"
      by (simp add: pool_at_def image_mset_mset_set)
    then show ?thesis unfolding items by (simp add: mset_set_upto_eq_mset_upto atLeast0LessThan flip: mset_upt)
  qed
  then have stock: "stock ?init = mset_set (pool_at base)" using ue(1) by (simp add: stock_def)
  have "owned base (stock ?init) (rg_clients ?init) (rg_mem ?init)"
    using card_pool(1) [of base] by (simp add: owned_def stock none holders_def)
  then have i: "rgmii_inv base ?init" "length (free_items (rg_free ?init)) = 32"
    using assms fo ue items by (simp_all add: rgmii_inv_at_def fresh_rgmii_def)
  note m0 = manager_start_inv [OF i(1), of 0] manager_start_inv [of base "{#}" "manager_start 0 ?init" 1]
  have r: "rgmii_restart base mode s = (if slow_mode mode then manager_start 0 ?init else manager_start 1 (manager_start 0 ?init))"
    by (simp add: rgmii_restart_def h_def)
  have f: "rg_lp (manager_start k t) = rg_lp t" "rg_hp (manager_start k t) = rg_hp t" "rg_clients (manager_start k t) = rg_clients t"
    "length (rg_lld (manager_start k t) j) = length (rg_lld t j) + (if j = k then 2 else 0)" for k t j
    by (simp_all add: manager_start_def take_free_def give_lld_def split: prod.split)
  show "rgmii_inv base (rgmii_restart base mode s)" using m0 i(2) by (simp add: r)
  show c: "rg_clients (rgmii_restart base mode s) = rg_clients s" by (simp add: r f)
  have "in_use (rgmii_restart base mode s) = {}"
    using assms ue(1) by (simp add: in_use_def c) (simp add: r f fresh_rgmii_def)
  then show "frames_ok (rgmii_restart base mode s)" by (simp add: frames_ok_def)
  show "length (rg_lld (rgmii_restart base mode s) k) = (if k = 0 \<or> k = 1 \<and> \<not> slow_mode mode then 2 else 0)"
    unfolding r by (cases "slow_mode mode") (simp_all add: f del: length_0_conv)
qed

section \<open>Runs\<close>

lemma rgmii_step_ok: "rgmii_step s es s' \<Longrightarrow> rgmii_inv base s \<Longrightarrow> frames_ok s \<Longrightarrow> step_ok base s es s'"
proof (induction rule: rgmii_step.induct)
  case (configures taken tile_id time e s r s')
  then show ?case using quiet_ok [OF config_quiet] by blast
next
  case (links s)
  then show ?case by (rule quiet_ok [OF link_change_quiet])
next
  case (offers s' s)
  then show ?case using offers_ok by simp
qed (simp_all add: fills_ok manages_ok sends_hp_ok drops_ok calls_ok)

lemma rgmii_run_ok: "rgmii_run s es s' \<Longrightarrow> rgmii_inv base s \<Longrightarrow> frames_ok s \<Longrightarrow> step_ok base s es s'"
proof (induction rule: rgmii_run.induct)
  case (start s)
  then show ?case by (rule step_ok_refl)
next
  case (more s es s' es' s'')
  then have a: "step_ok base s es s'" by blast
  then have b: "step_ok base s' es' s''" using rgmii_step_ok more.hyps(2) by (auto simp: step_ok_def)
  show ?case using a b unfolding step_ok_def by (metis append.assoc events_append)
qed

text \<open>A turn of the server is a run.\<close>

lemma run_step: "rgmii_run s es s' \<Longrightarrow> rgmii_step s' es' s'' \<Longrightarrow> \<exists>es. rgmii_run s es s''"
  using rgmii_run.more by blast

lemma server_turn_run:
  assumes "rgmii_ethernet_rx_server hp_rx call s = Inr (r, s')" "\<And>i e. call = Some (i, e) \<Longrightarrow> i < length (rg_clients s)"
  shows "\<exists>es. rgmii_run s es s'"
proof -
  obtain s1 where c: "(case call of None \<Rightarrow> Inr (No_Reply, s) | Some (i, e) \<Rightarrow> handle_rx_rgmii i e s) = Inr (r, s1)"
    and h: "s' = rgmii_housekeeping hp_rx s1"
    using assms(1) by (auto simp: rgmii_ethernet_rx_server_def)
  have "\<exists>es. rgmii_run s es s1"
    using c run_step [OF rgmii_run.start calls] rgmii_run.start assms(2) by (cases call) (fastforce split: prod.splits)+
  then have "\<exists>es. rgmii_run s es (link_change s1)" using run_step links by blast
  then have "\<exists>es. rgmii_run s es (handle_hp_packets_rgmii hp_rx (link_change s1))" using run_step sends_hp by blast
  then have "\<exists>es. rgmii_run s es (handle_incoming_packet_rgmii (handle_hp_packets_rgmii hp_rx (link_change s1)))"
    using run_step offers [OF refl] by blast
  then obtain es where es: "rgmii_run s es (handle_incoming_packet_rgmii (handle_hp_packets_rgmii hp_rx (link_change s1)))" ..
  then show ?thesis
    using run_step [OF es drops] unfolding h rgmii_housekeeping_def Let_def by (auto split: if_splits)
qed

section \<open>The promises\<close>

text \<open>
  C5. However the tasks of the receive side are interleaved after the MAC has started in a mode of the link, each of the
  32 buffers is in exactly one place: free, in a low level receiver, in one of the rings, or with the clients, and then its
  count is right for the clients that still have to read it. A receiver never runs out of its two buffers.
\<close>

theorem rgmii_buffers_in_one_place:
  assumes "fresh_rgmii base s0" and "rgmii_run (rgmii_restart base mode s0) es s"
  shows "(\<forall>b\<in>pool_at base. count (stock s) b = (if holders (rg_clients s) b = 0 then 1 else 0) \<and>
      (holders (rg_clients s) b \<noteq> 0 \<longrightarrow> holders (rg_clients s) b = unat (getf (rg_mem s) b tcount_f) + 1)) \<and>
    set_mset (stock s) \<subseteq> pool_at base \<and>
    (\<forall>i<length (rg_clients s). \<forall>x\<in>set (packets_of s i). uint x \<in> pool_at base) \<and>
    (\<forall>k<2. length (rg_lld s k) = (if k = 0 \<or> \<not> slow_mode mode then 2 else 0))"
proof -
  note r = restart_inv [OF assms(1)]
  have ok: "step_ok base (rgmii_restart base mode s0) es s" by (rule rgmii_run_ok [OF assms(2) r(1,2)])
  then have inv: "rgmii_inv base s" by (simp add: step_ok_def)
  then have o: "owned base (stock s) (rg_clients s) (rg_mem s)" by (simp add: rgmii_inv_at_def)
  have "length (rg_lld s k) = (if k = 0 \<or> \<not> slow_mode mode then 2 else 0)" if "k < 2" for k
    using ok r(4) [of mode k] that by (auto simp: step_ok_def less_2_cases_iff)
  then show ?thesis using o inv_held(1) [OF inv] unfolding owned_def by blast
qed

text \<open>
  C6. In every such run each client reads the frames queued for it in order, each with the bytes it had when it
  was queued: what was queued is what has been read or dropped, then what is still queued.
\<close>

theorem rgmii_clients_are_fifos:
  assumes "fresh_rgmii base s0" and "rgmii_run (rgmii_restart base mode s0) es s" and "i < length (rg_clients s0)"
  shows "queued i es = gone i es @ client_frames s i"
proof -
  note r = restart_inv [OF assms(1)]
  have "step_ok base (rgmii_restart base mode s0) es s" by (rule rgmii_run_ok [OF assms(2) r(1,2)])
  moreover have "client_frames (rgmii_restart base mode s0) i = []"
    using assms(1,3) by (simp add: client_frames_def r(3) fresh_rgmii_def)
  ultimately show ?thesis using assms(3) r(3) [of mode] by (auto simp: step_ok_def)
qed

text \<open>
  The frame at the head of the low priority ring is offered to every client: one that wants it and has
  room gets it at the end of its ring and a notification, one that wants it and has no room counts it as dropped, and the
  others are left alone; when nobody takes it, its buffer is free again.
\<close>

theorem rgmii_frame_is_offered:
  assumes "rgmii_inv base s" and "used_items 32 (rg_lp s) = b # bs"
  defines "s' \<equiv> handle_incoming_packet_rgmii s"
  shows "used_items 32 (rg_lp s') = bs \<and>
     (\<forall>i<length (rg_clients s). let c = rg_clients s ! i; c' = rg_clients s' ! i in
        (if \<not> client_wants (rg_mem s) b i c then c' = c
         else if ring_room 16 c then packets_of s' i = packets_of s i @ [of_int b]
         else c' = c\<lparr>rc_dropped_pkt_cnt := rc_dropped_pkt_cnt c + 1\<rparr>)) \<and>
     rg_ready s' = rg_ready s @ filter (takes_at 16 (rg_mem s) b (rg_clients s)) [0..<length (rg_clients s)] \<and>
     (b \<in># stock s' \<longleftrightarrow> \<not> (\<exists>i<length (rg_clients s). takes_at 16 (rg_mem s) b (rg_clients s) i))"
proof -
  have ne: "\<not> buffers_used_empty (rg_lp s)" using assms(2) used_empty_items [of "rg_lp s" 32] by simp
  note e = handle_incoming_rgmii_effect [OF assms(1) ne, unfolded assms(2) list.sel, folded s'_def]
  have inv': "rgmii_inv base s'" unfolding s'_def by (rule handle_incoming_rgmii_inv [OF assms(1)])
  let ?t = "takers s b"
  have ring: "\<forall>c\<in>set (rg_clients s). client_ok 16 c" using assms(1) by (simp add: rgmii_inv_at_def)
  have "b \<in># stock s" using assms(2) by (simp add: stock_def)
  then have "holders (rg_clients s) b = 0"
    using assms(1) e(1) by (auto simp: rgmii_inv_at_def owned_def not_in_iff simp flip: count_greater_zero_iff split: if_splits)
  then have "holders (rg_clients s') b = length ?t"
    using offer_upto_held_at [OF order_refl ring, of "rg_mem s" b "of_int b" "of_int b"] by (simp add: e(2) holders_def takers_def)
  then have "b \<in># stock s' \<longleftrightarrow> length ?t = 0"
    using inv' e(1) by (auto simp: rgmii_inv_at_def owned_def simp flip: count_greater_zero_iff)
  also have "\<dots> \<longleftrightarrow> \<not> (\<exists>i<length (rg_clients s). takes_at 16 (rg_mem s) b (rg_clients s) i)"
    by (auto simp: takers_def filter_empty_conv)
  finally show ?thesis
    using e(3,5) offered_at_queue(1) [OF inv_ring [OF assms(1)]]
    by (auto simp: e(2) takers_def offered_at_def Let_def)
qed

text \<open>
  C14. A client that reads gets the oldest frame queued for it: its bytes at the start of the array, its length,
  corrected time and filter data; the buffer is free again exactly when no other client still has to read it. An
  array too small for the frame is overrun.
\<close>

theorem rgmii_get_packet_delivers:
  assumes "rgmii_inv base s" and "i < length (rg_clients s)" and "packets_of s i = x # xs"
    and "rc_status_update_state (rg_clients s ! i) \<noteq> STATUS_UPDATE_PENDING" and "b = uint x"
    and "n = unat (getf (rg_mem s) b length_f)"
  shows "(length data < n \<longrightarrow> get_packet_rgmii i data s = Inl Out_Of_Bounds) \<and>
    (n \<le> length data \<longrightarrow> (\<exists>s'. get_packet_rgmii i data s =
        Inr (packet_info_rgmii s b, packet_bytes (rg_mem s) b @ drop n data, s') \<and> rgmii_inv base s' \<and> packets_of s' i = xs \<and>
        (\<forall>j<length (rg_clients s). j \<noteq> i \<longrightarrow> rg_clients s' ! j = rg_clients s ! j) \<and>
        (b \<in># stock s' \<longleftrightarrow> holders (rg_clients s) b = 1)))"
proof -
  let ?c = "rg_clients s ! i" and ?s = "release_oldest_rgmii i s"
  have q: "packets_of s i \<noteq> []" using assms(3) by simp
  note rel = release_oldest_rgmii_inv [OF assms(1,2) q] and ok = inv_ring [OF assms(1,2)]
  have b: "oldest_buffer ?c = b" using inv_pop(2) [OF assms(1,2) q] assms(3,5) by simp
  have len: "length (packet_bytes (rg_mem s) b) = n" by (simp add: packet_bytes_def assms(6))
  define s' where "s' = (if has_packet (rg_clients ?s ! i) then ?s\<lparr>rg_ready := rg_ready ?s @ [i]\<rparr> else ?s)"
  have g: "get_packet_rgmii i data s = bind (put_bytes data 0 (packet_bytes (rg_mem s) b)) (\<lambda>data. Inr (packet_info_rgmii s b, data, s'))"
    using assms(4) ring_has_packet [OF ok] q by (simp add: get_packet_rgmii_def b Let_def s'_def)
  have inv': "rgmii_inv base s'" using rel(1) inv_ready by (simp add: s'_def)
  have c': "rg_clients s' = (rg_clients s)[i := ring_pop 16 ?c]" by (simp add: s'_def rel(2))
  have x: "x \<in> set (packets_of s i)" by (simp add: assms(3))
  have "holders (rg_clients s) b = holders (rg_clients s') b + 1"
  proof -
    have "ring_queue 16 (ring_pop 16 ?c) = xs" using ring_pop_tl [OF ok q] assms(3) by simp
    then show ?thesis
      using held_at_update [OF assms(2), of 16 "ring_pop 16 ?c" x] assms(3) by (simp add: c' holders_def assms(5))
  qed
  then have "b \<in># stock s' \<longleftrightarrow> holders (rg_clients s) b = 1"
    using inv' inv_held(1) [OF assms(1,2) x] by (auto simp: rgmii_inv_at_def owned_def assms(5) simp flip: count_greater_zero_iff)
  then show ?thesis
    using inv' ring_pop_tl [OF ok q] assms(2,3) by (auto simp: g put_bytes_def len c')
qed

text \<open>
  C37. The loop over the high priority frames ends with their ring empty and every buffer of it free; with
  the channel connected it has sent each frame, oldest first, with its descriptor and all its bytes.
\<close>

theorem rgmii_hp_frames_sent:
  fixes hp_rx :: bool and s :: rgmii_rx
  assumes "rgmii_inv base s"
  defines "s' \<equiv> handle_hp_packets_rgmii hp_rx s"
  shows "used_items 32 (rg_hp s') = [] \<and> free_items (rg_free s') = free_items (rg_free s) @ used_items 32 (rg_hp s) \<and>
    rg_hp_out s' = rg_hp_out s @ (if hp_rx
      then map (\<lambda>b. (packet_info_rgmii s b, sout_char_array (packet_bytes (rg_mem s) b))) (used_items 32 (rg_hp s)) else [])"
  using handle_hp_packets_inv [OF assms(1), of hp_rx] by (simp add: s'_def hp_message_rgmii_def cong: map_cong)

section \<open>A change of the mode\<close>

lemma restart_frame: "rg_clients (rgmii_restart base mode s) = rg_clients s" "rg_mem (rgmii_restart base mode s) = rg_mem s"
  by (simp_all add: rgmii_restart_def manager_start_def take_free_def give_lld_def Let_def split: prod.split)

lemma restart_clients:
  "rgmii_restart base mode (s\<lparr>rg_clients := cs\<rparr>) = (rgmii_restart base mode s)\<lparr>rg_clients := cs\<rparr>"
  by (simp add: rgmii_restart_def manager_start_def take_free_def give_lld_def Let_def split: prod.split)

lemma stock_clients: "stock (s\<lparr>rg_clients := cs\<rparr>) = stock s"
  by (simp add: stock_def)

text \<open>
  C38. When the mode changes all the buffers are set up as free, also those that hold frames for the clients: a buffer
  that a client has still to read is at once in the pool or with a receiver, and the read puts it into the pool a second
  time, from where it is given to two owners.
\<close>

theorem rgmii_restart_shares_buffers:
  fixes mode :: u32 and base :: addr and s :: rgmii_rx
  assumes "rgmii_inv base s" and "i < length (rg_clients s)" and "packets_of s i = x # xs"
    and "getf (rg_mem s) (uint x) tcount_f = 0"
  defines "r \<equiv> rgmii_restart base mode s"
  shows "packets_of r i = x # xs \<and> count (stock r) (uint x) = 1 \<and> count (stock (release_oldest_rgmii i r)) (uint x) = 2"
proof -
  let ?s = "s\<lparr>rg_clients := []\<rparr>"
  have "fresh_rgmii base ?s" using assms(1) by (simp add: fresh_rgmii_def rgmii_inv_at_def free_ok_def used_ok_def)
  note i = restart_inv(1) [OF this, of mode]
  have c: "rg_clients r = rg_clients s" "rg_mem r = rg_mem s"
    by (simp_all add: r_def restart_frame)
  have st: "stock (rgmii_restart base mode ?s) = stock r" by (simp only: restart_clients stock_clients r_def)
  have p: "uint x \<in> pool_at base" using inv_held(1) [OF assms(1,2)] assms(3) by simp
  moreover have "rg_clients (rgmii_restart base mode ?s) = []" by (simp add: restart_clients)
  ultimately have one: "count (stock r) (uint x) = 1"
    using i by (simp add: rgmii_inv_at_def owned_def holders_def held_at_def st)
  have "packets_of s i \<noteq> []" using assms(3) by simp
  then have b: "oldest_buffer (rg_clients s ! i) = uint x" using inv_pop(2) [OF assms(1,2)] assms(3) by simp
  have e: "rgmii_restart base mode ?s = r\<lparr>rg_clients := []\<rparr>" by (simp add: restart_clients r_def)
  have "rg_lld r 0 \<noteq> []" using restart_inv(4) [OF \<open>fresh_rgmii base ?s\<close>, of mode 0] by (auto simp: e)
  then have f: "free_ok 32 (rg_free r)" "length (free_items (rg_free r)) < 32"
    using i inv_size [OF i] by (cases "rg_lld r 0"; simp add: e rgmii_inv_at_def stock_def)+
  have "uint x \<noteq> 0" using pool_range [OF _ p] assms(1) by (auto simp: rgmii_inv_at_def)
  note add = free_add_items(2) [OF f this]
  have "release_oldest_rgmii i r = (free_buffer (uint x) r)\<lparr>rg_clients := rg_clients (release_oldest_rgmii i r)\<rparr>"
    using assms(4) by (simp add: release_oldest_rgmii_def mii_get_and_dec_transmit_count_def Let_def c b free_buffer_def)
  then have "stock (release_oldest_rgmii i r) = stock (free_buffer (uint x) r)" using stock_clients by metis
  also have "\<dots> = add_mset (uint x) (stock r)" by (simp add: stock_def free_buffer_def add)
  finally show ?thesis using one assms(3) by (simp add: c)
qed

end
