(* ===== verification/Rgmii_Examples.thy ===== *)
theory Rgmii_Examples
  imports Rgmii_Props
begin

text \<open>
  Concrete states at which the promises of \<open>Rgmii_Props\<close> apply: one client, every address known to the table, and a frame of 64 bytes that comes in at full speed.
\<close>

definition rg_client_ex :: rx_client_state_t where
  "rg_client_ex = \<lparr>rc_dropped_pkt_cnt = 0, rc_rd_index = 0, rc_wr_index = 0, rc_fifo = replicate 16 0,
     rc_status_update_state = STATUS_UPDATE_IGNORING, rc_num_etype_filters = 0, rc_strip_vlan_tags = False,
     rc_etype_filters = [0, 0]\<rparr>"

definition rg_table_ex :: "u32 \<Rightarrow> mii_macaddr_hash_table_t" where
  "rg_table_ex result = \<lparr>ht_polys = [0xedb88320, 0xba75fe21], ht_num_entries = 1,
     ht_entries = replicate 256 \<lparr>he_id0 = 0x03020100, he_id1 = 0x0504, he_result = result, he_appdata = 7\<rparr>\<rparr>"

definition rg_ex :: "u32 \<Rightarrow> rgmii_rx" where
  "rg_ex result = \<lparr>rg_mem = (\<lambda>_. 0), rg_free = \<lparr>bf_top_index = 0, bf_stack = replicate 32 0\<rparr>,
     rg_lp = buffers_used_initialize (replicate 33 0), rg_hp = buffers_used_initialize (replicate 33 0),
     rg_clients = [rg_client_ex],
     rg_hash = \<lparr>hs_table = rg_table_ex result, hs_backup = rg_table_ex result, hs_filter_active = [], hs_waiting = []\<rparr>,
     rg_port = init_server_port_state False, rg_link = ETHERNET_LINK_DOWN, rg_lld = (\<lambda>_. []), rg_mac_address = [],
     rg_ready = [], rg_hp_out = []\<rparr>"

abbreviation rgb :: addr where "rgb \<equiv> 52704"

definition rg_frame_ex :: mem where
  "rg_frame_ex a = (if a = rgb then 64 else if rgb + 40 \<le> a \<and> a < rgb + 104 then (if a mod 8 = 0 then 0x03020100 else 0x07060504) else 0)"

definition rg_filed_ex :: "u32 \<Rightarrow> rgmii_rx" where
  "rg_filed_ex result = rgmii_buffer_manager 0 (Some rgb) (rgmii_restart 4096 13 (rg_ex result)\<lparr>rg_mem := rg_frame_ex\<rparr>)"



lemma rg_ex_fresh: "fresh_rgmii 4096 (rg_ex r)"
  by (simp add: fresh_rgmii_def pool_ok_def rg_ex_def buffers_used_initialize_def rg_client_ex_def client_ok_def
      ring_queue_def ring_dist_def)

text \<open>The state after the start, and after the frame has been filed.\<close>

definition rg_stack_ex :: "addr list" where
  "rg_stack_ex = map (\<lambda>i. 4096 + int i * 1568) [0..<32]"

lemma stack_ex: "bf_stack (buffers_free_initialize (replicate 32 0) 4096 32) = rg_stack_ex"
  using init_stack [of 32 "replicate 32 0" 4096] by (simp add: rg_stack_ex_def)

definition rg_started_ex :: "u32 \<Rightarrow> rgmii_rx" where
  "rg_started_ex r = (rg_ex r)\<lparr>rg_free := \<lparr>bf_top_index = 28, bf_stack = rg_stack_ex\<rparr>,
     rg_lld := (\<lambda>_. [])(0 := [52704, 51136], 1 := [49568, 48000]),
     rg_hash := mii_macaddr_set_num_active_filters 2 (rg_hash (rg_ex r))\<rparr>"

lemma started_ex: "rgmii_restart 4096 13 (rg_ex r) = rg_started_ex r"
proof -
  have i: "buffers_free_initialize (replicate 32 0) 4096 32 = \<lparr>bf_top_index = 32, bf_stack = rg_stack_ex\<rparr>"
    using stack_ex by (simp add: buffers_free_initialize_def)
  show ?thesis
    by (simp add: rgmii_restart_def rg_started_ex_def rg_ex_def i slow_mode_def manager_start_def take_free_def
        give_lld_def buffers_free_take_def rg_stack_ex_def buffers_used_initialize_def init_server_port_state_def Let_def)
qed

lemma lookup_ex: "mii_macaddr_hash_lookup (rg_table_ex r) 0x03020100 0x0504 d = (r, 7)"
  using slot_less [of "rg_table_ex r"] by (simp add: mii_macaddr_hash_lookup_def rg_table_ex_def Let_def)

lemma lld_ex: "rgb \<in> set (rg_lld (rgmii_restart 4096 13 (rg_ex r)) 0)"
  by (simp add: started_ex rg_started_ex_def)

lemma filed_run: "rgmii_run (rgmii_restart 4096 13 (rg_ex r)) [] (rg_filed_ex r)"
proof -
  let ?r = "rgmii_restart 4096 13 (rg_ex r)"
  have "rgmii_step ?r [] (?r\<lparr>rg_mem := rg_frame_ex\<rparr>)"
    by (rule fills [OF _ lld_ex]) (simp_all add: restart_frame rg_ex_def rg_frame_ex_def)
  moreover have "rgmii_step (?r\<lparr>rg_mem := rg_frame_ex\<rparr>) [] (rg_filed_ex r)"
    unfolding rg_filed_ex_def
    by (rule manages) (use lld_ex in \<open>simp_all add: getf_def rg_frame_ex_def MII_PACKET_DATA_BYTES_def\<close>)
  ultimately show ?thesis using more [OF more [OF start]] by force
qed

definition rg_filed_mem :: "u32 \<Rightarrow> mem" where
  "rg_filed_mem r = setf (setf rg_frame_ex rgb filter_data_f 7) rgb filter_result_f r"

lemma key_ex: "rg_frame_ex 52744 = 0x03020100" "rg_frame_ex 52748 = 0x07060504"
  by (simp_all add: rg_frame_ex_def)

lemma filed_fields:
  assumes "r \<noteq> 0"
  shows "rg_mem (rg_filed_ex r) = rg_filed_mem r" "rg_clients (rg_filed_ex r) = [rg_client_ex]" "rg_ready (rg_filed_ex r) = []"
    "rg_hp_out (rg_filed_ex r) = []"
    "used_items 32 (rg_lp (rg_filed_ex r)) = (if ethernet_filter_result_is_hp r = 0 then [rgb] else [])"
    "used_items 32 (rg_hp (rg_filed_ex r)) = (if ethernet_filter_result_is_hp r = 0 then [] else [rgb])"
  unfolding rg_filed_ex_def started_ex using assms
  by (simp_all add: rg_started_ex_def rgmii_buffer_manager_def mii_macaddr_get_hash_table_def
      mii_macaddr_set_num_active_filters_def rg_ex_def take_free_def buffers_free_take_def rg_stack_ex_def file_packet_def
      pkt_data_def key_ex lookup_ex give_lld_def rg_filed_mem_def Let_def used_items_def used_count_def
      buffers_used_initialize_def buffers_used_add_def)

lemma filed_bytes: "getf (rg_filed_mem r) rgb length_f = 64" "packet_bytes (rg_filed_mem r) rgb = concat (replicate 8 [0, 1, 2, 3, 4, 5, 6, 7])"
proof -
  show l: "getf (rg_filed_mem r) rgb length_f = 64" by (simp add: rg_filed_mem_def) (simp add: getf_def rg_frame_ex_def)
  have "ldb (rg_filed_mem r) (52744 + int i) = ldb rg_frame_ex (52744 + int i)" for i
  proof -
    have "52744 \<le> (52744 + int i) - (52744 + int i) mod 4" by presburger
    then show ?thesis by (simp add: ldb_def rg_filed_mem_def setf_other)
  qed
  then have "packet_bytes (rg_filed_mem r) rgb = map (\<lambda>i. ldb rg_frame_ex (52744 + int i)) [0..<64]"
    using l by (simp add: packet_bytes_def ldbs_def pkt_data_def)
  also have "\<dots> = concat (replicate 8 [0, 1, 2, 3, 4, 5, 6, 7])" by code_simp
  finally show "packet_bytes (rg_filed_mem r) rgb = concat (replicate 8 [0, 1, 2, 3, 4, 5, 6, 7])" .
qed

lemma filed_inv: "rgmii_inv 4096 (rg_filed_ex r)" "frames_ok (rg_filed_ex r)"
  using rgmii_run_ok [OF filed_run restart_inv(1,2) [OF rg_ex_fresh]] by (simp_all add: step_ok_def)

section \<open>The frame offered and read\<close>

abbreviation filed :: rgmii_rx where "filed \<equiv> rg_filed_ex 1"
abbreviation offered_ex :: rgmii_rx where "offered_ex \<equiv> handle_incoming_packet_rgmii filed"
abbreviation rg_bytes_ex :: "u8 list" where "rg_bytes_ex \<equiv> concat (replicate 8 [0, 1, 2, 3, 4, 5, 6, 7])"

lemma rg_client_ex: "client_ok 16 rg_client_ex" "ring_queue 16 rg_client_ex = []" "ring_room 16 rg_client_ex"
  by (simp_all add: rg_client_ex_def client_ok_def ring_queue_def ring_dist_def ring_room_def increment_and_wrap_to_zero_def)

lemma filed_lp: "\<not> buffers_used_empty (rg_lp filed)" "used_items 32 (rg_lp filed) = [rgb]"
  "fst (buffers_used_take (rg_lp filed) 32) = rgb"
proof -
  show i: "used_items 32 (rg_lp filed) = [rgb]" by (simp add: filed_fields ethernet_filter_result_is_hp_def)
  then show "\<not> buffers_used_empty (rg_lp filed)" by (simp add: used_empty_items [of _ 32])
  have "used_ok 32 (rg_lp filed)" using filed_inv(1) by (simp add: rgmii_inv_at_def)
  then show "fst (buffers_used_take (rg_lp filed) 32) = rgb" using used_take_items [of 32 "rg_lp filed"] i by auto
qed

lemma takes_ex: "takes_at 16 (rg_filed_mem 1) rgb [rg_client_ex] 0"
  by (simp add: takes_at_def client_wants_def rg_client_ex(3)) (simp add: rg_filed_mem_def rg_client_ex_def)

lemmas offered_effect = handle_incoming_rgmii_effect [OF filed_inv(1) filed_lp(1), unfolded filed_lp(2) list.sel]

lemma offered_clients: "rg_clients offered_ex = [ring_push 16 rg_client_ex (of_int rgb)]" "rg_ready offered_ex = [0]"
  using takes_ex by (simp_all add: offered_effect(2,3) filed_fields offer_upto_at_def offered_at_def takers_def takes_at_def)

lemma offered_ex: "rgmii_inv 4096 offered_ex" "packets_of offered_ex 0 = [of_int rgb]" "getf (rg_mem offered_ex) rgb length_f = 64"
  "getf (rg_mem offered_ex) rgb tcount_f = 0" "holders (rg_clients offered_ex) rgb = 1"
  "rc_status_update_state (rg_clients offered_ex ! 0) = STATUS_UPDATE_IGNORING"
  "packet_bytes (rg_mem offered_ex) rgb = rg_bytes_ex"
proof -
  show inv: "rgmii_inv 4096 offered_ex" by (rule handle_incoming_rgmii_inv [OF filed_inv(1)])
  show q: "packets_of offered_ex 0 = [of_int rgb]"
    using ring_push_queue(1) [OF rg_client_ex(1,3)] by (simp add: offered_clients rg_client_ex(2))
  then show h: "holders (rg_clients offered_ex) rgb = 1" by (simp add: offered_clients holders_def held_at_def)
  show "rc_status_update_state (rg_clients offered_ex ! 0) = STATUS_UPDATE_IGNORING"
    by (simp add: offered_clients ring_push_def rg_client_ex_def)
  have "holders (rg_clients offered_ex) rgb = unat (getf (rg_mem offered_ex) rgb tcount_f) + 1"
    using inv_held(3) [OF inv, of 0 "of_int rgb"] q by (simp add: offered_clients(1))
  then show "getf (rg_mem offered_ex) rgb tcount_f = 0" using h by (simp add: unat_eq_0)
  have u: "rgb \<in> in_use filed" by (simp add: in_use_def filed_lp)
  show "getf (rg_mem offered_ex) rgb length_f = 64" "packet_bytes (rg_mem offered_ex) rgb = rg_bytes_ex"
    using frame_kept [OF filed_inv u offered_effect(4)] by (simp_all add: filed_fields filed_bytes)
qed

lemma offered_run: "rgmii_run (rgmii_restart 4096 13 (rg_ex 1)) [Queued 0 rg_bytes_ex] offered_ex"
  using more [OF filed_run [of 1] offers [OF refl]] by (simp add: filed_fields filed_lp(3) filed_bytes offered_clients(2))

lemma read_ex: "\<exists>s. rgmii_run (rgmii_restart 4096 13 (rg_ex 1)) [Queued 0 rg_bytes_ex, Read 0 rg_bytes_ex] s"
proof -
  have b: "oldest_buffer (rg_clients offered_ex ! 0) = rgb"
    using inv_pop(2) [OF offered_ex(1), of 0] offered_ex(2) by (simp add: offered_clients(1))
  have p: "has_packet (rg_clients offered_ex ! 0)"
    using ring_has_packet [OF inv_ring [OF offered_ex(1)], of 0] offered_ex(2) by (simp add: offered_clients(1))
  have len: "length rg_bytes_ex = 64" by code_simp
  then have "put_bytes (replicate 64 0) 0 rg_bytes_ex = Inr rg_bytes_ex" unfolding put_bytes_def by simp
  then obtain s where g: "get_packet_rgmii 0 (replicate 64 0) offered_ex = Inr (packet_info_rgmii offered_ex rgb, rg_bytes_ex, s)"
    using b p offered_ex(6,7) by (auto simp: get_packet_rgmii_def Let_def)
  have r: "read_event 0 (Packet (packet_info_rgmii offered_ex rgb) rg_bytes_ex) = [Read 0 rg_bytes_ex]"
    using offered_ex(3) len by (simp add: packet_info_rgmii_def Let_def)
  have "rgmii_step offered_ex (read_event 0 (Packet (packet_info_rgmii offered_ex rgb) rg_bytes_ex)) s"
    by (rule calls [where e = "Get_Packet (replicate 64 0)"]) (simp_all add: offered_clients g)
  then show ?thesis using more [OF offered_run] r by force
qed

section \<open>The promises at these states\<close>

lemma rgmii_buffers_in_one_place_witness:
  "count (stock offered_ex) rgb = 0 \<and> holders (rg_clients offered_ex) rgb = 1 \<and> length (rg_lld offered_ex 0) = 2"
proof -
  have "rgb \<in> pool_at 4096" using inv_hand filed_inv by (auto simp: pool_at_def image_iff intro!: bexI [of _ 31])
  then show ?thesis
    using rgmii_buffers_in_one_place [OF rg_ex_fresh offered_run] offered_ex(5) by (force simp: slow_mode_def)
qed

lemma rgmii_clients_are_fifos_witness:
  "\<exists>s. rgmii_run (rgmii_restart 4096 13 (rg_ex 1)) [Queued 0 rg_bytes_ex, Read 0 rg_bytes_ex] s \<and> client_frames s 0 = []"
proof -
  obtain s where s: "rgmii_run (rgmii_restart 4096 13 (rg_ex 1)) [Queued 0 rg_bytes_ex, Read 0 rg_bytes_ex] s" using read_ex ..
  then have "client_frames s 0 = []" using rgmii_clients_are_fifos [OF rg_ex_fresh s, of 0] by (simp add: rg_ex_def)
  then show ?thesis using s by blast
qed

lemma rgmii_frame_is_offered_witness:
  "packets_of offered_ex 0 = [of_int rgb] \<and> rg_ready offered_ex = [0] \<and> rgb \<notin># stock offered_ex"
  using rgmii_frame_is_offered [OF filed_inv(1) filed_lp(2)] takes_ex rg_client_ex
  by (auto simp: filed_fields takes_at_def Let_def)

lemma rgmii_get_packet_delivers_witness:
  "get_packet_rgmii 0 [] offered_ex = Inl Out_Of_Bounds \<and>
   (\<exists>s'. get_packet_rgmii 0 (replicate 64 0) offered_ex = Inr (packet_info_rgmii offered_ex rgb, rg_bytes_ex, s') \<and>
     packets_of s' 0 = [] \<and> rgb \<in># stock s')"
proof -
  note d = rgmii_get_packet_delivers [OF offered_ex(1) _ offered_ex(2) _ refl refl]
  have u: "uint (of_int rgb :: u32) = rgb" "unat (getf (rg_mem offered_ex) rgb length_f) = 64" by (simp_all add: offered_ex(3))
  show ?thesis using d [of "[]"] d [of "replicate 64 0"] offered_ex(5-7) unfolding u by (auto simp: offered_clients(1))
qed

lemma rgmii_hp_frames_sent_witness:
  "map snd (rg_hp_out (handle_hp_packets_rgmii True (rg_filed_ex 0x80000001))) =
     [sout_char_array (packet_bytes (rg_filed_mem 0x80000001) rgb)]"
proof -
  have "ethernet_filter_result_is_hp 0x80000001 \<noteq> 0" by code_simp
  then show ?thesis
    using rgmii_hp_frames_sent [where hp_rx = True, OF filed_inv(1)] by (simp add: filed_fields)
qed

lemma rgmii_restart_shares_buffers_witness:
  "count (stock (release_oldest_rgmii 0 (rgmii_restart 4096 10 offered_ex))) rgb = 2"
  using rgmii_restart_shares_buffers [OF offered_ex(1) _ offered_ex(2), where mode = 10] offered_ex(4)
  by (simp add: offered_clients(1))


end
