(* ===== verification/Rgmii_Tx.thy ===== *)
theory Rgmii_Tx
  imports Rgmii_Buffers Interfaces
begin

text \<open>
  The transmit server of the 10/100/1000 MAC, \<open>rgmii_ethernet_tx_server\<close> of \<^verbatim>\<open>lib_ethernet/src/rgmii_buffering.xc\<close>: the
  calls of the clients, the high priority channel, the buffers that come back from the transmitter, the traffic
  shaper, and the choice of the next packet.
\<close>

section \<open>State\<close>

text \<open>
  The shared state and the variables of the server; \<open>rt_mac\<close> are the buffers on the other side of its channel, in the
  transmitter. The three counters are bounded by the invariant of \<open>Rgmii_Tx_Props\<close>, the credit is a 32-bit word.
\<close>

record rgmii_tx =
  rt_mem :: mem
  rt_clients :: "tx_client_state_t list"
  rt_free_lp :: buffers_free_t
  rt_free_hp :: buffers_free_t
  rt_lp :: buffers_used_t
  rt_hp :: buffers_used_t
  rt_port :: ethernet_port_state_t
  rt_buf_hp :: addr
  rt_credit :: u32
  rt_credit_time :: u32
  rt_sender_count :: int
  rt_work_pending :: int
  rt_prioritize_ack :: int
  rt_mac :: "addr list"

text \<open>What the \<^verbatim>\<open>select\<close> can take: a call, the length and the bytes on the high priority channel, a buffer sent, nothing.\<close>

datatype rgmii_tx_event = Tx_Call nat ethernet_tx_if | Tx_Hp u32 "u8 list" | Tx_Sent addr | Tx_None

section \<open>The cases\<close>

definition on_tx_client :: "nat \<Rightarrow> (tx_client_state_t \<Rightarrow> tx_client_state_t) \<Rightarrow> rgmii_tx \<Rightarrow> rgmii_tx" where
  "on_tx_client i f s = s\<lparr>rt_clients := (rt_clients s)[i := f (rt_clients s ! i)]\<rparr>"

definition egress_latency :: "rgmii_tx \<Rightarrow> u32" where
  "egress_latency s = ps_egress_ts_latency (rt_port s) ! speed_num (ps_link_speed (rt_port s))"

text \<open>A packet is put into its buffer; \<open>kind\<close> marks it as low (0) or high (1) priority.\<close>

definition fill_buffer :: "mem \<Rightarrow> addr \<Rightarrow> u8 list \<Rightarrow> u32 \<Rightarrow> u32 \<Rightarrow> u32 \<Rightarrow> mem" where
  "fill_buffer m buf data n timestamp_id kind =
     (let m = stbs m (pkt_data buf) data; m = setf m buf length_f n; m = setf m buf timestamp_id_f timestamp_id;
          m = setf m buf filter_data_f kind
      in setf m buf tcount_f 0)"

definition init_send_packet_rgmii :: "nat \<Rightarrow> rgmii_tx \<Rightarrow> rgmii_tx" where
  "init_send_packet_rgmii i =
     on_tx_client i (\<lambda>c. if tc_send_buffer c = 0 then c\<lparr>tc_requested_send_buffer_size := 1\<rparr> else c)"

definition get_outgoing_timestamp_rgmii :: "nat \<Rightarrow> rgmii_tx \<Rightarrow> u32 \<times> rgmii_tx" where
  "get_outgoing_timestamp_rgmii i s =
     (tc_outgoing_timestamp (rt_clients s ! i) + egress_latency s,
      on_tx_client i (\<lambda>c. c\<lparr>tc_has_outgoing_timestamp_info := False\<rparr>) s)"

definition complete_send_packet_rgmii :: "nat \<Rightarrow> u8 list \<Rightarrow> bool \<Rightarrow> rgmii_tx \<Rightarrow> rgmii_tx" where
  "complete_send_packet_rgmii i data request_timestamp s =
     (let buf = tc_send_buffer (rt_clients s ! i)
      in on_tx_client i (\<lambda>c. c\<lparr>tc_send_buffer := 0, tc_requested_send_buffer_size := 0\<rparr>)
           (s\<lparr>rt_mem := fill_buffer (rt_mem s) buf data (of_nat (length data)) (if request_timestamp then of_nat (i + 1) else 0) 0,
              rt_work_pending := rt_work_pending s + 1,
              rt_lp := buffers_used_add (rt_lp s) buf 8,
              rt_prioritize_ack := rt_prioritize_ack s + 2\<rparr>))"

definition take_free_hp :: "rgmii_tx \<Rightarrow> rgmii_tx" where
  "take_free_hp s = (let (b, f) = buffers_free_take (rt_free_hp s) in s\<lparr>rt_buf_hp := b, rt_free_hp := f\<rparr>)"

definition hp_packet_rgmii :: "u32 \<Rightarrow> u8 list \<Rightarrow> rgmii_tx \<Rightarrow> rgmii_tx" where
  "hp_packet_rgmii n_bytes ch s =
     (let buf = rt_buf_hp s; (data, _) = sin_char_array (unat n_bytes) ch;
          s = s\<lparr>rt_mem := fill_buffer (rt_mem s) buf data n_bytes 0 1, rt_work_pending := rt_work_pending s + 1,
                rt_hp := buffers_used_add (rt_hp s) buf 8\<rparr>;
          s = take_free_hp s
      in s\<lparr>rt_prioritize_ack := rt_prioritize_ack s + 2\<rparr>)"

definition buffer_sent :: "addr \<Rightarrow> rgmii_tx \<Rightarrow> rgmii_tx" where
  "buffer_sent buf s =
     (let m = rt_mem s; s = s\<lparr>rt_sender_count := rt_sender_count s - 1, rt_mac := remove1 buf (rt_mac s)\<rparr>
      in if getf m buf filter_data_f \<noteq> 0 then s\<lparr>rt_free_hp := buffers_free_add (rt_free_hp s) buf\<rparr>
         else (let s = (if getf m buf timestamp_id_f \<noteq> 0
                 then on_tx_client (unat (getf m buf timestamp_id_f - 1))
                        (\<lambda>c. c\<lparr>tc_has_outgoing_timestamp_info := True,
                              tc_outgoing_timestamp := getf m buf timestamp_f + egress_latency s\<rparr>) s
                 else s)
               in s\<lparr>rt_free_lp := buffers_free_add (rt_free_lp s) buf\<rparr>))"

fun tx_enabled_rgmii :: "rgmii_tx_event \<Rightarrow> rgmii_tx \<Rightarrow> bool" where
  "tx_enabled_rgmii (Tx_Call i Get_Outgoing_Timestamp) s \<longleftrightarrow> tc_has_outgoing_timestamp_info (rt_clients s ! i)"
| "tx_enabled_rgmii (Tx_Call i (Complete_Send_Packet data ts)) s \<longleftrightarrow>
     tc_send_buffer (rt_clients s ! i) \<noteq> 0 \<and> rt_prioritize_ack s = 0"
| "tx_enabled_rgmii (Tx_Hp n ch) s \<longleftrightarrow> rt_buf_hp s \<noteq> 0 \<and> rt_prioritize_ack s = 0"
| "tx_enabled_rgmii (Tx_Sent buf) s \<longleftrightarrow> buf \<in> set (rt_mac s)"
| "tx_enabled_rgmii _ s \<longleftrightarrow> True"

fun handle_tx_rgmii :: "rgmii_tx_event \<Rightarrow> rgmii_tx \<Rightarrow> reply \<times> rgmii_tx" where
  "handle_tx_rgmii (Tx_Call i (Init_Send_Packet n)) s = (No_Reply, init_send_packet_rgmii i s)"
| "handle_tx_rgmii (Tx_Call i (Complete_Send_Packet data ts)) s = (No_Reply, complete_send_packet_rgmii i data ts s)"
| "handle_tx_rgmii (Tx_Call i Get_Outgoing_Timestamp) s = (let (t, s) = get_outgoing_timestamp_rgmii i s in (Timestamp t, s))"
| "handle_tx_rgmii (Tx_Hp n ch) s = (No_Reply, hp_packet_rgmii n ch s)"
| "handle_tx_rgmii (Tx_Sent buf) s = (No_Reply, buffer_sent buf s)"
| "handle_tx_rgmii Tx_None s = (No_Reply, s)"

section \<open>The rest of a turn\<close>

definition tx_prioritize :: "rgmii_tx \<Rightarrow> rgmii_tx" where
  "tx_prioritize s = (if rt_prioritize_ack s \<noteq> 0 then s\<lparr>rt_prioritize_ack := rt_prioritize_ack s - 1\<rparr> else s)"

definition tx_credit :: "bool \<Rightarrow> u32 \<Rightarrow> rgmii_tx \<Rightarrow> rgmii_tx" where
  "tx_credit enable_shaper now s =
     (if enable_shaper
      then (let elapsed = now - rt_credit_time s; credit = rt_credit s + elapsed * ps_qav_idle_slope (rt_port s);
                credit = (if buffers_used_empty (rt_hp s) \<and> 0 <s credit then 0 else credit)
            in s\<lparr>rt_credit_time := now, rt_credit := credit\<rparr>)
      else s)"

text \<open>What a high priority packet of \<open>len\<close> bytes costs: its bits with preamble, gap and checksum.\<close>

definition credit_cost_rgmii :: "u32 \<Rightarrow> u32" where
  "credit_cost_rgmii len = push_bit (MII_CREDIT_FRACTIONAL_BITS + 3) (len + 8 + 96 div 8 + 4)"

definition tx_send :: "bool \<Rightarrow> rgmii_tx \<Rightarrow> rgmii_tx" where
  "tx_send enable_shaper s =
     (if rt_work_pending s \<noteq> 0 \<and> rt_sender_count s < 2
      then (let (buf, s) =
                  (if \<not> buffers_used_empty (rt_hp s) \<and> (enable_shaper \<longrightarrow> 0 \<le>s rt_credit s)
                   then (let (b, hp) = buffers_used_take (rt_hp s) 8 in (b, s\<lparr>rt_hp := hp\<rparr>)) else (0, s));
                (buf, high, s) =
                  (if buf = 0 \<and> \<not> buffers_used_empty (rt_lp s)
                   then (let (b, lp) = buffers_used_take (rt_lp s) 8 in (b, False, s\<lparr>rt_lp := lp\<rparr>)) else (buf, True, s))
            in if buf \<noteq> 0
               then (let s = s\<lparr>rt_work_pending := rt_work_pending s - 1, rt_sender_count := rt_sender_count s + 1,
                               rt_mac := rt_mac s @ [buf]\<rparr>
                     in if enable_shaper \<and> high
                        then s\<lparr>rt_credit := rt_credit s - credit_cost_rgmii (getf (rt_mem s) buf length_f)\<rparr> else s)
               else s)
      else s)"

definition reserve_one_rgmii :: "nat \<Rightarrow> rgmii_tx \<Rightarrow> rgmii_tx" where
  "reserve_one_rgmii i s =
     (let c = rt_clients s ! i
      in if tc_requested_send_buffer_size c \<noteq> 0 \<and> tc_send_buffer c = 0
         then (let (b, f) = buffers_free_take (rt_free_lp s)
               in on_tx_client i (\<lambda>c. c\<lparr>tc_send_buffer := b\<rparr>) (s\<lparr>rt_free_lp := f\<rparr>))
         else s)"

definition tx_reserve :: "bool \<Rightarrow> rgmii_tx \<Rightarrow> rgmii_tx" where
  "tx_reserve hp_tx s =
     (let s = (if hp_tx \<and> rt_buf_hp s = 0 then take_free_hp s else s)
      in fold reserve_one_rgmii [0..<length (rt_clients s)] s)"

text \<open>One turn of the loop, at time \<open>now\<close>; \<open>None\<close> when the \<^verbatim>\<open>select\<close> does not take the event.\<close>

definition rgmii_ethernet_tx_server :: "bool \<Rightarrow> bool \<Rightarrow> u32 \<Rightarrow> rgmii_tx_event \<Rightarrow> rgmii_tx \<Rightarrow> (reply \<times> rgmii_tx) option" where
  "rgmii_ethernet_tx_server enable_shaper hp_tx now e s =
     (let s = tx_prioritize s
      in if tx_enabled_rgmii e s
         then (let (r, s) = handle_tx_rgmii e s
               in Some (r, tx_reserve hp_tx (tx_send enable_shaper (tx_credit enable_shaper now s))))
         else None)"

text \<open>The start of the server after its buffers have been set up in the arrays \<open>buffer_tx_lp\<close> and \<open>buffer_tx_hp\<close>.\<close>

definition rgmii_tx_start :: "bool \<Rightarrow> addr \<Rightarrow> addr \<Rightarrow> u32 \<Rightarrow> rgmii_tx \<Rightarrow> rgmii_tx" where
  "rgmii_tx_start hp_tx buffer_tx_lp buffer_tx_hp now s =
     (let s = s\<lparr>rt_lp := buffers_used_initialize (bu_pointers (rt_lp s)), rt_hp := buffers_used_initialize (bu_pointers (rt_hp s)),
                rt_free_lp := buffers_free_initialize (bf_stack (rt_free_lp s)) buffer_tx_lp 8,
                rt_free_hp := buffers_free_initialize (bf_stack (rt_free_hp s)) buffer_tx_hp 8,
                rt_buf_hp := 0, rt_credit := 0, rt_credit_time := now, rt_sender_count := 0, rt_work_pending := 0,
                rt_prioritize_ack := 0, rt_mac := []\<rparr>
      in if hp_tx then take_free_hp s else s)"

end
