(* ===== verification/Rgmii_Tx_Inv.thy ===== *)
theory Rgmii_Tx_Inv
  imports Rgmii_Tx
begin

text \<open>
  Where the transmit buffers of the RGMII MAC are: each of the 8 low priority buffers is free, with a client that will
  fill it, in the ring, or in the transmitter, and likewise the high priority ones; the counters of the
  server agree with this, and the packets in the rings keep their bytes until they are sent.
\<close>

section \<open>The two pools\<close>

definition tx_pool :: "addr \<Rightarrow> addr set" where
  "tx_pool base = (\<lambda>i. base + int i * sizeof_mii_packet_t) ` {..<8}"

definition tx_pools_ok :: "addr \<Rightarrow> addr \<Rightarrow> bool" where
  "tx_pools_ok bl bh \<longleftrightarrow> 0 < bl \<and> 0 < bh \<and> bl mod 4 = 0 \<and> bh mod 4 = 0 \<and>
     (bl + 8 * sizeof_mii_packet_t \<le> bh \<or> bh + 8 * sizeof_mii_packet_t \<le> bl)"

lemma tx_pool_facts:
  assumes "tx_pools_ok bl bh"
  shows "b \<in> tx_pool bl \<union> tx_pool bh \<Longrightarrow> b \<noteq> 0 \<and> b mod 4 = 0" "tx_pool bl \<inter> tx_pool bh = {}"
    "b \<in> tx_pool bl \<union> tx_pool bh \<Longrightarrow> b' \<in> tx_pool bl \<union> tx_pool bh \<Longrightarrow> b \<noteq> b' \<Longrightarrow> b + 1568 \<le> b' \<or> b' + 1568 \<le> b"
  using assms by (auto simp: tx_pools_ok_def tx_pool_def)

lemma card_tx_pool: "finite (tx_pool base)" "card (tx_pool base) = 8"
proof -
  have "inj_on (\<lambda>i. base + int i * sizeof_mii_packet_t) {..<8}" by (auto simp: inj_on_def)
  then show "card (tx_pool base) = 8" by (simp add: tx_pool_def card_image)
  show "finite (tx_pool base)" by (simp add: tx_pool_def)
qed

section \<open>The invariant\<close>

definition client_buffers :: "tx_client_state_t list \<Rightarrow> addr list" where
  "client_buffers cs = filter (\<lambda>b. b \<noteq> 0) (map tc_send_buffer cs)"

definition lp_stock :: "addr \<Rightarrow> rgmii_tx \<Rightarrow> addr multiset" where
  "lp_stock bl s = mset (free_items (rt_free_lp s)) + mset (used_items 8 (rt_lp s)) + mset (client_buffers (rt_clients s)) +
     filter_mset (\<lambda>b. b \<in> tx_pool bl) (mset (rt_mac s))"

definition hp_stock :: "addr \<Rightarrow> rgmii_tx \<Rightarrow> addr multiset" where
  "hp_stock bh s = mset (free_items (rt_free_hp s)) + mset (used_items 8 (rt_hp s)) + mset (filter (\<lambda>b. b \<noteq> 0) [rt_buf_hp s]) +
     filter_mset (\<lambda>b. b \<in> tx_pool bh) (mset (rt_mac s))"

text \<open>The packets on their way.\<close>

definition on_way :: "rgmii_tx \<Rightarrow> addr set" where
  "on_way s = set (rt_mac s) \<union> set (used_items 8 (rt_lp s)) \<union> set (used_items 8 (rt_hp s))"

definition tx_inv :: "addr \<Rightarrow> addr \<Rightarrow> rgmii_tx \<Rightarrow> bool" where
  "tx_inv bl bh s \<longleftrightarrow> tx_pools_ok bl bh \<and> free_ok 8 (rt_free_lp s) \<and> free_ok 8 (rt_free_hp s) \<and> used_ok 8 (rt_lp s) \<and> used_ok 8 (rt_hp s) \<and>
     lp_stock bl s = mset_set (tx_pool bl) \<and> hp_stock bh s = mset_set (tx_pool bh) \<and> set (rt_mac s) \<subseteq> tx_pool bl \<union> tx_pool bh \<and>
     rt_sender_count s = int (length (rt_mac s)) \<and> length (rt_mac s) \<le> 2 \<and>
     rt_work_pending s = int (used_count (rt_lp s) + used_count (rt_hp s)) \<and> 0 \<le> rt_prioritize_ack s \<and> rt_prioritize_ack s \<le> 2 \<and>
     (\<forall>b\<in>on_way s. (getf (rt_mem s) b filter_data_f = 0 \<longleftrightarrow> b \<in> tx_pool bl) \<and> unat (getf (rt_mem s) b length_f) \<le> 1528)"

lemma lp_member: "tx_inv bl bh s \<Longrightarrow> b \<in># lp_stock bl s \<Longrightarrow> b \<in> tx_pool bl"
  by (simp add: tx_inv_def card_tx_pool)

lemma hp_member: "tx_inv bl bh s \<Longrightarrow> b \<in># hp_stock bh s \<Longrightarrow> b \<in> tx_pool bh"
  by (simp add: tx_inv_def card_tx_pool)

lemma stock_sizes: "tx_inv bl bh s \<Longrightarrow> size (lp_stock bl s) = 8 \<and> size (hp_stock bh s) = 8"
  by (simp add: tx_inv_def card_tx_pool)

lemma stock_once: "tx_inv bl bh s \<Longrightarrow> count (lp_stock bl s) b \<le> 1 \<and> count (hp_stock bh s) b \<le> 1"
  by (simp add: tx_inv_def count_mset_set')

lemma in_stock:
  "b \<in> set (used_items 8 (rt_lp s)) \<Longrightarrow> b \<in># lp_stock bl s" "b \<in> set (used_items 8 (rt_hp s)) \<Longrightarrow> b \<in># hp_stock bh s"
  by (simp_all add: lp_stock_def hp_stock_def)

lemma on_way_pool: "tx_inv bl bh s \<Longrightarrow> b \<in> on_way s \<Longrightarrow> b \<in> tx_pool bl \<union> tx_pool bh"
proof -
  assume i: "tx_inv bl bh s" and b: "b \<in> on_way s"
  have "set (rt_mac s) \<subseteq> tx_pool bl \<union> tx_pool bh" using i by (simp add: tx_inv_def)
  then show ?thesis using b lp_member [OF i in_stock(1)] hp_member [OF i in_stock(2)] by (auto simp: on_way_def)
qed

section \<open>Filling a buffer\<close>

definition tx_frame :: "mem \<Rightarrow> addr \<Rightarrow> u8 list" where
  "tx_frame m b = ldbs m (pkt_data b) (unat (getf m b length_f))"

lemma fill_fields:
  assumes "b mod 4 = 0"
  shows "getf (fill_buffer m b data n t kind) b filter_data_f = kind" "getf (fill_buffer m b data n t kind) b length_f = n"
    "getf (fill_buffer m b data n t kind) b timestamp_id_f = t"
  by (simp_all add: fill_buffer_def Let_def)

lemma fill_frame:
  assumes "unat n = length data" "b mod 4 = 0"
  shows "tx_frame (fill_buffer m b data n t kind) b = data"
proof -
  have "ldb (fill_buffer m b data n t kind) (pkt_data b + int i) = ldb (stbs m (pkt_data b) data) (pkt_data b + int i)" for i
  proof -
    have "b + 40 \<le> (pkt_data b + int i) - (pkt_data b + int i) mod 4" using assms(2) by (simp add: pkt_data_def) presburger
    then show ?thesis by (simp add: ldb_def fill_buffer_def Let_def setf_other)
  qed
  then have "ldbs (fill_buffer m b data n t kind) (pkt_data b) (length data) = data"
    using ldbs_stbs_same [of m "pkt_data b" data] by (simp add: ldbs_def)
  then show ?thesis using fill_fields(2) [OF assms(2)] assms(1) by (simp add: tx_frame_def)
qed

text \<open>Other buffers are not touched.\<close>

lemma fill_other:
  assumes "b + 1568 \<le> b' \<or> b' + 1568 \<le> b" "b mod 4 = 0" "b' mod 4 = 0" "length data \<le> 1528" "b' \<le> a" "a < b' + 1568" "a mod 4 = 0"
  shows "fill_buffer m b data n t kind a = m a"
proof -
  have "a < b \<or> b + 1568 \<le> a" using assms by auto
  then have o: "a < b \<or> b + 40 \<le> a" "a + 4 \<le> pkt_data b \<or> pkt_data b + int (length data) \<le> a"
    using assms by (auto simp: pkt_data_def)
  then have "stbs m (pkt_data b) data a = m a" using assms(7) by (intro stbs_outside) auto
  then show ?thesis using o(1) by (simp add: fill_buffer_def Let_def setf_other)
qed

lemma fill_other_fields:
  assumes "b + 1568 \<le> b' \<or> b' + 1568 \<le> b" "b mod 4 = 0" "b' mod 4 = 0" "length data \<le> 1528"
  shows "getf (fill_buffer m b data n t kind) b' f = getf m b' f"
    "unat (getf m b' length_f) \<le> 1528 \<Longrightarrow> tx_frame (fill_buffer m b data n t kind) b' = tx_frame m b'"
proof -
  have fld: "getf (fill_buffer m b data n t kind) b' f = getf m b' f" for f
  proof -
    have "fld_off f mod 4 = 0" by (cases f) simp_all
    then have "(b' + fld_off f) mod 4 = 0" using assms(3) by presburger
    then show ?thesis using fill_other [OF assms] fld_off_range [of f] by (simp add: getf_def)
  qed
  then show "getf (fill_buffer m b data n t kind) b' f = getf m b' f" .
  assume len: "unat (getf m b' length_f) \<le> 1528"
  have "ldb (fill_buffer m b data n t kind) (pkt_data b' + int i) = ldb m (pkt_data b' + int i)" if "i < 1528" for i
  proof -
    let ?a = "(pkt_data b' + int i) - (pkt_data b' + int i) mod 4"
    have "b' \<le> ?a" "?a < b' + 1568" "?a mod 4 = 0"
      using that assms(3) by (simp_all add: pkt_data_def mod_diff_eq)
    then show ?thesis using fill_other [OF assms] by (simp add: ldb_def)
  qed
  then show "tx_frame (fill_buffer m b data n t kind) b' = tx_frame m b'"
    using len fld by (simp add: tx_frame_def ldbs_def)
qed

section \<open>The cases of the select\<close>

lemma client_buffers_update:
  assumes "i < length cs"
  shows "mset (client_buffers (cs[i := c])) + mset (filter (\<lambda>b. b \<noteq> 0) [tc_send_buffer (cs ! i)]) =
    mset (client_buffers cs) + mset (filter (\<lambda>b. b \<noteq> 0) [tc_send_buffer c])"
proof -
  have cs: "cs = take i cs @ cs ! i # drop (Suc i) cs" by (rule id_take_nth_drop [OF assms])
  have "cs[i := c] = take i cs @ c # drop (Suc i) cs" by (rule upd_conv_take_nth_drop [OF assms])
  then show ?thesis by (subst (2) cs) (simp add: client_buffers_def)
qed

lemma client_buffers_same: "(\<And>c. tc_send_buffer (f c) = tc_send_buffer c) \<Longrightarrow> client_buffers (cs[i := f (cs ! i)]) = client_buffers cs"
proof (cases "i < length cs")
  case True
  assume "\<And>c. tc_send_buffer (f c) = tc_send_buffer c"
  then have "map tc_send_buffer (cs[i := f (cs ! i)]) = (map tc_send_buffer cs)[i := map tc_send_buffer cs ! i]"
    using True by (simp add: map_update)
  then show ?thesis by (simp only: client_buffers_def list_update_id)
qed (simp add: list_update_beyond)

lemma hand_lp:
  assumes inv: "tx_inv bl bh s" and i: "i < length (rt_clients s)" and b: "tc_send_buffer (rt_clients s ! i) \<noteq> 0"
  shows "tc_send_buffer (rt_clients s ! i) \<in> tx_pool bl" "tc_send_buffer (rt_clients s ! i) \<notin> on_way s"
    "used_count (rt_lp s) < 8"
proof -
  let ?b = "tc_send_buffer (rt_clients s ! i)"
  have m: "?b \<in> set (client_buffers (rt_clients s))" using i b by (simp add: client_buffers_def)
  then have "1 \<le> count (mset (client_buffers (rt_clients s))) ?b" by (metis count_greater_eq_one_iff set_mset_mset)
  moreover have "count (lp_stock bl s) ?b \<le> 1" using stock_once [OF inv] by simp
  ultimately have "count (mset (used_items 8 (rt_lp s))) ?b = 0" "count (filter_mset (\<lambda>b. b \<in> tx_pool bl) (mset (rt_mac s))) ?b = 0"
    unfolding lp_stock_def count_union by linarith+
  then have no: "?b \<notin> set (used_items 8 (rt_lp s))" "?b \<in> tx_pool bl \<Longrightarrow> ?b \<notin> set (rt_mac s)" by (auto simp: count_eq_zero_iff)
  have "?b \<in># lp_stock bl s" using m by (simp add: lp_stock_def)
  then show p: "?b \<in> tx_pool bl" by (rule lp_member [OF inv])
  have "tx_pool bl \<inter> tx_pool bh = {}" using inv by (auto simp: tx_inv_def dest: tx_pool_facts(2))
  then have "?b \<notin> set (used_items 8 (rt_hp s))" using p hp_member [OF inv in_stock(2)] by blast
  then show "?b \<notin> on_way s" using no p by (simp add: on_way_def)
  have "0 < length (client_buffers (rt_clients s))" using m by (cases "client_buffers (rt_clients s)") auto
  moreover have "length (free_items (rt_free_lp s)) + used_count (rt_lp s) + length (client_buffers (rt_clients s)) \<le> 8"
    using stock_sizes [OF inv] by (simp add: lp_stock_def)
  ultimately show "used_count (rt_lp s) < 8" by linarith
qed

lemma hand_hp:
  assumes inv: "tx_inv bl bh s" and b: "rt_buf_hp s \<noteq> 0"
  shows "rt_buf_hp s \<in> tx_pool bh" "rt_buf_hp s \<notin> on_way s" "used_count (rt_hp s) < 8"
proof -
  let ?b = "rt_buf_hp s"
  have "count (hp_stock bh s) ?b \<le> 1" using stock_once [OF inv] by simp
  moreover have "count (mset (filter (\<lambda>b. b \<noteq> 0) [?b])) ?b = 1" using b by simp
  ultimately have "count (mset (used_items 8 (rt_hp s))) ?b = 0" "count (filter_mset (\<lambda>b. b \<in> tx_pool bh) (mset (rt_mac s))) ?b = 0"
    unfolding hp_stock_def count_union by linarith+
  then have no: "?b \<notin> set (used_items 8 (rt_hp s))" "?b \<in> tx_pool bh \<Longrightarrow> ?b \<notin> set (rt_mac s)" by (auto simp: count_eq_zero_iff)
  have "?b \<in># hp_stock bh s" using b by (simp add: hp_stock_def)
  then show p: "?b \<in> tx_pool bh" by (rule hp_member [OF inv])
  have "tx_pool bl \<inter> tx_pool bh = {}" using inv by (auto simp: tx_inv_def dest: tx_pool_facts(2))
  then have "?b \<notin> set (used_items 8 (rt_lp s))" using p lp_member [OF inv in_stock(1)] by blast
  then show "?b \<notin> on_way s" using no p by (simp add: on_way_def)
  show "used_count (rt_hp s) < 8" using stock_sizes [OF inv] b by (simp add: hp_stock_def)
qed

text \<open>Filling a buffer that is not on its way leaves the packets that are.\<close>

lemma fill_keeps:
  assumes inv: "tx_inv bl bh s" and b: "b \<in> tx_pool bl \<union> tx_pool bh" "b \<notin> on_way s" and len: "length data \<le> 1528" and b': "b' \<in> on_way s"
  shows "getf (fill_buffer (rt_mem s) b data n t kind) b' f = getf (rt_mem s) b' f"
    "tx_frame (fill_buffer (rt_mem s) b data n t kind) b' = tx_frame (rt_mem s) b'"
proof -
  have ok: "tx_pools_ok bl bh" and l: "unat (getf (rt_mem s) b' length_f) \<le> 1528" using inv b' by (auto simp: tx_inv_def)
  note p' = on_way_pool [OF inv b']
  have "b \<noteq> b'" using b(2) b' by auto
  then have "b + 1568 \<le> b' \<or> b' + 1568 \<le> b" using tx_pool_facts(3) [OF ok b(1) p'] by blast
  moreover have "b mod 4 = 0" "b' mod 4 = 0" using tx_pool_facts(1) [OF ok] b(1) p' by blast+
  ultimately show "getf (fill_buffer (rt_mem s) b data n t kind) b' f = getf (rt_mem s) b' f"
    "tx_frame (fill_buffer (rt_mem s) b data n t kind) b' = tx_frame (rt_mem s) b'"
    using fill_other_fields len l by simp_all
qed

text \<open>The bytes of the packets in a ring.\<close>

definition tx_frames :: "rgmii_tx \<Rightarrow> buffers_used_t \<Rightarrow> u8 list list" where
  "tx_frames s q = map (tx_frame (rt_mem s)) (used_items 8 q)"

lemma complete_ok:
  fixes ts :: bool and data :: "u8 list" and i :: nat and s :: rgmii_tx
  assumes inv: "tx_inv bl bh s" and i: "i < length (rt_clients s)" and b: "tc_send_buffer (rt_clients s ! i) \<noteq> 0"
    and pr: "rt_prioritize_ack s = 0" and len: "length data \<le> 1528"
  defines "s' \<equiv> complete_send_packet_rgmii i data ts s"
  shows "tx_inv bl bh s'" "tx_frames s' (rt_lp s') = tx_frames s (rt_lp s) @ [data]" "tx_frames s' (rt_hp s') = tx_frames s (rt_hp s)"
    "length (rt_clients s') = length (rt_clients s)"
proof -
  let ?b = "tc_send_buffer (rt_clients s ! i)" and ?t = "if ts then of_nat (i + 1) else 0 :: u32"
  let ?m = "fill_buffer (rt_mem s) ?b data (of_nat (length data)) ?t 0"
  let ?cs = "(rt_clients s)[i := (rt_clients s ! i)\<lparr>tc_send_buffer := 0, tc_requested_send_buffer_size := 0\<rparr>]"
  note h = hand_lp [OF inv i b]
  have ok: "used_ok 8 (rt_lp s)" and p: "tx_pools_ok bl bh" using inv by (simp_all add: tx_inv_def)
  note add = used_add_items [OF ok h(3), of ?b, simplified]
  have cnt: "used_count (buffers_used_add (rt_lp s) ?b 8) = used_count (rt_lp s) + 1"
    using arg_cong [OF add(2), of length] by simp
  have s': "s' = s\<lparr>rt_mem := ?m, rt_work_pending := rt_work_pending s + 1, rt_lp := buffers_used_add (rt_lp s) ?b 8,
      rt_prioritize_ack := 2, rt_clients := ?cs\<rparr>"
    using pr by (simp add: s'_def complete_send_packet_rgmii_def on_tx_client_def Let_def)
  have bl: "?b \<in> tx_pool bl \<union> tx_pool bh" using h(1) by simp
  have al: "?b mod 4 = 0" using tx_pool_facts(1) [OF p bl] by simp
  note keep = fill_keeps [OF inv bl h(2) len]
  have u: "unat (of_nat (length data) :: u32) = length data" using len by (simp add: unat_of_nat)
  have "mset (client_buffers ?cs) + {#?b#} = mset (client_buffers (rt_clients s))"
    using client_buffers_update [OF i, of "(rt_clients s ! i)\<lparr>tc_send_buffer := 0, tc_requested_send_buffer_size := 0\<rparr>"] b by simp
  then have st: "lp_stock bl s' = lp_stock bl s" by (simp add: lp_stock_def s' add(2) flip: \<open>mset (client_buffers ?cs) + {#?b#} = _\<close>)
  have w: "on_way s' = insert ?b (on_way s)" by (auto simp: on_way_def s' add(2))
  have "\<forall>b\<in>on_way s'. (getf ?m b filter_data_f = 0 \<longleftrightarrow> b \<in> tx_pool bl) \<and> unat (getf ?m b length_f) \<le> 1528"
    using inv keep(1) h(1) fill_fields [OF al] u len unfolding w by (auto simp: tx_inv_def)
  then show "tx_inv bl bh s'"
    using inv st add(1) cnt pr unfolding tx_inv_def by (simp add: s' hp_stock_def)
  have "?b \<notin> set (used_items 8 (rt_lp s))" using h(2) by (simp add: on_way_def)
  then show "tx_frames s' (rt_lp s') = tx_frames s (rt_lp s) @ [data]"
    using keep(2) fill_frame [OF u al] by (simp add: tx_frames_def s' add(2) on_way_def)
  show "tx_frames s' (rt_hp s') = tx_frames s (rt_hp s)"
    using keep(2) by (simp add: tx_frames_def s' on_way_def)
  show "length (rt_clients s') = length (rt_clients s)" by (simp add: s')
qed

lemma take_free_hp_ok:
  assumes inv: "tx_inv bl bh s" and b: "rt_buf_hp s = 0"
  shows "tx_inv bl bh (take_free_hp s)" "tx_frames (take_free_hp s) q = tx_frames s q"
    "rt_lp (take_free_hp s) = rt_lp s" "rt_hp (take_free_hp s) = rt_hp s" "rt_clients (take_free_hp s) = rt_clients s"
    "rt_mem (take_free_hp s) = rt_mem s" "rt_mac (take_free_hp s) = rt_mac s" "rt_prioritize_ack (take_free_hp s) = rt_prioritize_ack s"
proof -
  have ok: "free_ok 8 (rt_free_hp s)" using inv by (simp add: tx_inv_def)
  obtain f where f: "buffers_free_take (rt_free_hp s) = (fst (buffers_free_take (rt_free_hp s)), f)" "free_ok 8 f"
    "mset (free_items (rt_free_hp s)) = mset (filter (\<lambda>b. b \<noteq> 0) [fst (buffers_free_take (rt_free_hp s))]) + mset (free_items f)"
  proof (cases "free_items (rt_free_hp s) = []")
    case True
    then show ?thesis using that free_take_items(1) [OF ok] ok by simp
  next
    case False
    then obtain f where f: "buffers_free_take (rt_free_hp s) = (last (free_items (rt_free_hp s)), f)" "free_ok 8 f"
      "free_items (rt_free_hp s) = free_items f @ [last (free_items (rt_free_hp s))]" "last (free_items (rt_free_hp s)) \<noteq> 0"
      using free_take_items(2) [OF ok] by blast
    have "mset (free_items (rt_free_hp s)) = mset (free_items f) + {#last (free_items (rt_free_hp s))#}" by (subst f(3)) simp
    then show ?thesis using that [of f] f by simp
  qed
  have t: "take_free_hp s = s\<lparr>rt_buf_hp := fst (buffers_free_take (rt_free_hp s)), rt_free_hp := f\<rparr>"
    by (subst take_free_hp_def, subst f(1)) simp
  have "hp_stock bh (take_free_hp s) = hp_stock bh s" using f(3) b by (simp add: hp_stock_def t)
  then show "tx_inv bl bh (take_free_hp s)" using inv f(2) unfolding tx_inv_def by (simp add: t lp_stock_def on_way_def)
qed (simp_all add: take_free_hp_def tx_frames_def split: prod.split)

lemma hp_packet_ok:
  assumes inv: "tx_inv bl bh s" and b: "rt_buf_hp s \<noteq> 0" and pr: "rt_prioritize_ack s = 0"
    and n: "unat n = length data" "length data \<le> 1528"
  defines "s' \<equiv> hp_packet_rgmii n (sout_char_array data) s"
  shows "tx_inv bl bh s'" "tx_frames s' (rt_lp s') = tx_frames s (rt_lp s)" "tx_frames s' (rt_hp s') = tx_frames s (rt_hp s) @ [data]"
    "length (rt_clients s') = length (rt_clients s)"
proof -
  let ?b = "rt_buf_hp s" and ?m = "fill_buffer (rt_mem s) (rt_buf_hp s) data n 0 1"
  define s1 where "s1 = s\<lparr>rt_mem := ?m, rt_work_pending := rt_work_pending s + 1, rt_hp := buffers_used_add (rt_hp s) ?b 8, rt_buf_hp := 0\<rparr>"
  note h = hand_hp [OF inv b]
  have ok: "used_ok 8 (rt_hp s)" and p: "tx_pools_ok bl bh" using inv by (simp_all add: tx_inv_def)
  note add = used_add_items [OF ok h(3), of ?b, simplified]
  have cnt: "used_count (buffers_used_add (rt_hp s) ?b 8) = used_count (rt_hp s) + 1"
    using arg_cong [OF add(2), of length] by simp
  have "sin_char_array (unat n) (sout_char_array data) = (data, [])" using n(1) by (simp add: sin_char_array_def sout_char_array_def)
  then have s': "s' = (take_free_hp s1)\<lparr>rt_prioritize_ack := 2\<rparr>"
    using pr by (simp add: s'_def hp_packet_rgmii_def s1_def take_free_hp_def Let_def split: prod.split)
  have bh: "?b \<in> tx_pool bl \<union> tx_pool bh" using h(1) by simp
  have al: "?b mod 4 = 0" using tx_pool_facts(1) [OF p bh] by simp
  have nl: "?b \<notin> tx_pool bl" using tx_pool_facts(2) [OF p] h(1) by blast
  note keep = fill_keeps [OF inv bh h(2) n(2)]
  have st: "hp_stock bh s1 = hp_stock bh s" using b by (simp add: hp_stock_def s1_def add(2))
  have w: "on_way s1 = insert ?b (on_way s)" by (auto simp: on_way_def s1_def add(2))
  have "\<forall>b\<in>on_way s1. (getf ?m b filter_data_f = 0 \<longleftrightarrow> b \<in> tx_pool bl) \<and> unat (getf ?m b length_f) \<le> 1528"
    using inv keep(1) nl fill_fields [OF al] n unfolding w by (auto simp: tx_inv_def)
  then have i1: "tx_inv bl bh s1"
    using inv st add(1) cnt unfolding tx_inv_def by (simp add: s1_def lp_stock_def)
  show "tx_inv bl bh s'" using take_free_hp_ok(1) [OF i1] unfolding s' tx_inv_def by (simp add: s1_def lp_stock_def hp_stock_def on_way_def)
  have f1: "tx_frames s1 (rt_hp s1) = tx_frames s (rt_hp s) @ [data]" "tx_frames s1 (rt_lp s1) = tx_frames s (rt_lp s)"
    using keep(2) fill_frame [OF n(1) al] by (simp_all add: tx_frames_def s1_def add(2) on_way_def)
  have z: "rt_buf_hp s1 = 0" by (simp add: s1_def)
  note t = take_free_hp_ok(2-6) [OF i1 z]
  show "tx_frames s' (rt_lp s') = tx_frames s (rt_lp s)" "tx_frames s' (rt_hp s') = tx_frames s (rt_hp s) @ [data]"
    "length (rt_clients s') = length (rt_clients s)"
    using f1 t by (simp_all add: s' tx_frames_def) (simp add: s1_def)
qed

lemma sent_pool:
  assumes inv: "tx_inv bl bh s" and b: "b \<in> set (rt_mac s)"
  shows "getf (rt_mem s) b filter_data_f = 0 \<Longrightarrow> b \<in> tx_pool bl \<and> length (free_items (rt_free_lp s)) < 8"
    "getf (rt_mem s) b filter_data_f \<noteq> 0 \<Longrightarrow> b \<in> tx_pool bh \<and> b \<notin> tx_pool bl \<and> length (free_items (rt_free_hp s)) < 8"
    "b \<noteq> 0"
proof -
  have w: "b \<in> on_way s" using b by (simp add: on_way_def)
  have k: "getf (rt_mem s) b filter_data_f = 0 \<longleftrightarrow> b \<in> tx_pool bl" using inv w by (auto simp: tx_inv_def)
  have p: "b \<in> tx_pool bl \<union> tx_pool bh" and ok: "tx_pools_ok bl bh" using on_way_pool [OF inv w] inv by (auto simp: tx_inv_def)
  show "b \<noteq> 0" using tx_pool_facts(1) [OF ok p] by simp
  have sz: "length (free_items (rt_free_lp s)) + size (filter_mset (\<lambda>b. b \<in> tx_pool bl) (mset (rt_mac s))) \<le> 8"
    "length (free_items (rt_free_hp s)) + size (filter_mset (\<lambda>b. b \<in> tx_pool bh) (mset (rt_mac s))) \<le> 8"
    using stock_sizes [OF inv] by (simp_all add: lp_stock_def hp_stock_def)
  have pos: "b \<in> P \<Longrightarrow> 0 < size (filter_mset (\<lambda>b. b \<in> P) (mset (rt_mac s)))" for P
  proof -
    assume "b \<in> P"
    then have "b \<in># filter_mset (\<lambda>b. b \<in> P) (mset (rt_mac s))" using b by simp
    then show ?thesis by (metis empty_iff gr0I set_mset_empty size_eq_0_iff_empty)
  qed
  show "getf (rt_mem s) b filter_data_f = 0 \<Longrightarrow> b \<in> tx_pool bl \<and> length (free_items (rt_free_lp s)) < 8"
    using k sz(1) pos [of "tx_pool bl"] by linarith
  show "getf (rt_mem s) b filter_data_f \<noteq> 0 \<Longrightarrow> b \<in> tx_pool bh \<and> b \<notin> tx_pool bl \<and> length (free_items (rt_free_hp s)) < 8"
    using k p sz(2) pos [of "tx_pool bh"] by fastforce
qed

lemma sent_ok:
  assumes inv: "tx_inv bl bh s" and b: "b \<in> set (rt_mac s)"
  shows "tx_inv bl bh (buffer_sent b s)" "tx_frames (buffer_sent b s) q = tx_frames s q" "rt_lp (buffer_sent b s) = rt_lp s"
    "rt_hp (buffer_sent b s) = rt_hp s" "length (rt_clients (buffer_sent b s)) = length (rt_clients s)"
    "rt_mac (buffer_sent b s) = remove1 b (rt_mac s)"
proof -
  show "tx_frames (buffer_sent b s) q = tx_frames s q" "rt_lp (buffer_sent b s) = rt_lp s"
    and f: "rt_hp (buffer_sent b s) = rt_hp s" "length (rt_clients (buffer_sent b s)) = length (rt_clients s)"
    "rt_mac (buffer_sent b s) = remove1 b (rt_mac s)"
    by (simp_all add: buffer_sent_def Let_def on_tx_client_def tx_frames_def)
  have ok: "tx_pools_ok bl bh" "free_ok 8 (rt_free_lp s)" "free_ok 8 (rt_free_hp s)" using inv by (simp_all add: tx_inv_def)
  note p = sent_pool [OF inv b]
  have len: "length (remove1 b (rt_mac s)) + 1 = length (rt_mac s)" using b length_pos_if_in_set [OF b] by (simp add: length_remove1)
  have w: "set (rt_mac (buffer_sent b s)) \<subseteq> set (rt_mac s)" by (simp add: f set_remove1_subset)
  have rm: "add_mset b (filter_mset P (mset (rt_mac s) - {#b#})) = filter_mset P (mset (rt_mac s))" if "P b" for P
    using b that by (metis filter_mset_add_mset insert_DiffM set_mset_mset)
  have rm': "filter_mset P (mset (rt_mac s) - {#b#}) = filter_mset P (mset (rt_mac s))" if "\<not> P b" for P
    using b that by (metis filter_mset_add_mset insert_DiffM set_mset_mset)
  have way: "on_way (buffer_sent b s) \<subseteq> on_way s"
    using w by (auto simp: on_way_def f) (simp add: buffer_sent_def Let_def on_tx_client_def split: if_splits)
  have mem: "rt_mem (buffer_sent b s) = rt_mem s" by (simp add: buffer_sent_def Let_def on_tx_client_def)
  have all: "\<forall>x\<in>on_way (buffer_sent b s). (getf (rt_mem s) x filter_data_f = 0 \<longleftrightarrow> x \<in> tx_pool bl) \<and> unat (getf (rt_mem s) x length_f) \<le> 1528"
    using inv way unfolding tx_inv_def by blast
  let ?s = "buffer_sent b s" and ?lp = "getf (rt_mem s) b filter_data_f = 0"
  have cb: "client_buffers (rt_clients ?s) = client_buffers (rt_clients s)"
    using client_buffers_same [of "\<lambda>c. c\<lparr>tc_has_outgoing_timestamp_info := True, tc_outgoing_timestamp := t\<rparr>" for t]
    by (simp add: buffer_sent_def Let_def on_tx_client_def)
  have rest: "rt_free_lp ?s = (if ?lp then buffers_free_add (rt_free_lp s) b else rt_free_lp s)"
    "rt_free_hp ?s = (if ?lp then rt_free_hp s else buffers_free_add (rt_free_hp s) b)"
    "rt_lp ?s = rt_lp s" "rt_buf_hp ?s = rt_buf_hp s" "rt_work_pending ?s = rt_work_pending s"
    "rt_sender_count ?s = rt_sender_count s - 1" "rt_prioritize_ack ?s = rt_prioritize_ack s"
    by (simp_all add: buffer_sent_def Let_def on_tx_client_def)
  have st: "free_ok 8 (rt_free_lp ?s) \<and> free_ok 8 (rt_free_hp ?s) \<and> lp_stock bl ?s = lp_stock bl s \<and> hp_stock bh ?s = hp_stock bh s"
  proof (cases ?lp)
    case True
    have "b \<in> tx_pool bl" "b \<notin> tx_pool bh" using p(1) [OF True] tx_pool_facts(2) [OF ok(1)] by auto
    then show ?thesis
      using ok(3) rm [of "\<lambda>b. b \<in> tx_pool bl"] rm' [of "\<lambda>b. b \<in> tx_pool bh"]
        free_add_items [OF ok(2) conjunct2 [OF p(1) [OF True]] p(3)]
      by (simp add: lp_stock_def hp_stock_def rest f True cb)
  next
    case False
    then show ?thesis
      using ok(2) p(2) [OF False] rm [of "\<lambda>b. b \<in> tx_pool bh"] rm' [of "\<lambda>b. b \<in> tx_pool bl"]
        free_add_items [OF ok(3) _ p(3)]
      by (simp add: lp_stock_def hp_stock_def rest f cb)
  qed
  have "set (remove1 b (rt_mac s)) \<subseteq> tx_pool bl \<union> tx_pool bh" using inv w unfolding f tx_inv_def by blast
  then show "tx_inv bl bh ?s"
    using inv st all len unfolding tx_inv_def mem f by (simp add: rest(3-))
qed

section \<open>The rest of a turn\<close>

text \<open>Steps that touch neither buffers nor counters.\<close>

lemma tx_same:
  assumes "tx_inv bl bh s" "rt_mem s' = rt_mem s" "rt_free_lp s' = rt_free_lp s" "rt_free_hp s' = rt_free_hp s" "rt_lp s' = rt_lp s"
    "rt_hp s' = rt_hp s" "rt_mac s' = rt_mac s" "rt_buf_hp s' = rt_buf_hp s" "rt_sender_count s' = rt_sender_count s"
    "rt_work_pending s' = rt_work_pending s" "client_buffers (rt_clients s') = client_buffers (rt_clients s)"
    "0 \<le> rt_prioritize_ack s'" "rt_prioritize_ack s' \<le> rt_prioritize_ack s"
  shows "tx_inv bl bh s'"
  using assms by (simp add: tx_inv_def lp_stock_def hp_stock_def on_way_def)

lemma tx_prior: "tx_inv bl bh s \<Longrightarrow> 0 \<le> rt_prioritize_ack s \<and> rt_prioritize_ack s \<le> 2"
  by (simp add: tx_inv_def)

lemma prioritize_ok: "tx_inv bl bh s \<Longrightarrow> tx_inv bl bh (tx_prioritize s)"
  using tx_same [of bl bh s "tx_prioritize s"] tx_prior [of bl bh s] by (simp add: tx_prioritize_def)

lemma credit_ok: "tx_inv bl bh s \<Longrightarrow> tx_inv bl bh (tx_credit shaper now s)"
  using tx_same [of bl bh s "tx_credit shaper now s"] tx_prior [of bl bh s] by (simp add: tx_credit_def Let_def)

lemma on_tx_client_ok:
  assumes "tx_inv bl bh s" "\<And>c. tc_send_buffer (f c) = tc_send_buffer c"
  shows "tx_inv bl bh (on_tx_client i f s)"
  using client_buffers_same [of f, OF assms(2)] tx_prior [OF assms(1)]
  by (intro tx_same [OF assms(1)]) (simp_all add: on_tx_client_def)

text \<open>The choice of the next packet.\<close>

lemma tx_send_cases:
  fixes shaper :: bool and s :: rgmii_tx
  assumes inv: "tx_inv bl bh s"
  defines "allowed \<equiv> used_items 8 (rt_hp s) \<noteq> [] \<and> (shaper \<longrightarrow> 0 \<le>s rt_credit s)"
  shows "length (rt_mac s) = 2 \<or> \<not> allowed \<and> used_items 8 (rt_lp s) = [] \<Longrightarrow> tx_send shaper s = s"
    "length (rt_mac s) < 2 \<Longrightarrow> allowed \<Longrightarrow> \<exists>hp. used_ok 8 hp \<and> used_items 8 hp = tl (used_items 8 (rt_hp s)) \<and>
       tx_send shaper s = s\<lparr>rt_hp := hp, rt_work_pending := rt_work_pending s - 1, rt_sender_count := rt_sender_count s + 1,
         rt_mac := rt_mac s @ [hd (used_items 8 (rt_hp s))],
         rt_credit := (if shaper then rt_credit s - credit_cost_rgmii (getf (rt_mem s) (hd (used_items 8 (rt_hp s))) length_f) else rt_credit s)\<rparr>"
    "length (rt_mac s) < 2 \<Longrightarrow> \<not> allowed \<Longrightarrow> used_items 8 (rt_lp s) \<noteq> [] \<Longrightarrow>
       \<exists>lp. used_ok 8 lp \<and> used_items 8 lp = tl (used_items 8 (rt_lp s)) \<and>
       tx_send shaper s = s\<lparr>rt_lp := lp, rt_work_pending := rt_work_pending s - 1, rt_sender_count := rt_sender_count s + 1,
         rt_mac := rt_mac s @ [hd (used_items 8 (rt_lp s))]\<rparr>"
proof -
  have ok: "used_ok 8 (rt_lp s)" "used_ok 8 (rt_hp s)" "tx_pools_ok bl bh" using inv by (simp_all add: tx_inv_def)
  have cnt: "rt_work_pending s = int (length (used_items 8 (rt_lp s)) + length (used_items 8 (rt_hp s)))"
    "rt_sender_count s = int (length (rt_mac s))" using inv by (simp_all add: tx_inv_def)
  note e = used_empty_items [of _ 8]
  have nz: "used_items 8 (rt_hp s) \<noteq> [] \<Longrightarrow> hd (used_items 8 (rt_hp s)) \<noteq> 0" "used_items 8 (rt_lp s) \<noteq> [] \<Longrightarrow> hd (used_items 8 (rt_lp s)) \<noteq> 0"
    using tx_pool_facts(1) [OF ok(3)] on_way_pool [OF inv] by (auto simp: on_way_def)
  show "length (rt_mac s) = 2 \<or> \<not> allowed \<and> used_items 8 (rt_lp s) = [] \<Longrightarrow> tx_send shaper s = s"
    by (auto simp: tx_send_def allowed_def cnt(2) e Let_def)
  show "\<exists>hp. used_ok 8 hp \<and> used_items 8 hp = tl (used_items 8 (rt_hp s)) \<and>
       tx_send shaper s = s\<lparr>rt_hp := hp, rt_work_pending := rt_work_pending s - 1, rt_sender_count := rt_sender_count s + 1,
         rt_mac := rt_mac s @ [hd (used_items 8 (rt_hp s))],
         rt_credit := (if shaper then rt_credit s - credit_cost_rgmii (getf (rt_mem s) (hd (used_items 8 (rt_hp s))) length_f) else rt_credit s)\<rparr>"
    if lt: "length (rt_mac s) < 2" and al: "allowed"
  proof -
    have ne: "used_items 8 (rt_hp s) \<noteq> []" using al by (simp add: allowed_def)
    obtain hp where hp: "buffers_used_take (rt_hp s) 8 = (hd (used_items 8 (rt_hp s)), hp)" "used_ok 8 hp" "used_items 8 hp = tl (used_items 8 (rt_hp s))"
      using used_take_items [OF ok(2) ne] by auto
    have "rt_work_pending s \<noteq> 0" using ne unfolding cnt(1) by (cases "used_items 8 (rt_hp s)") auto
    then show ?thesis using lt al hp nz(1) [OF ne] ne
      by (intro exI [of _ hp]) (simp add: tx_send_def allowed_def cnt(2) e Let_def)
  qed
  show "\<exists>lp. used_ok 8 lp \<and> used_items 8 lp = tl (used_items 8 (rt_lp s)) \<and>
       tx_send shaper s = s\<lparr>rt_lp := lp, rt_work_pending := rt_work_pending s - 1, rt_sender_count := rt_sender_count s + 1,
         rt_mac := rt_mac s @ [hd (used_items 8 (rt_lp s))]\<rparr>"
    if lt: "length (rt_mac s) < 2" and na: "\<not> allowed" and ne: "used_items 8 (rt_lp s) \<noteq> []"
  proof -
    obtain lp where lp: "buffers_used_take (rt_lp s) 8 = (hd (used_items 8 (rt_lp s)), lp)" "used_ok 8 lp" "used_items 8 lp = tl (used_items 8 (rt_lp s))"
      using used_take_items [OF ok(1) ne] by auto
    have "rt_work_pending s \<noteq> 0" using ne unfolding cnt(1) by (cases "used_items 8 (rt_lp s)") auto
    moreover have "\<not> (\<not> buffers_used_empty (rt_hp s) \<and> (shaper \<longrightarrow> 0 \<le>s rt_credit s))" using na by (simp add: allowed_def e)
    ultimately show ?thesis using lt ne lp nz(2) [OF ne]
      by (intro exI [of _ lp]) (simp only: tx_send_def Let_def, simp add: cnt(2) e)
  qed
qed

lemma hd_in: "xs \<noteq> [] \<Longrightarrow> add_mset (hd xs) (mset (tl xs)) = mset xs"
  by (cases xs) auto

lemma send_ok:
  assumes inv: "tx_inv bl bh s"
  shows "tx_inv bl bh (tx_send shaper s)"
proof -
  have ok: "tx_pools_ok bl bh" "length (rt_mac s) \<le> 2" using inv by (simp_all add: tx_inv_def)
  note dis = tx_pool_facts(2) [OF ok(1)]
  define allowed where "allowed \<longleftrightarrow> used_items 8 (rt_hp s) \<noteq> [] \<and> (shaper \<longrightarrow> 0 \<le>s rt_credit s)"
  note c = tx_send_cases [OF inv, of shaper, folded allowed_def]
  consider (none) "length (rt_mac s) = 2 \<or> \<not> allowed \<and> used_items 8 (rt_lp s) = []"
    | (hp) "length (rt_mac s) < 2" "allowed" | (lp) "length (rt_mac s) < 2" "\<not> allowed" "used_items 8 (rt_lp s) \<noteq> []"
    using ok(2) by linarith
  then show ?thesis
  proof cases
    case none
    then show ?thesis using c(1) inv by simp
  next
    case hp
    let ?b = "hd (used_items 8 (rt_hp s))"
    have ne: "used_items 8 (rt_hp s) \<noteq> []" using hp(2) by (simp add: allowed_def)
    obtain u where u: "used_ok 8 u" "used_items 8 u = tl (used_items 8 (rt_hp s))"
      "tx_send shaper s = s\<lparr>rt_hp := u, rt_work_pending := rt_work_pending s - 1, rt_sender_count := rt_sender_count s + 1,
         rt_mac := rt_mac s @ [?b],
         rt_credit := (if shaper then rt_credit s - credit_cost_rgmii (getf (rt_mem s) ?b length_f) else rt_credit s)\<rparr>"
      using c(2) [OF hp] by blast
    have b: "?b \<in> tx_pool bh" "?b \<notin> tx_pool bl" using hp_member [OF inv in_stock(2), of ?b] ne dis by auto
    have cnt: "used_count (rt_hp s) = used_count u + 1"
      using arg_cong [OF u(2), of length] ne length_greater_0_conv [of "used_items 8 (rt_hp s)"] by simp
    have st: "hp_stock bh (tx_send shaper s) = hp_stock bh s" "lp_stock bl (tx_send shaper s) = lp_stock bl s"
      using b hd_in [OF ne] by (simp_all add: hp_stock_def lp_stock_def u(3)) (simp add: u(2))
    have way: "on_way (tx_send shaper s) \<subseteq> on_way s"
      using ne list.set_sel(2) [OF ne] by (auto simp: on_way_def u(3)) (simp add: u(2))
    have "\<forall>x\<in>on_way (tx_send shaper s). (getf (rt_mem s) x filter_data_f = 0 \<longleftrightarrow> x \<in> tx_pool bl) \<and> unat (getf (rt_mem s) x length_f) \<le> 1528"
      using inv way unfolding tx_inv_def by blast
    then show ?thesis using inv st u(1) hp(1) cnt b unfolding tx_inv_def by (simp add: u(3))
  next
    case lp
    let ?b = "hd (used_items 8 (rt_lp s))"
    note ne = lp(3)
    obtain u where u: "used_ok 8 u" "used_items 8 u = tl (used_items 8 (rt_lp s))"
      "tx_send shaper s = s\<lparr>rt_lp := u, rt_work_pending := rt_work_pending s - 1, rt_sender_count := rt_sender_count s + 1,
         rt_mac := rt_mac s @ [?b]\<rparr>"
      using c(3) [OF lp] by blast
    have b: "?b \<in> tx_pool bl" "?b \<notin> tx_pool bh" using lp_member [OF inv in_stock(1), of ?b] ne dis by auto
    have cnt: "used_count (rt_lp s) = used_count u + 1"
      using arg_cong [OF u(2), of length] ne length_greater_0_conv [of "used_items 8 (rt_lp s)"] by simp
    have st: "hp_stock bh (tx_send shaper s) = hp_stock bh s" "lp_stock bl (tx_send shaper s) = lp_stock bl s"
      using b hd_in [OF ne] by (simp_all add: hp_stock_def lp_stock_def u(3)) (simp add: u(2))
    have way: "on_way (tx_send shaper s) \<subseteq> on_way s"
      using ne list.set_sel(2) [OF ne] by (auto simp: on_way_def u(3)) (simp add: u(2))
    have "\<forall>x\<in>on_way (tx_send shaper s). (getf (rt_mem s) x filter_data_f = 0 \<longleftrightarrow> x \<in> tx_pool bl) \<and> unat (getf (rt_mem s) x length_f) \<le> 1528"
      using inv way unfolding tx_inv_def by blast
    then show ?thesis using inv st u(1) lp(1) cnt b unfolding tx_inv_def by (simp add: u(3))
  qed
qed

lemma reserve_one_ok:
  assumes inv: "tx_inv bl bh s" and i: "i < length (rt_clients s)"
  shows "tx_inv bl bh (reserve_one_rgmii i s)" "length (rt_clients (reserve_one_rgmii i s)) = length (rt_clients s)"
    "tx_frames (reserve_one_rgmii i s) q = tx_frames s q" "rt_lp (reserve_one_rgmii i s) = rt_lp s" "rt_hp (reserve_one_rgmii i s) = rt_hp s"
    "rt_mac (reserve_one_rgmii i s) = rt_mac s" "rt_mem (reserve_one_rgmii i s) = rt_mem s"
proof -
  let ?c = "rt_clients s ! i"
  show "tx_inv bl bh (reserve_one_rgmii i s)"
  proof (cases "tc_requested_send_buffer_size ?c \<noteq> 0 \<and> tc_send_buffer ?c = 0")
    case False
    then show ?thesis using inv by (auto simp: reserve_one_rgmii_def)
  next
    case True
    have ok: "free_ok 8 (rt_free_lp s)" using inv by (simp add: tx_inv_def)
    obtain b f where f: "buffers_free_take (rt_free_lp s) = (b, f)" "free_ok 8 f"
      "mset (free_items (rt_free_lp s)) = mset (filter (\<lambda>b. b \<noteq> 0) [b]) + mset (free_items f)"
    proof (cases "free_items (rt_free_lp s) = []")
      case True
      then show ?thesis using that free_take_items(1) [OF ok] ok by simp
    next
      case False
      then obtain f where f: "buffers_free_take (rt_free_lp s) = (last (free_items (rt_free_lp s)), f)" "free_ok 8 f"
        "free_items (rt_free_lp s) = free_items f @ [last (free_items (rt_free_lp s))]" "last (free_items (rt_free_lp s)) \<noteq> 0"
        using free_take_items(2) [OF ok] by blast
      have "mset (free_items (rt_free_lp s)) = mset (free_items f) + {#last (free_items (rt_free_lp s))#}" by (subst f(3)) simp
      then show ?thesis using that [of "last (free_items (rt_free_lp s))" f] f by simp
    qed
    let ?s = "s\<lparr>rt_free_lp := f, rt_clients := (rt_clients s)[i := ?c\<lparr>tc_send_buffer := b\<rparr>]\<rparr>"
    have r: "reserve_one_rgmii i s = ?s" using True f(1) by (simp add: reserve_one_rgmii_def on_tx_client_def Let_def)
    have "mset (client_buffers (rt_clients ?s)) = mset (client_buffers (rt_clients s)) + mset (filter (\<lambda>b. b \<noteq> 0) [b])"
      using client_buffers_update [OF i, of "?c\<lparr>tc_send_buffer := b\<rparr>"] True by simp
    then have "lp_stock bl ?s = lp_stock bl s" using f(3) by (simp add: lp_stock_def)
    then show ?thesis using inv f(2) unfolding tx_inv_def r by (simp add: hp_stock_def on_way_def)
  qed
qed (simp_all add: reserve_one_rgmii_def Let_def on_tx_client_def tx_frames_def split: prod.split)

lemma reserve_ok:
  fixes hp_tx :: bool and s :: rgmii_tx
  assumes "tx_inv bl bh s"
  defines "s' \<equiv> tx_reserve hp_tx s"
  shows "tx_inv bl bh s' \<and> length (rt_clients s') = length (rt_clients s) \<and> tx_frames s' = tx_frames s \<and> rt_lp s' = rt_lp s \<and>
    rt_hp s' = rt_hp s \<and> rt_mac s' = rt_mac s \<and> rt_mem s' = rt_mem s"
proof -
  define s0 where "s0 = (if hp_tx \<and> rt_buf_hp s = 0 then take_free_hp s else s)"
  have i0: "tx_inv bl bh s0" "rt_clients s0 = rt_clients s" "rt_lp s0 = rt_lp s" "rt_hp s0 = rt_hp s" "rt_mac s0 = rt_mac s" "rt_mem s0 = rt_mem s"
    using take_free_hp_ok(1,3-7) [OF assms(1)] assms(1) by (auto simp: s0_def)
  have "tx_inv bl bh (fold reserve_one_rgmii [0..<k] s0) \<and> length (rt_clients (fold reserve_one_rgmii [0..<k] s0)) = length (rt_clients s) \<and>
      rt_lp (fold reserve_one_rgmii [0..<k] s0) = rt_lp s \<and> rt_hp (fold reserve_one_rgmii [0..<k] s0) = rt_hp s \<and>
      rt_mac (fold reserve_one_rgmii [0..<k] s0) = rt_mac s \<and> rt_mem (fold reserve_one_rgmii [0..<k] s0) = rt_mem s"
    if "k \<le> length (rt_clients s)" for k
    using that
  proof (induction k)
    case 0
    then show ?case using i0 by simp
  next
    case (Suc k)
    then have "tx_inv bl bh (fold reserve_one_rgmii [0..<k] s0)" "k < length (rt_clients (fold reserve_one_rgmii [0..<k] s0))" by auto
    note r = reserve_one_ok [OF this]
    show ?case using Suc r by simp
  qed
  note k = this [OF order_refl]
  have e: "s' = fold reserve_one_rgmii [0..<length (rt_clients s)] s0"
    by (simp add: s'_def tx_reserve_def Let_def i0(2) flip: s0_def)
  have "tx_frames s' = tx_frames s" by (rule ext) (simp add: tx_frames_def e k)
  then show ?thesis using k by (simp add: e)
qed

text \<open>The transmitter writes the time of sending into a packet it has.\<close>

lemma stamp_ok:
  assumes inv: "tx_inv bl bh s" and b: "b \<in> set (rt_mac s)"
  shows "tx_inv bl bh (s\<lparr>rt_mem := setf (rt_mem s) b timestamp_f t\<rparr>)"
    "b' \<in> on_way s \<Longrightarrow> tx_frame (setf (rt_mem s) b timestamp_f t) b' = tx_frame (rt_mem s) b'"
proof -
  have ok: "tx_pools_ok bl bh" using inv by (simp add: tx_inv_def)
  have bw: "b \<in> on_way s" using b by (simp add: on_way_def)
  have far: "b = b' \<or> b + 1568 \<le> b' \<or> b' + 1568 \<le> b" if "b' \<in> on_way s" for b'
    using tx_pool_facts(3) [OF ok on_way_pool [OF inv bw] on_way_pool [OF inv that]] by blast
  have g: "getf (setf (rt_mem s) b timestamp_f t) b' f = getf (rt_mem s) b' f" if "b' \<in> on_way s" "f \<noteq> timestamp_f" for b' f
    using far [OF that(1)] that(2) getf_setf_apart [of b b' "rt_mem s" timestamp_f t f] by (cases "b = b'") auto
  have w: "on_way (s\<lparr>rt_mem := setf (rt_mem s) b timestamp_f t\<rparr>) = on_way s" by (simp add: on_way_def)
  have "\<forall>b'\<in>on_way s. (getf (setf (rt_mem s) b timestamp_f t) b' filter_data_f = 0 \<longleftrightarrow> b' \<in> tx_pool bl) \<and>
      unat (getf (setf (rt_mem s) b timestamp_f t) b' length_f) \<le> 1528"
    using g inv by (simp add: tx_inv_def)
  then show "tx_inv bl bh (s\<lparr>rt_mem := setf (rt_mem s) b timestamp_f t\<rparr>)"
    using inv unfolding tx_inv_def w by (simp add: lp_stock_def hp_stock_def)
  assume b': "b' \<in> on_way s"
  have al: "b' mod 4 = 0" using tx_pool_facts(1) [OF ok on_way_pool [OF inv b']] by simp
  have l: "unat (getf (rt_mem s) b' length_f) \<le> 1528" using inv b' by (simp add: tx_inv_def)
  have "ldb (setf (rt_mem s) b timestamp_f t) (pkt_data b' + int i) = ldb (rt_mem s) (pkt_data b' + int i)" if "i < 1528" for i
  proof -
    let ?a = "(pkt_data b' + int i) - (pkt_data b' + int i) mod 4"
    have "b' + 40 \<le> ?a" "?a < b' + 1568" using that al by (simp_all add: pkt_data_def) presburger
    then have "?a < b \<or> b + 40 \<le> ?a" using far [OF b'] by auto
    then show ?thesis by (simp add: ldb_def setf_other)
  qed
  then show "tx_frame (setf (rt_mem s) b timestamp_f t) b' = tx_frame (rt_mem s) b'"
    using g [OF b'] l by (simp add: tx_frame_def ldbs_def)
qed


end
