(* ===== verification/Rgmii_Tx_Props.thy ===== *)
theory Rgmii_Tx_Props
  imports Rgmii_Tx_Inv
begin

text \<open>
  What the transmit server of the RGMII MAC promises in every run: no buffer is lost or used twice, and the packets
  of each priority go to the transmitter in the order and with the bytes in which they were handed in.
\<close>

section \<open>Starting\<close>

definition fresh_tx :: "addr \<Rightarrow> addr \<Rightarrow> rgmii_tx \<Rightarrow> bool" where
  "fresh_tx bl bh s \<longleftrightarrow> tx_pools_ok bl bh \<and> length (bf_stack (rt_free_lp s)) = 8 \<and> length (bf_stack (rt_free_hp s)) = 8 \<and>
     8 \<le> length (bu_pointers (rt_lp s)) \<and> 8 \<le> length (bu_pointers (rt_hp s)) \<and> (\<forall>c\<in>set (rt_clients s). tc_send_buffer c = 0)"

lemma tx_init_stack:
  assumes "length p = 8" "0 < base"
  shows "free_ok 8 (buffers_free_initialize p base 8)" "mset (free_items (buffers_free_initialize p base 8)) = mset_set (tx_pool base)"
proof -
  have top: "bf_top_index (buffers_free_initialize p base 8) = 8" by (simp add: buffers_free_initialize_def)
  note st = init_stack [of 8 p base]
  have items: "free_items (buffers_free_initialize p base 8) = map (\<lambda>i. base + int i * 1568) [0..<8]"
    using st(1) assms by (simp add: free_items_def top)
  show "free_ok 8 (buffers_free_initialize p base 8)"
    using st(2) assms items by (auto simp: free_ok_def top)
  have "inj_on (\<lambda>i. base + int i * 1568) {..<8}" by (auto simp: inj_on_def)
  then have "mset_set (tx_pool base) = image_mset (\<lambda>i. base + int i * 1568) (mset_set {..<8})"
    by (simp add: tx_pool_def image_mset_mset_set)
  then show "mset (free_items (buffers_free_initialize p base 8)) = mset_set (tx_pool base)"
    unfolding items by (simp add: mset_set_upto_eq_mset_upto atLeast0LessThan flip: mset_upt)
qed

lemma start_ok:
  assumes "fresh_tx bl bh s"
  shows "tx_inv bl bh (rgmii_tx_start hp_tx bl bh now s)" "used_items 8 (rt_lp (rgmii_tx_start hp_tx bl bh now s)) = []"
    "used_items 8 (rt_hp (rgmii_tx_start hp_tx bl bh now s)) = []"
proof -
  define s1 where "s1 = s\<lparr>rt_lp := buffers_used_initialize (bu_pointers (rt_lp s)), rt_hp := buffers_used_initialize (bu_pointers (rt_hp s)),
                rt_free_lp := buffers_free_initialize (bf_stack (rt_free_lp s)) bl 8,
                rt_free_hp := buffers_free_initialize (bf_stack (rt_free_hp s)) bh 8,
                rt_buf_hp := 0, rt_credit := 0, rt_credit_time := now, rt_sender_count := 0, rt_work_pending := 0,
                rt_prioritize_ack := 0, rt_mac := []\<rparr>"
  have pos: "0 < bl" "0 < bh" using assms by (simp_all add: fresh_tx_def tx_pools_ok_def)
  note f = tx_init_stack [of "bf_stack (rt_free_lp s)" bl] tx_init_stack [of "bf_stack (rt_free_hp s)" bh]
  have ue: "used_items 8 (buffers_used_initialize p) = []" "used_count (buffers_used_initialize p) = 0"
    "used_ok 8 (buffers_used_initialize p) \<longleftrightarrow> 8 \<le> length p" for p
    by (simp_all add: buffers_used_initialize_def used_items_def used_count_def used_ok_def)
  have cb: "client_buffers (rt_clients s) = []" using assms by (simp add: fresh_tx_def client_buffers_def filter_empty_conv)
  have "lp_stock bl s1 = mset_set (tx_pool bl)" "hp_stock bh s1 = mset_set (tx_pool bh)"
    using assms f pos cb by (simp_all add: s1_def lp_stock_def hp_stock_def fresh_tx_def ue)
  then have i: "tx_inv bl bh s1"
    using assms f pos by (simp add: tx_inv_def s1_def fresh_tx_def ue on_way_def)
  have r: "rgmii_tx_start hp_tx bl bh now s = (if hp_tx then take_free_hp s1 else s1)" by (simp add: rgmii_tx_start_def s1_def)
  have z: "rt_buf_hp s1 = 0" by (simp add: s1_def)
  show "tx_inv bl bh (rgmii_tx_start hp_tx bl bh now s)" using take_free_hp_ok(1) [OF i z] i by (simp add: r)
  show "used_items 8 (rt_lp (rgmii_tx_start hp_tx bl bh now s)) = []" "used_items 8 (rt_hp (rgmii_tx_start hp_tx bl bh now s)) = []"
    using take_free_hp_ok(3,4) [OF i z] by (simp_all add: r) (simp_all add: s1_def ue)
qed

section \<open>Runs\<close>

text \<open>Packets handed in and packets given to the transmitter, with their priority (\<open>True\<close> is high).\<close>

datatype tx_log = Accepted bool "u8 list" | Out bool "u8 list"

fun accepted_log :: "rgmii_tx_event \<Rightarrow> tx_log list" where
  "accepted_log (Tx_Call i (Complete_Send_Packet data ts)) = [Accepted False data]"
| "accepted_log (Tx_Hp n ch) = [Accepted True (fst (sin_char_array (unat n) ch))]"
| "accepted_log _ = []"

text \<open>What a turn from \<open>s\<close> to \<open>s'\<close> has put behind the buffers that were with the transmitter.\<close>

definition out_log :: "rgmii_tx \<Rightarrow> rgmii_tx \<Rightarrow> tx_log list" where
  "out_log s s' = map (\<lambda>b. Out (getf (rt_mem s) b filter_data_f \<noteq> 0) (tx_frame (rt_mem s) b)) (drop (length (rt_mac s)) (rt_mac s'))"

text \<open>Clients that exist and packets that fit.\<close>

fun event_ok :: "rgmii_tx_event \<Rightarrow> rgmii_tx \<Rightarrow> bool" where
  "event_ok (Tx_Call i (Complete_Send_Packet data ts)) s \<longleftrightarrow> i < length (rt_clients s) \<and> int (length data) \<le> MII_PACKET_DATA_BYTES"
| "event_ok (Tx_Call i _) s \<longleftrightarrow> i < length (rt_clients s)"
| "event_ok (Tx_Hp n ch) s \<longleftrightarrow> length ch = unat n \<and> int (length ch) \<le> MII_PACKET_DATA_BYTES"
| "event_ok _ s \<longleftrightarrow> True"

text \<open>A turn of the server, the transmitter noting the time it sent a packet, the configuration task changing the port.\<close>

inductive rgmii_tx_step :: "bool \<Rightarrow> rgmii_tx \<Rightarrow> tx_log list \<Rightarrow> rgmii_tx \<Rightarrow> bool" for shaper :: bool where
  turns: "event_ok e s \<Longrightarrow> rgmii_ethernet_tx_server shaper hp_tx now e s = Some (r, s') \<Longrightarrow>
    rgmii_tx_step shaper s (accepted_log e @ out_log (snd (handle_tx_rgmii e (tx_prioritize s))) s') s'"
| stamps: "b \<in> set (rt_mac s) \<Longrightarrow> rgmii_tx_step shaper s [] (s\<lparr>rt_mem := setf (rt_mem s) b timestamp_f t\<rparr>)"
| sets_port: "rgmii_tx_step shaper s [] (s\<lparr>rt_port := p\<rparr>)"

inductive rgmii_tx_run :: "bool \<Rightarrow> rgmii_tx \<Rightarrow> tx_log list \<Rightarrow> rgmii_tx \<Rightarrow> bool" for shaper :: bool where
  tx_start: "rgmii_tx_run shaper s [] s"
| tx_more: "rgmii_tx_run shaper s es s' \<Longrightarrow> rgmii_tx_step shaper s' es' s'' \<Longrightarrow> rgmii_tx_run shaper s (es @ es') s''"

fun accepted :: "bool \<Rightarrow> tx_log list \<Rightarrow> u8 list list" where
  "accepted hi [] = []"
| "accepted hi (Accepted h f # es) = (if h = hi then f # accepted hi es else accepted hi es)"
| "accepted hi (Out h f # es) = accepted hi es"

fun sent :: "bool \<Rightarrow> tx_log list \<Rightarrow> u8 list list" where
  "sent hi [] = []"
| "sent hi (Accepted h f # es) = sent hi es"
| "sent hi (Out h f # es) = (if h = hi then f # sent hi es else sent hi es)"

lemma tx_log_append [simp]: "accepted hi (es @ es') = accepted hi es @ accepted hi es'" "sent hi (es @ es') = sent hi es @ sent hi es'"
  by (induction hi es rule: accepted.induct) auto

lemma out_log_accepted [simp]: "accepted hi (out_log s s') = []"
proof -
  have "accepted hi (map (\<lambda>b. Out (f b) (g b)) bs) = []" for f g and bs :: "addr list" by (induction bs) auto
  then show ?thesis by (simp add: out_log_def)
qed

lemma accepted_log_sent [simp]: "sent hi (accepted_log e) = []"
  by (cases e rule: accepted_log.cases) auto

section \<open>A turn\<close>

definition tx_step_ok :: "addr \<Rightarrow> addr \<Rightarrow> rgmii_tx \<Rightarrow> tx_log list \<Rightarrow> rgmii_tx \<Rightarrow> bool" where
  "tx_step_ok bl bh s es s' \<longleftrightarrow> tx_inv bl bh s' \<and> length (rt_clients s') = length (rt_clients s) \<and>
     tx_frames s (rt_lp s) @ accepted False es = sent False es @ tx_frames s' (rt_lp s') \<and>
     tx_frames s (rt_hp s) @ accepted True es = sent True es @ tx_frames s' (rt_hp s')"

lemma tx_step_ok_trans: "tx_step_ok bl bh s es s' \<Longrightarrow> tx_step_ok bl bh s' es' s'' \<Longrightarrow> tx_step_ok bl bh s (es @ es') s''"
  unfolding tx_step_ok_def by (metis append.assoc tx_log_append)

lemma handle_ok:
  assumes inv: "tx_inv bl bh s" and e: "event_ok e s" "tx_enabled_rgmii e s"
  shows "tx_step_ok bl bh s (accepted_log e) (snd (handle_tx_rgmii e s))"
proof -
  have fr: "tx_frames (on_tx_client i f s) = tx_frames s" "rt_lp (on_tx_client i f s) = rt_lp s" "rt_hp (on_tx_client i f s) = rt_hp s"
    "length (rt_clients (on_tx_client i f s)) = length (rt_clients s)" for i f
    by (simp_all add: on_tx_client_def tx_frames_def fun_eq_iff)
  show ?thesis
  proof (cases e)
    case (Tx_Call i c)
    show ?thesis
    proof (cases c)
      case (Init_Send_Packet n)
      have "tx_inv bl bh (init_send_packet_rgmii i s)"
        unfolding init_send_packet_rgmii_def by (rule on_tx_client_ok [OF inv]) simp
      then show ?thesis using fr by (simp add: Tx_Call Init_Send_Packet tx_step_ok_def init_send_packet_rgmii_def)
    next
      case (Complete_Send_Packet data ts)
      have "length data \<le> 1528" using e(1) by (simp add: Tx_Call Complete_Send_Packet MII_PACKET_DATA_BYTES_def)
      then show ?thesis
        using complete_ok [OF inv, of i data ts] e by (simp add: Tx_Call Complete_Send_Packet tx_step_ok_def)
    next
      case Get_Outgoing_Timestamp
      have "tx_inv bl bh (on_tx_client i (\<lambda>c. c\<lparr>tc_has_outgoing_timestamp_info := False\<rparr>) s)"
        by (rule on_tx_client_ok [OF inv]) simp
      then show ?thesis using fr by (simp add: Tx_Call Get_Outgoing_Timestamp tx_step_ok_def get_outgoing_timestamp_rgmii_def)
    qed
  next
    case (Tx_Hp n ch)
    define data where "data = rev ch"
    have n: "unat n = length data" "length data \<le> 1528" "ch = sout_char_array data" "fst (sin_char_array (unat n) ch) = data"
      using e(1) by (simp_all add: Tx_Hp data_def sout_char_array_def sin_char_array_def MII_PACKET_DATA_BYTES_def)
    then show ?thesis using hp_packet_ok [OF inv _ _ n(1,2)] e(2) by (simp add: Tx_Hp tx_step_ok_def)
  next
    case (Tx_Sent b)
    then show ?thesis using sent_ok [OF inv, of b] e(2) by (simp add: tx_step_ok_def)
  next
    case Tx_None
    then show ?thesis using inv by (simp add: tx_step_ok_def)
  qed
qed

lemma send_step_ok:
  assumes inv: "tx_inv bl bh s"
  shows "tx_step_ok bl bh s (out_log s (tx_send shaper s)) (tx_send shaper s)"
proof -
  have ok: "tx_pools_ok bl bh" "length (rt_mac s) \<le> 2" using inv by (simp_all add: tx_inv_def)
  note dis = tx_pool_facts(2) [OF ok(1)]
  have kind: "b \<in> on_way s \<Longrightarrow> getf (rt_mem s) b filter_data_f = 0 \<longleftrightarrow> b \<in> tx_pool bl" for b using inv by (simp add: tx_inv_def)
  define allowed where "allowed \<longleftrightarrow> used_items 8 (rt_hp s) \<noteq> [] \<and> (shaper \<longrightarrow> 0 \<le>s rt_credit s)"
  note c = tx_send_cases [OF inv, of shaper, folded allowed_def] and i = send_ok [OF inv, of shaper]
  consider (none) "length (rt_mac s) = 2 \<or> \<not> allowed \<and> used_items 8 (rt_lp s) = []"
    | (hp) "length (rt_mac s) < 2" "allowed" | (lp) "length (rt_mac s) < 2" "\<not> allowed" "used_items 8 (rt_lp s) \<noteq> []"
    using ok(2) by linarith
  then show ?thesis
  proof cases
    case none
    then show ?thesis using c(1) inv by (simp add: tx_step_ok_def out_log_def)
  next
    case hp
    then obtain x xs where q: "used_items 8 (rt_hp s) = x # xs" by (auto simp: allowed_def neq_Nil_conv)
    then have x: "x \<in> on_way s" "x \<notin> tx_pool bl" using hp_member [OF inv in_stock(2), of x] dis by (auto simp: on_way_def)
    obtain u where u: "used_items 8 u = xs" "rt_hp (tx_send shaper s) = u" "rt_lp (tx_send shaper s) = rt_lp s"
      "rt_mac (tx_send shaper s) = rt_mac s @ [x]" "rt_mem (tx_send shaper s) = rt_mem s" "rt_clients (tx_send shaper s) = rt_clients s"
      using c(2) [OF hp] q by auto
    show ?thesis using i q u x kind [OF x(1)] by (simp add: tx_step_ok_def out_log_def tx_frames_def)
  next
    case lp
    then obtain x xs where q: "used_items 8 (rt_lp s) = x # xs" by (auto simp: neq_Nil_conv)
    then have x: "x \<in> on_way s" "x \<in> tx_pool bl" using lp_member [OF inv in_stock(1), of x] by (auto simp: on_way_def)
    obtain u where u: "used_items 8 u = xs" "rt_lp (tx_send shaper s) = u" "rt_hp (tx_send shaper s) = rt_hp s"
      "rt_mac (tx_send shaper s) = rt_mac s @ [x]" "rt_mem (tx_send shaper s) = rt_mem s" "rt_clients (tx_send shaper s) = rt_clients s"
      using c(3) [OF lp] q by auto
    show ?thesis using i q u x kind [OF x(1)] by (simp add: tx_step_ok_def out_log_def tx_frames_def)
  qed
qed

lemma tx_step: "rgmii_tx_step shaper s es s' \<Longrightarrow> tx_inv bl bh s \<Longrightarrow> tx_step_ok bl bh s es s'"
proof (induction rule: rgmii_tx_step.induct)
  case (turns e s hp_tx now r s')
  define s0 where "s0 = tx_prioritize s"
  define s1 where "s1 = snd (handle_tx_rgmii e s0)"
  define s2 where "s2 = tx_credit shaper now s1"
  define s3 where "s3 = tx_send shaper s2"
  have s': "tx_enabled_rgmii e s0" "s' = tx_reserve hp_tx s3"
    using turns(2) by (auto simp: rgmii_ethernet_tx_server_def s0_def s1_def s2_def s3_def Let_def split: if_splits prod.splits)
  have p: "tx_inv bl bh s0" "rt_clients s0 = rt_clients s" "rt_lp s0 = rt_lp s" "rt_hp s0 = rt_hp s" "rt_mem s0 = rt_mem s"
    using prioritize_ok [OF turns(3)] by (simp_all add: s0_def) (simp_all add: tx_prioritize_def)
  have "event_ok e s0" using turns(1) p(2) by (cases "(e, s)" rule: event_ok.cases) auto
  then have h: "tx_step_ok bl bh s0 (accepted_log e) s1" using handle_ok [OF p(1) _ s'(1)] by (simp add: s1_def)
  then have i1: "tx_inv bl bh s1" by (simp add: tx_step_ok_def)
  have i2: "tx_inv bl bh s2" unfolding s2_def by (rule credit_ok [OF i1])
  have k: "rt_mem s2 = rt_mem s1" "rt_mac s2 = rt_mac s1" "rt_lp s2 = rt_lp s1" "rt_hp s2 = rt_hp s1" "rt_clients s2 = rt_clients s1"
    by (simp_all add: s2_def tx_credit_def Let_def)
  have c: "tx_step_ok bl bh s1 [] s2" using i2 by (simp add: tx_step_ok_def tx_frames_def k)
  have d: "tx_step_ok bl bh s2 (out_log s2 s3) s3" unfolding s3_def by (rule send_step_ok [OF i2])
  note r = reserve_ok [of bl bh s3 hp_tx]
  have t: "tx_step_ok bl bh s3 [] s'" using r d by (simp add: tx_step_ok_def s'(2))
  have "out_log s1 s' = out_log s2 s3" using r d by (simp add: out_log_def k s'(2) tx_step_ok_def)
  moreover have "tx_step_ok bl bh s [] s0" using p by (simp add: tx_step_ok_def tx_frames_def)
  ultimately have "tx_step_ok bl bh s (accepted_log e @ out_log s1 s') s'"
    using tx_step_ok_trans [OF tx_step_ok_trans [OF tx_step_ok_trans [OF tx_step_ok_trans [OF _ h] c] d] t] by force
  then show ?case by (simp add: s1_def s0_def)
next
  case (stamps b s t)
  then show ?case
    using stamp_ok [OF stamps(2) stamps(1)] by (auto simp: tx_step_ok_def tx_frames_def on_way_def)
next
  case (sets_port s p)
  then show ?case by (simp add: tx_step_ok_def tx_frames_def tx_inv_def lp_stock_def hp_stock_def on_way_def)
qed

lemma tx_run: "rgmii_tx_run shaper s es s' \<Longrightarrow> tx_inv bl bh s \<Longrightarrow> tx_step_ok bl bh s es s'"
proof (induction rule: rgmii_tx_run.induct)
  case (tx_start s)
  then show ?case by (simp add: tx_step_ok_def)
next
  case (tx_more s es s' es' s'')
  then have a: "tx_step_ok bl bh s es s'" by blast
  then have "tx_inv bl bh s'" by (simp add: tx_step_ok_def)
  then have "tx_step_ok bl bh s' es' s''" by (rule tx_step [OF tx_more.hyps(2)])
  then show ?case by (rule tx_step_ok_trans [OF a])
qed

section \<open>The promises\<close>

text \<open>
  C13. In every run of the transmit server each buffer is in exactly one place: free, reserved by a client or for the
  high priority channel, in its ring, or with the transmitter; the transmitter has at most two, and the counters of the
  server count them and the packets that wait.
\<close>

theorem rgmii_tx_buffers_in_one_place:
  assumes "fresh_tx bl bh s0" and "rgmii_tx_run shaper (rgmii_tx_start hp_tx bl bh now s0) es s"
  shows "lp_stock bl s = mset_set (tx_pool bl) \<and> hp_stock bh s = mset_set (tx_pool bh) \<and>
    set (rt_mac s) \<subseteq> tx_pool bl \<union> tx_pool bh \<and> tx_pool bl \<inter> tx_pool bh = {} \<and> length (rt_mac s) \<le> 2 \<and>
    rt_sender_count s = int (length (rt_mac s)) \<and> rt_work_pending s = int (used_count (rt_lp s) + used_count (rt_hp s)) \<and>
    0 \<le> rt_prioritize_ack s \<and> rt_prioritize_ack s \<le> 2"
proof -
  have "tx_inv bl bh s" using tx_run [OF assms(2) start_ok(1) [OF assms(1)]] by (simp add: tx_step_ok_def)
  then show ?thesis using tx_pool_facts(2) by (simp add: tx_inv_def)
qed

text \<open>
  C7. In every such run the packets of each priority go to the transmitter in the order in which they were handed in
  and with their bytes: what was handed in is what was sent, then what waits in the ring.
\<close>

theorem rgmii_tx_is_fifo:
  assumes "fresh_tx bl bh s0" and "rgmii_tx_run shaper (rgmii_tx_start hp_tx bl bh now s0) es s"
  shows "accepted hi es = sent hi es @ tx_frames s (if hi then rt_hp s else rt_lp s)"
  using tx_run [OF assms(2) start_ok(1) [OF assms(1)]] start_ok(2,3) [OF assms(1)]
  by (simp add: tx_step_ok_def tx_frames_def)

text \<open>
  C39. While the transmitter has fewer than two packets the server gives it the oldest high priority packet when
  there is one and the shaper, if on, has credit, which the packet then costs; otherwise the oldest low priority packet;
  and nothing only when there is no packet it may send.
\<close>

theorem rgmii_tx_sends_next:
  fixes shaper :: bool and s :: rgmii_tx
  assumes "tx_inv bl bh s"
  defines "s' \<equiv> tx_send shaper s" and "lp \<equiv> used_items 8 (rt_lp s)" and "hp \<equiv> used_items 8 (rt_hp s)"
    and "free \<equiv> length (rt_mac s) < 2" and "may \<equiv> shaper \<longrightarrow> 0 \<le>s rt_credit s"
  shows "rt_mac s' = rt_mac s @ (if \<not> free then [] else if hp \<noteq> [] \<and> may then [hd hp] else take 1 lp) \<and>
    used_items 8 (rt_hp s') = (if free \<and> hp \<noteq> [] \<and> may then tl hp else hp) \<and>
    used_items 8 (rt_lp s') = (if free \<and> \<not> (hp \<noteq> [] \<and> may) then tl lp else lp) \<and>
    rt_credit s' = (if free \<and> hp \<noteq> [] \<and> may \<and> shaper
      then rt_credit s - credit_cost_rgmii (getf (rt_mem s) (hd hp) length_f) else rt_credit s)"
proof -
  have "length (rt_mac s) \<le> 2" using assms(1) by (simp add: tx_inv_def)
  then consider (none) "length (rt_mac s) = 2 \<or> \<not> (hp \<noteq> [] \<and> may) \<and> lp = []"
    | (hp) "length (rt_mac s) < 2" "hp \<noteq> [] \<and> may" | (lp) "length (rt_mac s) < 2" "\<not> (hp \<noteq> [] \<and> may)" "lp \<noteq> []"
    by linarith
  then show ?thesis
  proof cases
    case none
    then show ?thesis using tx_send_cases(1) [OF assms(1), of shaper]
      by (auto simp: s'_def free_def lp_def hp_def may_def)
  next
    case hp
    then show ?thesis using tx_send_cases(2) [OF assms(1), of shaper]
      by (auto simp: s'_def free_def lp_def hp_def may_def)
  next
    case lp
    then obtain x xs where "used_items 8 (rt_lp s) = x # xs" by (auto simp: lp_def neq_Nil_conv)
    then show ?thesis using lp tx_send_cases(3) [OF assms(1), of shaper]
      unfolding s'_def free_def lp_def hp_def may_def by auto
  qed
qed

text \<open>
  C40. The time a client gets for a packet it sent is the time the transmitter noted plus the egress latency
  twice: once when the buffer comes back, and once more when the client asks.
\<close>

theorem rgmii_tx_latency_twice:
  assumes "i < length (rt_clients s)" and "getf (rt_mem s) b filter_data_f = 0" and "getf (rt_mem s) b timestamp_id_f = of_nat (i + 1)"
    and "length (rt_clients s) < 2 ^ 32"
  shows "tx_enabled_rgmii (Tx_Call i Get_Outgoing_Timestamp) (buffer_sent b s) \<and>
    fst (get_outgoing_timestamp_rgmii i (buffer_sent b s)) = getf (rt_mem s) b timestamp_f + 2 * egress_latency s"
proof -
  have i: "i + 1 < 2 ^ 32" using assms(1,4) by linarith
  then have "unat (of_nat (i + 1) :: u32) = i + 1" by (subst unat_of_nat) simp
  then have "(of_nat (i + 1) :: u32) \<noteq> 0" by (metis add_is_0 unat_0 zero_neq_one)
  moreover have "of_nat (i + 1) - 1 = (of_nat i :: u32)" by simp
  moreover have "unat (of_nat i :: u32) = i" using i by (simp add: unat_of_nat)
  ultimately show ?thesis
    using assms by (simp add: buffer_sent_def get_outgoing_timestamp_rgmii_def on_tx_client_def egress_latency_def Let_def)
qed


end
