(* ===== verification/Rgmii_Tx_Examples.thy ===== *)
theory Rgmii_Tx_Examples
  imports Rgmii_Tx_Props
begin

text \<open>
  A concrete transmit server at which the promises of \<open>Rgmii_Tx_Props\<close> apply: a client asks for a buffer and
  hands in a packet of three bytes with a request for its time, and the server gives it to the transmitter.
\<close>

definition tx_ex :: rgmii_tx where
  "tx_ex = \<lparr>rt_mem = (\<lambda>_. 0),
     rt_clients = [\<lparr>tc_requested_send_buffer_size = 0, tc_send_buffer = 0, tc_has_outgoing_timestamp_info = False, tc_outgoing_timestamp = 0\<rparr>],
     rt_free_lp = \<lparr>bf_top_index = 0, bf_stack = replicate 8 0\<rparr>, rt_free_hp = \<lparr>bf_top_index = 0, bf_stack = replicate 8 0\<rparr>,
     rt_lp = buffers_used_initialize (replicate 9 0), rt_hp = buffers_used_initialize (replicate 9 0),
     rt_port = init_server_port_state False, rt_buf_hp = 0, rt_credit = 0, rt_credit_time = 0, rt_sender_count = 0,
     rt_work_pending = 0, rt_prioritize_ack = 0, rt_mac = []\<rparr>"

definition tx_ex0 :: rgmii_tx where "tx_ex0 = rgmii_tx_start True 4096 20480 0 tx_ex"

text \<open>The state after a turn, and after the calls of the client.\<close>

definition turn_ex :: "rgmii_tx_event \<Rightarrow> rgmii_tx \<Rightarrow> rgmii_tx" where
  "turn_ex e s = snd (the (rgmii_ethernet_tx_server False True 0 e s))"

abbreviation call_ex :: rgmii_tx_event where "call_ex \<equiv> Tx_Call 0 (Complete_Send_Packet [7, 8, 9] True)"

definition tx_ex1 :: rgmii_tx where "tx_ex1 = turn_ex (Tx_Call 0 (Init_Send_Packet 3)) tx_ex0"
definition tx_ex2 :: rgmii_tx where "tx_ex2 = turn_ex call_ex tx_ex1"

lemma turn_step:
  assumes "event_ok e s" "tx_enabled_rgmii e (tx_prioritize s)"
  shows "rgmii_tx_step False s (accepted_log e @ out_log (snd (handle_tx_rgmii e (tx_prioritize s))) (turn_ex e s)) (turn_ex e s)"
proof -
  obtain r s' where "rgmii_ethernet_tx_server False True 0 e s = Some (r, s')"
    using assms(2) by (cases "handle_tx_rgmii e (tx_prioritize s)") (simp add: rgmii_ethernet_tx_server_def Let_def)
  then show ?thesis using turns [OF assms(1)] by (simp add: turn_ex_def)
qed

lemma tx_ex_fresh: "fresh_tx 4096 20480 tx_ex"
  by (simp add: fresh_tx_def tx_ex_def tx_pools_ok_def buffers_used_initialize_def)

lemma ex_values: "length (rt_clients tx_ex0) = 1" "length (rt_clients tx_ex1) = 1" "rt_mac tx_ex1 = []"
  "tc_send_buffer (rt_clients (tx_prioritize tx_ex1) ! 0) = 15072" "rt_prioritize_ack (tx_prioritize tx_ex1) = 0"
  "rt_mac tx_ex2 = [15072]" "used_items 8 (rt_lp tx_ex2) = []" "rt_mac (snd (handle_tx_rgmii call_ex (tx_prioritize tx_ex1))) = []"
  "getf (rt_mem (snd (handle_tx_rgmii call_ex (tx_prioritize tx_ex1)))) 15072 filter_data_f = 0"
  "tx_frame (rt_mem (snd (handle_tx_rgmii call_ex (tx_prioritize tx_ex1)))) 15072 = [7, 8, 9]"
  by code_simp+

lemma ex_run1: "rgmii_tx_run False tx_ex0 [] tx_ex1"
proof -
  have "out_log (snd (handle_tx_rgmii (Tx_Call 0 (Init_Send_Packet 3)) (tx_prioritize tx_ex0))) tx_ex1 = []"
    by (simp add: out_log_def ex_values)
  then show ?thesis
    using tx_more [OF tx_start turn_step [of "Tx_Call 0 (Init_Send_Packet 3)" tx_ex0]] ex_values(1) by (simp add: tx_ex1_def)
qed

lemma ex_run2: "rgmii_tx_run False tx_ex0 [Accepted False [7, 8, 9], Out False [7, 8, 9]] tx_ex2"
proof -
  have "rgmii_tx_step False tx_ex1 (accepted_log call_ex @ out_log (snd (handle_tx_rgmii call_ex (tx_prioritize tx_ex1))) tx_ex2) tx_ex2"
    unfolding tx_ex2_def by (rule turn_step) (simp_all add: ex_values MII_PACKET_DATA_BYTES_def)
  moreover have "out_log (snd (handle_tx_rgmii call_ex (tx_prioritize tx_ex1))) tx_ex2 = [Out False [7, 8, 9]]"
    unfolding out_log_def ex_values by (simp add: ex_values del: handle_tx_rgmii.simps)
  ultimately show ?thesis using tx_more [OF ex_run1] by (simp del: handle_tx_rgmii.simps)
qed

lemma tx_ex_inv: "tx_inv 4096 20480 tx_ex2"
  using tx_run [OF ex_run2] start_ok(1) [OF tx_ex_fresh, of True 0] by (simp add: tx_ex0_def tx_step_ok_def)

lemma rgmii_tx_buffers_in_one_place_witness: "lp_stock 4096 tx_ex2 = mset_set (tx_pool 4096) \<and> rt_sender_count tx_ex2 = 1"
  using rgmii_tx_buffers_in_one_place [OF tx_ex_fresh ex_run2 [unfolded tx_ex0_def]] by (simp add: ex_values)

lemma rgmii_tx_is_fifo_witness:
  "[[7, 8, 9]] = sent False [Accepted False [7, 8, 9], Out False [7, 8, 9]] @ tx_frames tx_ex2 (rt_lp tx_ex2)"
  using rgmii_tx_is_fifo [OF tx_ex_fresh ex_run2 [unfolded tx_ex0_def], of False] by simp

lemma accepted_inv: "tx_inv 4096 20480 (snd (handle_tx_rgmii call_ex (tx_prioritize tx_ex1)))"
proof -
  have "tx_inv 4096 20480 tx_ex1"
    using tx_run [OF ex_run1] start_ok(1) [OF tx_ex_fresh, of True 0] by (simp add: tx_ex0_def tx_step_ok_def)
  then have i: "tx_inv 4096 20480 (tx_prioritize tx_ex1)" by (rule prioritize_ok)
  have "length (rt_clients (tx_prioritize tx_ex1)) = 1" using ex_values(2) by (simp add: tx_prioritize_def)
  then have "tx_step_ok 4096 20480 (tx_prioritize tx_ex1) (accepted_log call_ex) (snd (handle_tx_rgmii call_ex (tx_prioritize tx_ex1)))"
    by (intro handle_ok [OF i]) (simp_all add: ex_values MII_PACKET_DATA_BYTES_def)
  then show ?thesis by (simp add: tx_step_ok_def)
qed

lemma rgmii_tx_sends_next_witness: "rt_mac (tx_send False (snd (handle_tx_rgmii call_ex (tx_prioritize tx_ex1)))) = [15072]"
proof -
  have "used_items 8 (rt_lp (snd (handle_tx_rgmii call_ex (tx_prioritize tx_ex1)))) = [15072]"
    "used_items 8 (rt_hp (snd (handle_tx_rgmii call_ex (tx_prioritize tx_ex1)))) = []" by code_simp+
  then show ?thesis
    using rgmii_tx_sends_next [OF accepted_inv, of False] by (simp add: ex_values del: handle_tx_rgmii.simps)
qed

definition stamped_ex :: rgmii_tx where "stamped_ex = tx_ex2\<lparr>rt_mem := setf (rt_mem tx_ex2) 15072 timestamp_f 1000\<rparr>"

lemma rgmii_tx_latency_twice_witness:
  "fst (get_outgoing_timestamp_rgmii 0 (buffer_sent 15072 stamped_ex)) = 1000 + 2 * egress_latency stamped_ex"
proof -
  have "length (rt_clients stamped_ex) = 1" "getf (rt_mem stamped_ex) 15072 filter_data_f = 0"
    "getf (rt_mem stamped_ex) 15072 timestamp_id_f = 1" "getf (rt_mem stamped_ex) 15072 timestamp_f = 1000"
    by code_simp+
  then show ?thesis using rgmii_tx_latency_twice [of 0 stamped_ex 15072] by simp
qed


end
