(* ===== verification/Rgmii_Pins_Rx.thy ===== *)
theory Rgmii_Pins_Rx
  imports Mii_Mac_Run Mii_Rx Rgmii_Examples
begin

text \<open>
  The receiver of the RGMII MAC at 10 and 100 Mbit/s, \<open>rgmii_10_100_master_rx_pins\<close> of
  \<^verbatim>\<open>lib_ethernet/src/rgmii_10_100_master.xc\<close>. What the ports deliver is an input, as for the MII receiver
  (\<open>rx_frame\<close>): a frame ends with \<open>rx_taillen\<close> bits in the port, and \<open>rx_er\<close> is the flag the handler of the RX_ER
  port set during the frame. Which frames it hands over is stated on their bytes, and it is tied to the runs of the receive path.
\<close>

section \<open>The receiver\<close>

text \<open>The fallthrough switch on the bytes left at the end; the callers have at most three.\<close>

fun tail_crc :: "nat \<Rightarrow> u32 \<Rightarrow> u32 \<Rightarrow> u32" where
  "tail_crc 0 crc tail = crc"
| "tail_crc (Suc n) crc tail = (let (crc, tail) = crc8shr crc tail POLY in tail_crc n crc tail)"

record rx_10_100 =
  xl_mem :: mem
  xl_dptr :: addr
  xl_i :: int
  xl_crc :: u32

definition rx_word_10_100 :: "rx_10_100 \<Rightarrow> u32 \<Rightarrow> rx_10_100" where
  "rx_word_10_100 s word =
     s\<lparr>xl_mem := (if xl_i s < ETHERNET_MAX_PACKET_SIZE then (xl_mem s)(xl_dptr s := word) else xl_mem s),
       xl_crc := crc32 (xl_crc s) word POLY, xl_i := xl_i s + 4, xl_dptr := xl_dptr s + 4\<rparr>"

text \<open>
  One frame into the buffer \<open>buf\<close>: whether it is sent to the manager, and the memory. The length field is read
  from the buffer as in the MAC without real-time features.
\<close>

definition rx_frame_10_100 :: "addr \<Rightarrow> rx_frame \<Rightarrow> mem \<Rightarrow> bool \<times> mem" where
  "rx_frame_10_100 buf f m =
     (let m = setf m buf timestamp_f (rx_time f);
          s = foldl rx_word_10_100 \<lparr>xl_mem = m, xl_dptr = pkt_data buf, xl_i = 0, xl_crc = CRC_PRELOAD\<rparr> (rx_words f);
          m = xl_mem s;
          tail = drop_bit (unat (32 - rx_taillen f)) (rx_tail f);
          tail_byte_count = unat (drop_bit 3 (rx_taillen f));
          num_packet_bytes = word_of_int (xl_i s + int tail_byte_count) - 4 :: u32;
          (err, m) = (if num_packet_bytes < 60 \<or> num_packet_bytes > word_of_int ETHERNET_MAX_PACKET_SIZE then (True, m)
                      else (let m = setf m buf length_f num_packet_bytes;
                                crc = (if tail_byte_count \<noteq> 0 then tail_crc tail_byte_count (xl_crc s) tail else xl_crc s)
                            in (NOT crc \<noteq> 0, m)))
      in if drop_bit 24 (rx_sfd f) AND 0xFF \<noteq> 0xD5 \<or> rx_er f then (False, m)
         else (\<not> (err \<or> \<not> len_type_ok m (pkt_data buf) (uint num_packet_bytes)), m))"

text \<open>
  The loop until a valid packet: the frames on the wire are taken one after the other into the same buffer. The
  result is whether the buffer was sent to the manager, the frames not yet taken, and the memory.
\<close>

fun rgmii_10_100_master_rx_pins :: "addr \<Rightarrow> rx_frame list \<Rightarrow> mem \<Rightarrow> bool \<times> rx_frame list \<times> mem" where
  "rgmii_10_100_master_rx_pins buffer [] m = (False, [], m)"
| "rgmii_10_100_master_rx_pins buffer (f # fs) m =
     (let (sent, m) = rx_frame_10_100 buffer f m
      in if sent then (True, fs, m) else rgmii_10_100_master_rx_pins buffer fs m)"

section \<open>The words of a frame\<close>

lemma rx_words_10_100:
  fixes m :: mem and d :: addr and c :: u32
  defines "s ws \<equiv> foldl rx_word_10_100 \<lparr>xl_mem = m, xl_dptr = d, xl_i = 0, xl_crc = c\<rparr> ws"
  shows "xl_i (s ws) = 4 * int (length ws)" "xl_dptr (s ws) = d + 4 * int (length ws)"
    "xl_crc (s ws) = crc_bits POLY c (concat (map (bits_of 32) ws))"
    "j < length ws \<Longrightarrow> j < 380 \<Longrightarrow> xl_mem (s ws) (d + 4 * int j) = ws ! j"
    "a < d \<or> d + 1520 \<le> a \<Longrightarrow> xl_mem (s ws) a = m a"
proof -
  have step: "s (ws @ [w]) = rx_word_10_100 (s ws) w" for ws w by (simp add: s_def)
  have i: "xl_i (s ws) = 4 * int (length ws) \<and> xl_dptr (s ws) = d + 4 * int (length ws)" for ws
    by (induction ws rule: rev_induct) (simp_all add: step rx_word_10_100_def, simp_all add: s_def)
  then show "xl_i (s ws) = 4 * int (length ws)" "xl_dptr (s ws) = d + 4 * int (length ws)" by simp_all
  show "xl_crc (s ws) = crc_bits POLY c (concat (map (bits_of 32) ws))"
    by (induction ws rule: rev_induct) (simp_all add: step rx_word_10_100_def crc32_def crc_bits_append, simp add: s_def)
  show "j < length ws \<Longrightarrow> j < 380 \<Longrightarrow> xl_mem (s ws) (d + 4 * int j) = ws ! j"
    by (induction ws rule: rev_induct) (auto simp: step rx_word_10_100_def i nth_append less_Suc_eq)
  show "a < d \<or> d + 1520 \<le> a \<Longrightarrow> xl_mem (s ws) a = m a"
    by (induction ws rule: rev_induct) (auto simp: step rx_word_10_100_def i, simp_all add: s_def)
qed

lemma tail_crc_bits: "tail_crc n crc tail = crc_bits POLY crc (bits_of (8 * n) tail)"
proof (induction n arbitrary: crc tail)
  case 0
  then show ?case by (simp add: bits_of_def)
next
  case (Suc n)
  then show ?case unfolding bits_of_split by (simp add: crc8shr_def crc_bits_append)
qed

text \<open>All whole bytes received, the check sequence included.\<close>

definition received :: "rx_frame \<Rightarrow> u8 list" where
  "received f = concat (map word_bytes (rx_words f)) @
     take (unat (rx_taillen f) div 8) (word_bytes (drop_bit (32 - unat (rx_taillen f)) (rx_tail f)))"

lemma tail_bits_bytes:
  assumes "unat taillen < 32"
  shows "bits_of (8 * (unat taillen div 8)) (drop_bit (32 - unat taillen) tail) = tail_bits taillen tail"
    "bytes_bits (take (unat taillen div 8) (word_bytes (drop_bit (32 - unat taillen) tail))) = tail_bits taillen tail"
proof -
  show b: "bits_of (8 * (unat taillen div 8)) (drop_bit (32 - unat taillen) tail) = tail_bits taillen tail"
    using assms by (auto simp: bits_of_def tail_bits_def bit_simps list_eq_iff_nth_eq)
  have "unat taillen div 8 \<le> 4" using assms by simp
  then show "bytes_bits (take (unat taillen div 8) (word_bytes (drop_bit (32 - unat taillen) tail))) = tail_bits taillen tail"
    using bits_of_bytes [of "unat taillen div 8"] b by metis
qed

lemma received_bits:
  assumes "unat (rx_taillen f) < 32"
  shows "bytes_bits (received f) = frame_bits f" "length (received f) = 4 * length (rx_words f) + unat (rx_taillen f) div 8"
proof -
  show "bytes_bits (received f) = frame_bits f"
    using tail_bits_bytes(2) [OF assms] by (simp add: received_def frame_bits_def bytes_bits_words)
  have "unat (rx_taillen f) div 8 < 4" using assms by simp
  then show "length (received f) = 4 * length (rx_words f) + unat (rx_taillen f) div 8"
    by (simp add: received_def min_def)
qed

text \<open>Any four bytes are those of a word, so that the register tells whether the last four are the check sequence.\<close>

lemma word_bytes_surj: "length bs = 4 \<Longrightarrow> \<exists>w. bs = word_bytes w"
proof -
  assume "length bs = 4"
  then obtain a b c d where bs: "bs = [a, b, c, d]" by (auto simp: numeral_eq_Suc length_Suc_conv)
  let ?w = "horner_sum of_bool 2 (byte_bits a @ byte_bits b @ byte_bits c @ byte_bits d) :: u32"
  have "[a, b, c, d] = word_bytes ?w"
  proof (rule bytes_bits_inj)
    have "bits_of 32 ?w = byte_bits a @ byte_bits b @ byte_bits c @ byte_bits d"
      by (rule nth_equalityI) (simp_all add: bits_of_def byte_bits_def bit_horner_sum_bit_word_iff)
    then show "bytes_bits [a, b, c, d] = bytes_bits (word_bytes ?w)"
      unfolding bits_of_32_bytes [symmetric] by (simp add: bytes_bits_def)
  qed simp
  then show ?thesis using bs by blast
qed

lemma word_bytes_inj: "word_bytes v = word_bytes w \<longleftrightarrow> v = w"
proof
  assume "word_bytes v = word_bytes w"
  then have e: "bits_of 32 v = bits_of 32 w" by (simp only: bits_of_32_bytes)
  show "v = w"
  proof (rule bit_word_eqI)
    fix i assume "i < LENGTH(32)"
    then show "bit v i = bit w i" using arg_cong [OF e, of "\<lambda>bs. bs ! i"] by (simp add: bits_of_def)
  qed
qed simp

lemma crc_all_ones:
  assumes "4 \<le> length bs"
  shows "crc_bits POLY CRC_PRELOAD (bytes_bits bs) = NOT 0 \<longleftrightarrow>
    drop (length bs - 4) bs = word_bytes (ieee_crc (bytes_bits (take (length bs - 4) bs)))"
proof -
  let ?d = "take (length bs - 4) bs"
  obtain w where w: "drop (length bs - 4) bs = word_bytes w" using word_bytes_surj [of "drop (length bs - 4) bs"] assms by auto
  then have "bs = ?d @ word_bytes w" by (metis append_take_drop_id)
  then have b: "bytes_bits bs = bytes_bits ?d @ bits_of 32 w" by (metis bytes_bits_append bits_of_32_bytes)
  show ?thesis unfolding b w word_bytes_inj using crc_residue crc_residue_only by metis
qed

section \<open>Which frames are accepted\<close>

text \<open>The sixteen bits at offset \<open>i\<close>, and the check of the length field, on the bytes of the frame.\<close>

definition be16 :: "u8 list \<Rightarrow> nat \<Rightarrow> nat" where
  "be16 bs i = 256 * unat (bs ! i) + unat (bs ! (i + 1))"

definition eth_length_ok :: "u8 list \<Rightarrow> bool" where
  "eth_length_ok bs \<longleftrightarrow>
     (let (t, h) = (if be16 bs 12 = 0x8100 then (be16 bs 16, 18) else (be16 bs 12, 14)) in t < 1536 \<longrightarrow> h + t \<le> length bs)"

text \<open>The frame without its check sequence.\<close>

definition payload :: "rx_frame \<Rightarrow> u8 list" where
  "payload f = take (length (received f) - 4) (received f)"

definition good_frame :: "rx_frame \<Rightarrow> bool" where
  "good_frame f \<longleftrightarrow> drop_bit 24 (rx_sfd f) AND 0xFF = 0xD5 \<and> \<not> rx_er f \<and>
     60 \<le> length (payload f) \<and> length (payload f) \<le> 1518 \<and>
     received f = payload f @ word_bytes (ieee_crc (bytes_bits (payload f))) \<and> eth_length_ok (payload f)"

lemma NTOH_bytes: "unat (NTOH_U16_ALIGNED w) = 256 * unat (word_bytes w ! 0) + unat (word_bytes w ! 1)"
proof -
  have m: "(0xFF :: u32) = mask 8" by (simp add: mask_eq_exp_minus_1)
  define a b :: u8 where "a = ucast w" and "b = ucast (drop_bit 8 w)"
  have "NTOH_U16_ALIGNED w = push_bit 8 (ucast a) OR ucast b"
    unfolding NTOH_U16_ALIGNED_def m by (rule bit_word_eqI) (auto simp: a_def b_def bit_simps)
  also have "\<dots> = push_bit 8 (ucast a) + ucast b"
    by (rule disjunctive_add [symmetric]) (auto simp: bit_simps dest: bit_imp_le_length)
  finally have "unat (NTOH_U16_ALIGNED w) = unat (push_bit 8 (ucast a) + ucast b :: u16)" by simp
  moreover have "unat a < 256" "unat b < 256" using unsigned_less [of a] unsigned_less [of b] by simp_all
  ultimately have "unat (NTOH_U16_ALIGNED w) = 256 * unat a + unat b"
    by (simp add: unat_word_ariths push_bit_eq_mult unsigned_ucast_eq take_bit_eq_mod)
  then show ?thesis by (simp add: word_bytes_def a_def b_def)
qed

text \<open>The bytes of the frame lie in the full words, and the length field in those that are stored.\<close>

lemma payload_words:
  assumes "unat (rx_taillen f) < 32"
  shows "payload f = take (length (payload f)) (concat (map word_bytes (rx_words f)))"
    "length (payload f) \<le> 4 * length (rx_words f)" "length (payload f) = length (received f) - 4"
proof -
  have t: "unat (rx_taillen f) div 8 < 4" using assms by simp
  have r: "received f = concat (map word_bytes (rx_words f)) @
      take (unat (rx_taillen f) div 8) (word_bytes (drop_bit (32 - unat (rx_taillen f)) (rx_tail f)))"
    by (simp add: received_def)
  show l: "length (payload f) = length (received f) - 4" by (simp add: payload_def)
  then show le: "length (payload f) \<le> 4 * length (rx_words f)" using received_bits(2) [OF assms] t by linarith
  then show "payload f = take (length (payload f)) (concat (map word_bytes (rx_words f)))"
    unfolding l payload_def [of f] by (subst (2) r) simp
qed

lemma length_field_bytes:
  assumes st: "\<And>j. j < 5 \<Longrightarrow> m (d + 4 * int j) = ws ! j" and ws: "bs = take (length bs) (concat (map word_bytes ws))"
    and len: "60 \<le> length bs" "length bs \<le> 4 * length ws" "length bs \<le> 1518"
  shows "len_type_ok m d (int (length bs)) \<longleftrightarrow> eth_length_ok bs"
proof -
  have b: "bs ! i = word_bytes (ws ! (i div 4)) ! (i mod 4)" if "i < 60" for i
    using concat_word_bytes_nth [of i ws] that len ws by (metis nth_take order_less_le_trans)
  have n: "unat (NTOH_U16_ALIGNED (m (d + 4 * int j))) = be16 bs (4 * j)" if "j < 5" for j
  proof -
    have "(4 * j + 1) div 4 = j" "(4 * j + 1) mod 4 = 1" by linarith presburger
    then show ?thesis using that b [of "4 * j"] b [of "4 * j + 1"] by (simp add: st NTOH_bytes be16_def)
  qed
  have u: "uint (NTOH_U16_ALIGNED (m (d + 12))) = int (be16 bs 12)" "uint (NTOH_U16_ALIGNED (m (d + 16))) = int (be16 bs 16)"
    using arg_cong [OF n [of 3], of int] arg_cong [OF n [of 4], of int] by simp_all
  have c: "NTOH_U16_ALIGNED (m (d + 12)) = 0x8100 \<longleftrightarrow> be16 bs 12 = 0x8100"
    "NTOH_U16_ALIGNED (m (d + 12)) < 1536 \<longleftrightarrow> be16 bs 12 < 1536" "NTOH_U16_ALIGNED (m (d + 16)) < 1536 \<longleftrightarrow> be16 bs 16 < 1536"
    by (auto simp: word_uint_eq_iff word_less_def u)
  have "(int (length bs) - 14) mod 2 ^ 32 = int (length bs) - 14" "(int (length bs) - 18) mod 2 ^ 32 = int (length bs) - 18"
    using len by (auto intro!: mod_pos_pos_trivial)
  then show ?thesis
    using len by (auto simp: len_type_ok_def len_type_of_def eth_length_ok_def Let_def c u)
qed

text \<open>One frame: the memory the loop over the words leaves, and what is decided from the bytes.\<close>

abbreviation frame_start :: "addr \<Rightarrow> rx_frame \<Rightarrow> mem \<Rightarrow> rx_10_100" where
  "frame_start buf f m \<equiv> \<lparr>xl_mem = setf m buf timestamp_f (rx_time f), xl_dptr = pkt_data buf, xl_i = 0, xl_crc = CRC_PRELOAD\<rparr>"

definition sized :: "rx_frame \<Rightarrow> bool" where
  "sized f \<longleftrightarrow> 60 \<le> length (payload f) \<and> length (payload f) \<le> 1518"

text \<open>
  What is assumed of the port: less than a word is left at the end of a frame, and the byte count of the frame is a number of
  31 bits.
\<close>

definition port_frame :: "rx_frame \<Rightarrow> bool" where
  "port_frame f \<longleftrightarrow> unat (rx_taillen f) < 32 \<and> length (rx_words f) < 2 ^ 29"

lemma num_packet_bytes_range:
  assumes "port_frame f"
  defines "n \<equiv> word_of_int (4 * int (length (rx_words f)) + int (unat (rx_taillen f) div 8)) - 4 :: u32"
  shows "\<not> (n < 60 \<or> n > word_of_int ETHERNET_MAX_PACKET_SIZE) \<longleftrightarrow> sized f" "sized f \<Longrightarrow> n = of_nat (length (payload f))"
    "sized f \<Longrightarrow> uint n = int (length (payload f))"
proof -
  let ?r = "int (length (received f))"
  have p: "unat (rx_taillen f) < 32" "length (rx_words f) < 2 ^ 29" using assms(1) by (simp_all add: port_frame_def)
  have r: "?r = 4 * int (length (rx_words f)) + int (unat (rx_taillen f) div 8)" "?r < 2 ^ 31 + 4"
    using received_bits(2) [OF p(1)] p by simp_all
  have n: "n = word_of_int (?r - 4)" by (simp add: n_def r(1))
  have l: "length (payload f) = length (received f) - 4" by (rule payload_words(3) [OF p(1)])
  have un: "uint n = (?r - 4) mod 2 ^ 32" unfolding n by (simp only: uint_word_of_int len_num0 len_bit0 len_num1) simp
  have u: "uint n = (if ?r < 4 then ?r - 4 + 2 ^ 32 else ?r - 4)"
  proof (cases "?r < 4")
    case True
    have "(?r - 4) mod 2 ^ 32 = (?r - 4 + 2 ^ 32) mod 2 ^ 32" by (simp only: mod_add_self2)
    also have "\<dots> = ?r - 4 + 2 ^ 32" using True by (intro mod_pos_pos_trivial) simp_all
    finally show ?thesis using True un by simp
  next
    case False
    then have "(?r - 4) mod 2 ^ 32 = ?r - 4" using r(2) by (intro mod_pos_pos_trivial) simp_all
    then show ?thesis using False un by simp
  qed
  show "\<not> (n < 60 \<or> n > word_of_int ETHERNET_MAX_PACKET_SIZE) \<longleftrightarrow> sized f"
    using u l by (auto simp: word_less_def sized_def split: if_splits)
  show "sized f \<Longrightarrow> n = of_nat (length (payload f))" using l by (auto simp: n sized_def of_nat_diff)
  show "sized f \<Longrightarrow> uint n = int (length (payload f))" using u l by (auto simp: sized_def split: if_splits)
qed

lemma rx_frame_10_100_eq:
  fixes buf :: addr and m :: mem
  assumes "port_frame f"
  defines "m1 \<equiv> xl_mem (foldl rx_word_10_100 (frame_start buf f m) (rx_words f))"
  defines "m2 \<equiv> if sized f then setf m1 buf length_f (of_nat (length (payload f))) else m1"
  shows "rx_frame_10_100 buf f m =
    (drop_bit 24 (rx_sfd f) AND 0xFF = 0xD5 \<and> \<not> rx_er f \<and> sized f \<and>
       received f = payload f @ word_bytes (ieee_crc (bytes_bits (payload f))) \<and>
       len_type_ok m2 (pkt_data buf) (int (length (payload f))), m2)"
proof -
  let ?s = "foldl rx_word_10_100 (frame_start buf f m) (rx_words f)"
  let ?t = "unat (rx_taillen f) div 8" and ?tail = "drop_bit (32 - unat (rx_taillen f)) (rx_tail f)"
  have p: "unat (rx_taillen f) < 32" using assms(1) by (simp add: port_frame_def)
  have "unat (32 - rx_taillen f) = 32 - unat (rx_taillen f)" using p by (subst unat_sub) (simp_all add: word_le_nat_alt)
  note parts = this taillen_parts(3) [OF p]
  have d3: "unat (drop_bit 3 (rx_taillen f)) = ?t" unfolding parts(2) using p by (simp add: unat_of_nat)
  note s = rx_words_10_100 [where m = "setf m buf timestamp_f (rx_time f)" and d = "pkt_data buf" and c = CRC_PRELOAD and ws = "rx_words f"]
  have "tail_crc ?t (xl_crc ?s) ?tail = crc_bits POLY CRC_PRELOAD (bytes_bits (received f))"
    by (simp only: tail_crc_bits tail_bits_bytes(1) [OF p] s(3) received_bits(1) [OF p] frame_bits_def crc_bits_append)
  then have crc: "(if ?t \<noteq> 0 then tail_crc ?t (xl_crc ?s) ?tail else xl_crc ?s) = crc_bits POLY CRC_PRELOAD (bytes_bits (received f))"
    by (cases "?t = 0") simp_all
  have ones: "NOT (crc_bits POLY CRC_PRELOAD (bytes_bits (received f))) \<noteq> 0 \<longleftrightarrow>
      received f \<noteq> payload f @ word_bytes (ieee_crc (bytes_bits (payload f)))" if "sized f"
  proof -
    have four: "4 \<le> length (received f)" using that payload_words(3) [OF p] by (auto simp: sized_def)
    have "NOT c = 0 \<longleftrightarrow> c = NOT 0" for c :: u32 by (metis bit.double_compl)
    moreover have "received f = payload f @ x \<longleftrightarrow> drop (length (received f) - 4) (received f) = x" for x
      unfolding payload_def by (metis append_take_drop_id same_append_eq)
    ultimately show ?thesis using crc_all_ones [OF four] by (simp add: payload_def)
  qed
  let ?n = "word_of_int (4 * int (length (rx_words f)) + int ?t) - 4 :: u32"
  note n = num_packet_bytes_range [OF assms(1)]
  have bad: "(?n < 60 \<or> ?n > word_of_int ETHERNET_MAX_PACKET_SIZE) = (\<not> sized f)" using n(1) by blast
  have e: "rx_frame_10_100 buf f m =
      (let (err, m) = (if \<not> sized f then (True, m1)
           else (let m = setf m1 buf length_f ?n in (NOT (crc_bits POLY CRC_PRELOAD (bytes_bits (received f))) \<noteq> 0, m)))
       in if drop_bit 24 (rx_sfd f) AND 0xFF \<noteq> 0xD5 \<or> rx_er f then (False, m)
          else (\<not> (err \<or> \<not> len_type_ok m (pkt_data buf) (uint ?n)), m))"
    unfolding rx_frame_10_100_def Let_def parts(1) d3 s(1) crc bad m1_def by (rule refl)
  show ?thesis
  proof (cases "sized f")
    case True
    show ?thesis unfolding e n(3) [OF True] unfolding n(2) [OF True] using ones [OF True] True by (auto simp: m2_def Let_def)
  next
    case False
    then show ?thesis unfolding e by (simp add: m2_def)
  qed
qed

text \<open>Whatever arrives, only the buffer is written, and what is sent has a bounded length.\<close>

abbreviation words_mem :: "addr \<Rightarrow> rx_frame \<Rightarrow> mem \<Rightarrow> mem" where
  "words_mem buf f m \<equiv> xl_mem (foldl rx_word_10_100 (frame_start buf f m) (rx_words f))"

lemma rx_frame_10_100_shape:
  "\<exists>n. snd (rx_frame_10_100 buf f m) \<in> {words_mem buf f m, setf (words_mem buf f m) buf length_f n} \<and>
     (fst (rx_frame_10_100 buf f m) \<longrightarrow> n \<le> 1518 \<and> snd (rx_frame_10_100 buf f m) = setf (words_mem buf f m) buf length_f n)"
  by (rule exI [of _ "word_of_int (xl_i (foldl rx_word_10_100 (frame_start buf f m) (rx_words f)) + int (unat (drop_bit 3 (rx_taillen f)))) - 4"])
     (auto simp: rx_frame_10_100_def Let_def not_less split: if_splits)

lemma rx_frame_10_100_writes:
  shows "a < buf \<or> buf + sizeof_mii_packet_t \<le> a \<Longrightarrow> snd (rx_frame_10_100 buf f m) a = m a"
    "fst (rx_frame_10_100 buf f m) \<Longrightarrow> uint (getf (snd (rx_frame_10_100 buf f m)) buf length_f) \<le> ETHERNET_MAX_PACKET_SIZE"
proof -
  obtain n where n: "snd (rx_frame_10_100 buf f m) \<in> {words_mem buf f m, setf (words_mem buf f m) buf length_f n}"
    "fst (rx_frame_10_100 buf f m) \<longrightarrow> n \<le> 1518 \<and> snd (rx_frame_10_100 buf f m) = setf (words_mem buf f m) buf length_f n"
    using rx_frame_10_100_shape by blast
  show "a < buf \<or> buf + sizeof_mii_packet_t \<le> a \<Longrightarrow> snd (rx_frame_10_100 buf f m) a = m a"
    using n(1) rx_words_10_100(5) [where a = a and d = "pkt_data buf"]
    by (auto simp: setf_other pkt_data_def sizeof_1568)
  show "fst (rx_frame_10_100 buf f m) \<Longrightarrow> uint (getf (snd (rx_frame_10_100 buf f m)) buf length_f) \<le> ETHERNET_MAX_PACKET_SIZE"
    using n(2) by (auto simp: word_le_def)
qed

lemma rx_frame_10_100_good:
  assumes "port_frame f"
  shows "fst (rx_frame_10_100 buf f m) \<longleftrightarrow> good_frame f"
    "good_frame f \<Longrightarrow> buf mod 4 = 0 \<Longrightarrow> packet_bytes (snd (rx_frame_10_100 buf f m)) buf = payload f"
    "good_frame f \<Longrightarrow> getf (snd (rx_frame_10_100 buf f m)) buf timestamp_f = rx_time f"
proof -
  have p: "unat (rx_taillen f) < 32" using assms by (simp add: port_frame_def)
  define m1 where "m1 = xl_mem (foldl rx_word_10_100 (frame_start buf f m) (rx_words f))"
  define m2 where "m2 = setf m1 buf length_f (of_nat (length (payload f)))"
  note eq = rx_frame_10_100_eq [OF assms, of buf m, folded m1_def, folded m2_def]
  note pw = payload_words [OF p]
  have m1: "m1 (pkt_data buf + 4 * int j) = rx_words f ! j" if "j < length (rx_words f)" "j < 380" for j
    using that by (simp add: m1_def rx_words_10_100(4))
  have m2: "m2 (pkt_data buf + 4 * int j) = rx_words f ! j" if "j < length (rx_words f)" "j < 380" for j
    using m1 [OF that] by (simp add: m2_def setf_other pkt_data_def)
  have lt: "len_type_ok m2 (pkt_data buf) (int (length (payload f))) \<longleftrightarrow> eth_length_ok (payload f)" if "sized f"
    using that pw(2) by (intro length_field_bytes [OF m2 pw(1)]) (simp_all add: sized_def)
  have gs: "good_frame f \<Longrightarrow> sized f" by (simp add: good_frame_def sized_def)
  show "fst (rx_frame_10_100 buf f m) \<longleftrightarrow> good_frame f"
    using lt by (auto simp: eq good_frame_def sized_def)
  assume g: "good_frame f"
  then have s: "snd (rx_frame_10_100 buf f m) = m2" using gs by (simp add: eq)
  have "getf m1 buf timestamp_f = rx_time f"
    unfolding m1_def getf_def by (subst rx_words_10_100(5)) (simp_all add: pkt_data_def setf_def)
  then show "getf (snd (rx_frame_10_100 buf f m)) buf timestamp_f = rx_time f" by (simp add: s m2_def)
  assume a: "buf mod 4 = 0"
  let ?k = "length (payload f)" and ?w = "(length (payload f) + 3) div 4"
  have k: "?k \<le> 4 * ?w" "?w \<le> length (rx_words f)" "?w \<le> 380" using gs [OF g] pw(2) by (auto simp: sized_def)
  have l: "unat (getf m2 buf length_f) = ?k" using gs [OF g] by (simp add: m2_def sized_def unat_of_nat)
  have al: "pkt_data buf mod 4 = 0" using a unfolding pkt_data_def by presburger
  have ws: "map (\<lambda>i. m2 (pkt_data buf + 4 * int i)) [0..<?w] = take ?w (rx_words f)"
    using k m2 by (intro nth_equalityI) auto
  have "packet_bytes m2 buf = take ?k (concat (map word_bytes (take ?w (rx_words f))))"
    unfolding packet_bytes_def l ldbs_words [OF al k(1)] ws ..
  also have "\<dots> = take ?k (concat (map word_bytes (rx_words f)))"
  proof -
    have "concat (map word_bytes (rx_words f)) = concat (map word_bytes (take ?w (rx_words f))) @ concat (map word_bytes (drop ?w (rx_words f)))"
      by (metis append_take_drop_id concat_append map_append)
    moreover have "?k \<le> length (concat (map word_bytes (take ?w (rx_words f))))" using k by (simp add: min_def)
    ultimately show ?thesis by (simp del: length_concat_word_bytes)
  qed
  finally show "packet_bytes (snd (rx_frame_10_100 buf f m)) buf = payload f" unfolding s using pw(1) by simp
qed

lemma rx_pins_10_100_writes:
  assumes "rgmii_10_100_master_rx_pins buf fs m = (sent, rest, m')"
  shows "a < buf \<or> buf + sizeof_mii_packet_t \<le> a \<Longrightarrow> m' a = m a"
    "sent \<Longrightarrow> uint (getf m' buf length_f) \<le> ETHERNET_MAX_PACKET_SIZE"
  using assms
proof (induction fs arbitrary: m)
  case (Cons f fs)
  {
    case 1
    then show ?case
      using Cons.IH(1) rx_frame_10_100_writes(1) [of a buf f m] by (auto split: prod.splits if_splits)
  next
    case 2
    then show ?case
      using Cons.IH(2) rx_frame_10_100_writes(2) [of buf f m] by (auto split: prod.splits if_splits)
  }
qed simp_all

section \<open>A low level receiver\<close>

text \<open>
  What the receive path relies on: a low level receiver writes only into the buffer it is given, and what it sends back is no
  longer than the data of a packet. Its call is then a run of the receive path, and the manager keeps the frame.
\<close>

locale lld_receiver =
  fixes receive :: "addr \<Rightarrow> 'w \<Rightarrow> mem \<Rightarrow> bool \<times> 'w \<times> mem"
  assumes receive_writes: "receive b w m = (sent, w', m') \<Longrightarrow> a < b \<or> b + sizeof_mii_packet_t \<le> a \<Longrightarrow> m' a = m a"
    and receive_length: "receive b w m = (True, w', m') \<Longrightarrow> uint (getf m' b length_f) \<le> MII_PACKET_DATA_BYTES"
begin

lemma receives_run:
  assumes inv: "rgmii_inv base s" "frames_ok s" and k: "k < 2" "b \<in> set (rg_lld s k)"
    and r: "receive b w (rg_mem s) = (True, w', m')"
  defines "s' \<equiv> rgmii_buffer_manager k (Some b) (s\<lparr>rg_mem := m'\<rparr>)"
  shows "rgmii_run s [] s'" "rgmii_inv base s'" "packet_bytes (rg_mem s') b = packet_bytes m' b"
    "getf (rg_mem s') b timestamp_f = getf m' b timestamp_f"
proof -
  have "k = 0 \<or> k = 1" using k(1) by auto
  then have "b \<in># stock s" using k(2) by (auto simp: stock_def)
  then have p: "b \<in> pool_at base" "b mod 4 = 0"
    using inv(1) pool_aligned by (auto simp: rgmii_inv_at_def owned_def)
  note len = receive_length [OF r]
  have st: "rgmii_step s [] (s\<lparr>rg_mem := m'\<rparr>)" using receive_writes [OF r] by (intro fills [OF k]) auto
  have st': "rgmii_step (s\<lparr>rg_mem := m'\<rparr>) [] s'" unfolding s'_def using k len by (intro manages) simp_all
  show run: "rgmii_run s [] s'" using more [OF more [OF start st] st'] by simp
  then show "rgmii_inv base s'" using rgmii_run_ok [OF run inv] by (simp add: step_ok_def)
  have "rgmii_inv base (s\<lparr>rg_mem := m'\<rparr>)" using rgmii_step_ok [OF st inv] by (simp add: step_ok_def)
  then have keep: "keeps_frames base m' (rg_mem s')"
    using manager_frame(2) [of base "s\<lparr>rg_mem := m'\<rparr>" k "Some b"] k by (simp add: s'_def)
  have "unat (getf m' b length_f) \<le> 1528" using nat_mono [OF len] by (simp add: MII_PACKET_DATA_BYTES_def)
  then show "packet_bytes (rg_mem s') b = packet_bytes m' b" "getf (rg_mem s') b timestamp_f = getf m' b timestamp_f"
    using keeps_packet_bytes [OF keep p] keep p(1) by (simp_all add: keeps_frames_def)
qed

end

interpretation pins: lld_receiver rgmii_10_100_master_rx_pins
proof (unfold_locales, goal_cases)
  case (1 b w m sent w' m' a)
  then show ?case by (rule rx_pins_10_100_writes(1))
next
  case (2 b w m w' m')
  show ?case using rx_pins_10_100_writes(2) [OF 2] by (simp add: MII_PACKET_DATA_BYTES_def)
qed

section \<open>The frames that reach the manager\<close>

text \<open>The loop passes over the frames that are not good, whatever they are, and hands the first good one over whole.\<close>

lemma rx_pins_10_100_good:
  assumes "\<forall>f\<in>set fs. port_frame f" "buf mod 4 = 0"
  shows "case dropWhile (\<lambda>f. \<not> good_frame f) fs of
      [] \<Rightarrow> fst (rgmii_10_100_master_rx_pins buf fs m) = False
    | f # rest \<Rightarrow> (\<exists>m'. rgmii_10_100_master_rx_pins buf fs m = (True, rest, m') \<and> packet_bytes m' buf = payload f \<and>
        getf m' buf timestamp_f = rx_time f)"
  using assms(1)
proof (induction fs arbitrary: m)
  case Nil
  then show ?case by simp
next
  case (Cons f fs)
  have p: "port_frame f" using Cons.prems by simp
  obtain sent m1 where r: "rx_frame_10_100 buf f m = (sent, m1)" by fastforce
  note g = rx_frame_10_100_good [OF p, of buf m, unfolded r fst_conv snd_conv]
  show ?case
  proof (cases "good_frame f")
    case True
    then show ?thesis using g assms(2) by (simp add: r)
  next
    case False
    then have e: "rgmii_10_100_master_rx_pins buf (f # fs) m = rgmii_10_100_master_rx_pins buf fs m1"
      "dropWhile (\<lambda>f. \<not> good_frame f) (f # fs) = dropWhile (\<lambda>f. \<not> good_frame f) fs"
      using g by (simp_all add: r)
    show ?thesis unfolding e using Cons.IH [of m1] Cons.prems by simp
  qed
qed

text \<open>
  C26. At 10 and 100 Mbit/s a buffer is sent to the manager with the first frame on the wire that is good: the delimiter is right, no
  RX_ER, 60 to 1518 bytes besides the check sequence, the check sequence is the one of IEEE 802.3 for these bytes, and the
  length in the header fits. The buffer then holds exactly these bytes, their number and the time, whatever the frames before it
  left in it; while no good frame comes the loop keeps the buffer.
\<close>

theorem rgmii_10_100_first_good:
  assumes "\<forall>f\<in>set fs. port_frame f" "buf mod 4 = 0"
  shows "case dropWhile (\<lambda>f. \<not> good_frame f) fs of
      [] \<Rightarrow> fst (rgmii_10_100_master_rx_pins buf fs m) = False
    | f # rest \<Rightarrow> (\<exists>m'. rgmii_10_100_master_rx_pins buf fs m = (True, rest, m') \<and> packet_bytes m' buf = payload f \<and>
        getf m' buf timestamp_f = rx_time f)"
  by (rule rx_pins_10_100_good [OF assms])

text \<open>
  C25. The receiver at 10 and 100 Mbit/s is a low level receiver of the RGMII MAC as the runs of its receive path assume it: what it
  does with a buffer it holds, whatever frames come, is a run, so that all that holds of runs holds with it. After the manager
  has filed the buffer, it still holds the bytes of the first good frame and its time.
\<close>

theorem rgmii_10_100_receives_in_run:
  assumes inv: "rgmii_inv base s" "frames_ok s" and k: "k < 2" "buf \<in> set (rg_lld s k)"
    and f: "\<forall>f\<in>set fs. port_frame f" "dropWhile (\<lambda>f. \<not> good_frame f) fs = f # rest"
  shows "let m' = snd (snd (rgmii_10_100_master_rx_pins buf fs (rg_mem s)));
      s' = rgmii_buffer_manager k (Some buf) (s\<lparr>rg_mem := m'\<rparr>)
    in rgmii_run s [] s' \<and> rgmii_inv base s' \<and> packet_bytes (rg_mem s') buf = payload f \<and>
      getf (rg_mem s') buf timestamp_f = rx_time f"
proof -
  have "k = 0 \<or> k = 1" using k(1) by auto
  then have "buf \<in># stock s" using k(2) by (auto simp: stock_def)
  then have "buf mod 4 = 0" using inv(1) pool_aligned by (auto simp: rgmii_inv_at_def owned_def)
  then obtain m' where r: "rgmii_10_100_master_rx_pins buf fs (rg_mem s) = (True, rest, m')" "packet_bytes m' buf = payload f"
      "getf m' buf timestamp_f = rx_time f"
    using rx_pins_10_100_good [OF f(1), of buf "rg_mem s"] f(2) by auto
  then show ?thesis using pins.receives_run [OF inv k r(1)] by simp
qed

text \<open>A runt and then a frame of 60 bytes with its check sequence.\<close>

definition pin_words_ex :: "u32 list" where
  "pin_words_ex = [0x03020100, 0x07060504, 0x0B0A0908, 0x00450008] @ replicate 11 0"

definition pin_bytes_ex :: "u8 list" where
  "pin_bytes_ex = concat (map word_bytes pin_words_ex)"

definition pin_frame_ex :: rx_frame where
  "pin_frame_ex = \<lparr>rx_sfd = 0xD5555555, rx_time = 7, rx_words = pin_words_ex @ [ieee_crc (bytes_bits pin_bytes_ex)],
     rx_taillen = 0, rx_tail = 0, rx_er = False\<rparr>"

definition pin_runt_ex :: rx_frame where
  "pin_runt_ex = \<lparr>rx_sfd = 0xD5555555, rx_time = 3, rx_words = [0x03020100], rx_taillen = 12, rx_tail = 0, rx_er = False\<rparr>"

lemma pin_frames_ex: "port_frame pin_frame_ex" "port_frame pin_runt_ex"
  by (simp_all add: port_frame_def pin_frame_ex_def pin_runt_ex_def pin_words_ex_def)

lemma pin_payload_ex: "payload pin_frame_ex = pin_bytes_ex" "received pin_frame_ex = pin_bytes_ex @ word_bytes (ieee_crc (bytes_bits pin_bytes_ex))"
  by (simp_all add: payload_def received_def pin_frame_ex_def pin_bytes_ex_def del: length_concat_word_bytes)

lemma length_pin_bytes_ex: "length pin_bytes_ex = 60"
  unfolding pin_bytes_ex_def length_concat_word_bytes by (simp add: pin_words_ex_def)

lemma pin_good_ex: "good_frame pin_frame_ex" "\<not> good_frame pin_runt_ex"
proof -
  have "be16 pin_bytes_ex 12 = 0x800" by code_simp
  then have "eth_length_ok pin_bytes_ex" by (simp add: eth_length_ok_def)
  moreover have "drop_bit 24 (0xD5555555 :: u32) AND 0xFF = 0xD5" by code_simp
  ultimately show "good_frame pin_frame_ex"
    unfolding good_frame_def pin_payload_ex using length_pin_bytes_ex by (simp add: pin_frame_ex_def)
  have "length (received pin_runt_ex) = 5"
    using received_bits(2) [of pin_runt_ex] by (simp add: pin_runt_ex_def)
  then show "\<not> good_frame pin_runt_ex" by (simp add: good_frame_def payload_def)
qed

lemma rgmii_10_100_first_good_witness:
  "\<exists>m'. rgmii_10_100_master_rx_pins 4096 [pin_runt_ex, pin_frame_ex] (\<lambda>_. 0) = (True, [], m') \<and>
     packet_bytes m' 4096 = pin_bytes_ex \<and> getf m' 4096 timestamp_f = 7"
  using rgmii_10_100_first_good [of "[pin_runt_ex, pin_frame_ex]" 4096 "\<lambda>_. 0"] pin_frames_ex pin_good_ex
  by (simp add: pin_payload_ex(1) del: rgmii_10_100_master_rx_pins.simps) (simp add: pin_frame_ex_def)

lemma slow_lld_ex: "rgb \<in> set (rg_lld (rgmii_restart 4096 11 (rg_ex 1)) 0)"
proof -
  have i: "buffers_free_initialize (replicate 32 0) 4096 32 = \<lparr>bf_top_index = 32, bf_stack = rg_stack_ex\<rparr>"
    using stack_ex by (simp add: buffers_free_initialize_def)
  show ?thesis
    by (simp add: rgmii_restart_def rg_ex_def i slow_mode_def manager_start_def take_free_def
        give_lld_def buffers_free_take_def rg_stack_ex_def Let_def)
qed

lemma rgmii_10_100_receives_in_run_witness:
  "\<exists>s'. rgmii_run (rgmii_restart 4096 11 (rg_ex 1)) [] s' \<and> rgmii_inv 4096 s' \<and> packet_bytes (rg_mem s') rgb = pin_bytes_ex \<and>
     getf (rg_mem s') rgb timestamp_f = 7"
  using rgmii_10_100_receives_in_run [OF restart_inv(1,2) [OF rg_ex_fresh] _ slow_lld_ex, of "[pin_runt_ex, pin_frame_ex]" pin_frame_ex "[]"]
    pin_frames_ex pin_good_ex
  by (auto simp: Let_def pin_payload_ex(1) pin_frame_ex_def [THEN arg_cong, of rx_time])

end
