(* ===== verification/Rgmii_Pins_Tx.thy ===== *)
theory Rgmii_Pins_Tx
  imports Rgmii_Pins_Rx
begin

text \<open>
  The transmitter of the RGMII MAC at 10 and 100 Mbit/s, \<open>rgmii_10_100_master_tx_pins\<close> of
  \<^verbatim>\<open>lib_ethernet/src/rgmii_10_100_master.xc\<close>. What it does to its port is the list of its outputs; the timer is a
  function \<open>clk\<close>, the value of its \<open>n\<close>-th input for the packet. What is on the wire is the frame with each nibble twice,
  and the receiver gets the packet back.
\<close>

section \<open>The transmit loop\<close>

text \<open>
  The instruction \<^verbatim>\<open>zip\<close> on groups of four bits: the nibbles of the two words alternate in a double word, first the one
  of the second operand. Both operands are always equal here, so that each nibble comes out twice: once for each
  edge of the clock.
\<close>

definition zip2 :: "u32 \<Rightarrow> u32 \<Rightarrow> u32 \<times> u32" where
  "zip2 a b =
     (let half = (\<lambda>off. horner_sum of_bool 2
            (map (\<lambda>i. bit (if even (i div 4) then b else a) (off + 4 * (i div 8) + i mod 4)) [0..<32]))
      in (half 16, half 0))"

text \<open>\<^verbatim>\<open>p_txd <: w\<close> and \<^verbatim>\<open>partout(p_txd, 16, w)\<close>, and the bits that go out, least significant first.\<close>

datatype rgmii_out = POut32 u32 | POut16 u32

definition out_bits :: "rgmii_out list \<Rightarrow> bool list" where
  "out_bits ws = concat (map (\<lambda>w. case w of POut32 v \<Rightarrow> bits_of 32 v | POut16 v \<Rightarrow> bits_of 16 v) ws)"

definition out_zipped :: "u32 \<Rightarrow> rgmii_out list" where
  "out_zipped word = (let (tmp1, tmp2) = zip2 word word in [POut32 tmp2, POut32 tmp1])"

text \<open>The word loop, \<^verbatim>\<open>do { ... } while (i < word_count)\<close>.\<close>

record tx_10_100 =
  yl_dptr :: addr
  yl_i :: nat
  yl_crc :: u32
  yl_out :: "rgmii_out list"

definition tx_word_10_100 :: "mem \<Rightarrow> tx_10_100 \<Rightarrow> tx_10_100" where
  "tx_word_10_100 m s =
     (let word = m (yl_dptr s)
      in \<lparr>yl_dptr = yl_dptr s + 4, yl_i = yl_i s + 1, yl_crc = crc32 (yl_crc s) word POLY,
          yl_out = yl_out s @ out_zipped word\<rparr>)"

function tx_words_10_100 :: "mem \<Rightarrow> nat \<Rightarrow> tx_10_100 \<Rightarrow> tx_10_100" where
  "tx_words_10_100 m word_count s =
     (let s = tx_word_10_100 m s in if yl_i s < word_count then tx_words_10_100 m word_count s else s)"
  by pat_completeness auto
termination
  by (relation "measure (\<lambda>(m, word_count, s). word_count - yl_i s)") (auto simp: tx_word_10_100_def Let_def)

declare tx_words_10_100.simps [simp del]

text \<open>The switch on the bytes of the last word: what is sent, and the checksum.\<close>

definition tx_tail_10_100 :: "nat \<Rightarrow> u32 \<Rightarrow> u32 \<Rightarrow> u32 \<times> rgmii_out list" where
  "tx_tail_10_100 tail_byte_count crc word =
     (let (tmp1, tmp2) = zip2 word word
      in (tail_crc tail_byte_count crc word,
          if tail_byte_count = 3 then [POut32 tmp2, POut16 tmp1]
          else if tail_byte_count = 2 then [POut32 tmp2]
          else [POut16 tmp2]))"

text \<open>
  \<^verbatim>\<open>RGMII_ETHERNET_IFS_AS_REF_CLOCK_COUNT\<close> of \<^verbatim>\<open>rgmii_consts.h\<close>. The condition on \<^verbatim>\<open>INITIAL_MODE\<close> compares two
  enumerators, which the preprocessor takes for 0 and 0: it always holds, and the divider is that of 1 Gbit/s, 3.
\<close>

abbreviation RGMII_DIVIDE :: int where "RGMII_DIVIDE \<equiv> 3"

definition RGMII_ETHERNET_IFS_AS_REF_CLOCK_COUNT :: int where
  "RGMII_ETHERNET_IFS_AS_REF_CLOCK_COUNT = (96 + 96 - 10) * (RGMII_DIVIDE + 1) div 2"

text \<open>
  One packet: the outputs, the memory with the time of the start of the frame, and the time \<open>ifg_time\<close> before which the next
  packet may not start. The inputs of the timer are the wait, the start of the frame, and one for each word.
\<close>

definition rgmii_10_100_master_tx_pins :: "addr \<Rightarrow> (nat \<Rightarrow> u32) \<Rightarrow> mem \<Rightarrow> rgmii_out list \<times> mem \<times> u32" where
  "rgmii_10_100_master_tx_pins buf clk m =
     (let byte_count = getf m buf length_f;
          word_count = unat (drop_bit 2 byte_count);
          tail_byte_count = unat (byte_count AND 3);
          preamble = out_zipped 0x55555555 @ out_zipped 0xD5555555;
          m = setf m buf timestamp_f (clk 1);
          s = tx_words_10_100 m word_count \<lparr>yl_dptr = pkt_data buf, yl_i = 0, yl_crc = CRC_PRELOAD, yl_out = preamble\<rparr>;
          eof_time = clk (1 + yl_i s);
          (crc, tail) = (if tail_byte_count \<noteq> 0 then tx_tail_10_100 tail_byte_count (yl_crc s) (m (yl_dptr s)) else (yl_crc s, []));
          crc = crc32 crc (NOT 0) POLY
      in (yl_out s @ tail @ out_zipped crc, m,
          eof_time + word_of_int RGMII_ETHERNET_IFS_AS_REF_CLOCK_COUNT + of_nat (tail_byte_count * 8)))"

section \<open>Both edges of the clock\<close>

text \<open>Each group of four bits twice.\<close>

fun ddr :: "bool list \<Rightarrow> bool list" where
  "ddr (a # b # c # d # bs) = [a, b, c, d, a, b, c, d] @ ddr bs"
| "ddr _ = []"

lemma ddr_append: "length xs mod 4 = 0 \<Longrightarrow> ddr (xs @ ys) = ddr xs @ ddr ys"
  by (induction xs rule: ddr.induct) simp_all

lemma ddr_Nil: "length ys mod 4 = 0 \<Longrightarrow> ddr ys = [] \<longleftrightarrow> ys = []"
  by (cases ys rule: ddr.cases) auto

lemma ddr_inj: "length xs mod 4 = 0 \<Longrightarrow> length ys mod 4 = 0 \<Longrightarrow> ddr xs = ddr ys \<Longrightarrow> xs = ys"
proof (induction xs arbitrary: ys rule: ddr.induct)
  case (1 a b c d xs)
  then show ?case by (cases ys rule: ddr.cases) auto
qed (auto simp: ddr_Nil eq_commute [of "[]"])

text \<open>The two words that go out, as bits.\<close>

lemma bit_positions:
  "[0..<8] = [0, 1, 2, 3, 4, 5, 6, 7]"
  "[0..<16] = [0, 1, 2, 3, 4, 5, 6, 7, 8, 9, 10, 11, 12, 13, 14, 15]"
  "[0..<32] = [0, 1, 2, 3, 4, 5, 6, 7, 8, 9, 10, 11, 12, 13, 14, 15, 16, 17, 18, 19, 20, 21, 22, 23, 24, 25, 26, 27, 28, 29, 30, 31]"
  "[16..<24] = [16, 17, 18, 19, 20, 21, 22, 23]"
  "[16..<32] = [16, 17, 18, 19, 20, 21, 22, 23, 24, 25, 26, 27, 28, 29, 30, 31]"
  by (simp_all add: upt_conv_Cons)

lemma bits_of_parts: "bits_of 32 w = bits_of 16 w @ map (bit w) [16..<32]" "bits_of 16 w = bits_of 8 w @ map (bit w) [8..<16]"
  using upt_add_eq_append [of 0 16 16] upt_add_eq_append [of 0 8 8] by (simp_all add: bits_of_def)

lemma zip2_bits:
  "bits_of 32 (snd (zip2 w w)) = ddr (bits_of 16 w)" "bits_of 16 (snd (zip2 w w)) = ddr (bits_of 8 w)"
  "bits_of 32 (fst (zip2 w w)) = ddr (map (bit w) [16..<32])" "bits_of 16 (fst (zip2 w w)) = ddr (map (bit w) [16..<24])"
proof -
  have h: "bit (snd (zip2 w w)) i = bit w (4 * (i div 8) + i mod 4)" "bit (fst (zip2 w w)) i = bit w (16 + 4 * (i div 8) + i mod 4)"
    if "i < 32" for i
    using that by (simp_all add: zip2_def Let_def bit_horner_sum_bit_word_iff)
  show "bits_of 32 (snd (zip2 w w)) = ddr (bits_of 16 w)" "bits_of 16 (snd (zip2 w w)) = ddr (bits_of 8 w)"
    "bits_of 32 (fst (zip2 w w)) = ddr (map (bit w) [16..<32])" "bits_of 16 (fst (zip2 w w)) = ddr (map (bit w) [16..<24])"
    by (simp_all add: bits_of_def h bit_positions numeral_2_eq_2 [symmetric])
qed

lemma out_bits_simps [simp]:
  "out_bits [] = []" "out_bits (POut32 v # ws) = bits_of 32 v @ out_bits ws" "out_bits (POut16 v # ws) = bits_of 16 v @ out_bits ws"
  "out_bits (xs @ ys) = out_bits xs @ out_bits ys"
  by (simp_all add: out_bits_def)

lemma out_zipped_bits: "out_bits (out_zipped w) = ddr (bits_of 32 w)"
proof -
  have "ddr (bits_of 32 w) = ddr (bits_of 16 w) @ ddr (map (bit w) [16..<32])"
    unfolding bits_of_parts(1) by (rule ddr_append) simp
  moreover obtain a b where "zip2 w w = (a, b)" by fastforce
  ultimately show ?thesis using zip2_bits(1,3) [of w] by (simp add: out_zipped_def)
qed

lemma tx_tail_10_100_bits:
  assumes "0 < t" "t < 4"
  shows "tx_tail_10_100 t crc w = (crc_bits POLY crc (bits_of (8 * t) w), snd (tx_tail_10_100 t crc w)) \<and>
    out_bits (snd (tx_tail_10_100 t crc w)) = ddr (bits_of (8 * t) w)"
proof -
  obtain a b where z: "zip2 w w = (a, b)" by fastforce
  have "ddr (bits_of 24 w) = ddr (bits_of 16 w) @ ddr (map (bit w) [16..<24])"
    using upt_add_eq_append [of 0 16 8] ddr_append [of "bits_of 16 w" "map (bit w) [16..<24]"] by (simp add: bits_of_def)
  moreover have "t = 1 \<or> t = 2 \<or> t = 3" using assms by auto
  ultimately show ?thesis using zip2_bits [of w] by (auto simp: tx_tail_10_100_def z tail_crc_bits)
qed

section \<open>The frame on the wire\<close>

definition data_words :: "mem \<Rightarrow> addr \<Rightarrow> nat \<Rightarrow> u32 list" where
  "data_words m d n = map (\<lambda>i. m (d + 4 * int i)) [0..<n]"

lemma data_words_simps [simp]:
  "data_words m d (Suc n) = data_words m d n @ [m (d + 4 * int n)]" "data_words m d 0 = []" "length (data_words m d n) = n"
  by (simp_all add: data_words_def)

text \<open>What holds at the head of the loop once \<open>n\<close> words are out.\<close>

definition zip_sent :: "mem \<Rightarrow> addr \<Rightarrow> bool list \<Rightarrow> nat \<Rightarrow> tx_10_100 \<Rightarrow> bool" where
  "zip_sent m d pre n s \<longleftrightarrow> yl_i s = n \<and> yl_dptr s = d + 4 * int n \<and>
     yl_crc s = crc_bits POLY CRC_PRELOAD (concat (map (bits_of 32) (data_words m d n))) \<and>
     out_bits (yl_out s) = pre @ ddr (concat (map (bits_of 32) (data_words m d n)))"

lemma length_words_bits [simp]: "length (concat (map (bits_of 32) ws)) = 32 * length ws"
  by (induction ws) auto

lemma zip_sent_step: "zip_sent m d pre n s \<Longrightarrow> zip_sent m d pre (Suc n) (tx_word_10_100 m s)"
  by (simp add: zip_sent_def tx_word_10_100_def Let_def crc_bits_append crc32_def out_zipped_bits ddr_append)

lemma tx_words_10_100_sent: "zip_sent m d pre n s \<Longrightarrow> zip_sent m d pre (max (Suc n) wc) (tx_words_10_100 m wc s)"
proof (induction "wc - n" arbitrary: n s rule: less_induct)
  case less
  have step: "zip_sent m d pre (Suc n) (tx_word_10_100 m s)" by (rule zip_sent_step [OF less.prems])
  then have i: "yl_i (tx_word_10_100 m s) = Suc n" by (simp add: zip_sent_def)
  show ?case
  proof (cases "Suc n < wc")
    case True
    then have "zip_sent m d pre (max (Suc (Suc n)) wc) (tx_words_10_100 m wc (tx_word_10_100 m s))"
      by (intro less.hyps step) simp
    then show ?thesis using True i by (subst tx_words_10_100.simps) (simp add: Let_def max_def split: if_splits)
  next
    case False
    then show ?thesis using step i by (subst tx_words_10_100.simps) (simp add: Let_def max_def)
  qed
qed

text \<open>The bytes of the packet are those of the words, and the first bytes of the next.\<close>

lemma packet_bits:
  assumes "buf mod 4 = 0" "unat (getf m buf length_f) = n"
  shows "bytes_bits (packet_bytes m buf) =
    concat (map (bits_of 32) (data_words m (pkt_data buf) (n div 4))) @ bits_of (8 * (n mod 4)) (m (pkt_data buf + 4 * int (n div 4)))"
proof -
  let ?d = "pkt_data buf" and ?w = "data_words m (pkt_data buf) (n div 4)"
  have a: "?d mod 4 = 0" using assms(1) unfolding pkt_data_def by presburger
  have "packet_bytes m buf = take n (concat (map word_bytes (data_words m ?d (Suc (n div 4)))))"
    unfolding packet_bytes_def assms(2) data_words_def by (rule ldbs_words [OF a]) presburger
  also have "\<dots> = concat (map word_bytes ?w) @ take (n mod 4) (word_bytes (m (?d + 4 * int (n div 4))))"
    by (simp add: minus_mult_div_eq_mod)
  finally have "bytes_bits (packet_bytes m buf) =
      bytes_bits (concat (map word_bytes ?w)) @ bytes_bits (take (n mod 4) (word_bytes (m (?d + 4 * int (n div 4)))))" by simp
  moreover have "n mod 4 \<le> 4" using mod_less_divisor [of 4 n] by simp
  ultimately show ?thesis by (simp add: bytes_bits_words bits_of_bytes)
qed

lemma packet_stamped:
  assumes "buf mod 4 = 0"
  shows "packet_bytes (setf m buf timestamp_f t) buf = packet_bytes m buf"
proof -
  have "ldb (setf m buf timestamp_f t) (pkt_data buf + int i) = ldb m (pkt_data buf + int i)" for i
  proof -
    have "(pkt_data buf + int i) - (pkt_data buf + int i) mod 4 \<ge> buf + 40"
      using assms unfolding pkt_data_def by presburger
    then show ?thesis unfolding ldb_def by (simp add: setf_other)
  qed
  then show ?thesis by (simp add: packet_bytes_def ldbs_def)
qed

lemma rgmii_10_100_sends_bits:
  assumes al: "buf mod 4 = 0" and n: "unat (getf m buf length_f) = n" "4 \<le> n"
  shows "out_bits (fst (rgmii_10_100_master_tx_pins buf clk m)) =
      ddr (bytes_bits (replicate 7 0x55 @ [0xD5]) @ bytes_bits (packet_bytes m buf) @ bits_of 32 (ieee_crc (bytes_bits (packet_bytes m buf))))"
    "fst (snd (rgmii_10_100_master_tx_pins buf clk m)) = setf m buf timestamp_f (clk 1)"
    "snd (snd (rgmii_10_100_master_tx_pins buf clk m)) = clk (1 + n div 4) + 364 + of_nat (8 * (n mod 4))"
proof -
  let ?m = "setf m buf timestamp_f (clk 1)" and ?d = "pkt_data buf" and ?t = "n mod 4"
  let ?pre = "ddr (bytes_bits (replicate 7 0x55 @ [0xD5]))" and ?bs = "bytes_bits (packet_bytes m buf)"
  let ?init = "\<lparr>yl_dptr = ?d, yl_i = 0, yl_crc = CRC_PRELOAD, yl_out = out_zipped 0x55555555 @ out_zipped 0xD5555555\<rparr>"
  let ?s = "tx_words_10_100 ?m (n div 4) ?init"
  let ?W = "concat (map (bits_of 32) (data_words ?m ?d (n div 4)))" and ?w = "?m (?d + 4 * int (n div 4))"
  have "bytes_bits (replicate 7 0x55 @ [0xD5]) = bits_of 32 0x55555555 @ bits_of 32 0xD5555555" by code_simp
  then have pre: "out_bits (yl_out ?init) = ?pre" by (simp add: out_zipped_bits ddr_append)
  have "zip_sent ?m ?d ?pre 0 ?init" using pre by (simp add: zip_sent_def)
  moreover have "max (Suc 0) (n div 4) = n div 4" using n(2) by (simp add: max_def)
  ultimately have s: "yl_i ?s = n div 4" "yl_dptr ?s = ?d + 4 * int (n div 4)" "yl_crc ?s = crc_bits POLY CRC_PRELOAD ?W"
    "out_bits (yl_out ?s) = ?pre @ ddr ?W"
    using tx_words_10_100_sent [of ?m ?d ?pre 0 ?init "n div 4"] by (simp_all add: zip_sent_def)
  have bits: "?bs = ?W @ bits_of (8 * ?t) ?w"
    using packet_bits [OF al, of ?m n] n(1) packet_stamped [OF al] by simp
  define tail where "tail = (if ?t \<noteq> 0 then tx_tail_10_100 ?t (yl_crc ?s) ?w else (yl_crc ?s, []))"
  have tl: "fst tail = crc_bits POLY CRC_PRELOAD ?bs" "out_bits (snd tail) = ddr (bits_of (8 * ?t) ?w)"
  proof -
    have "fst tail = crc_bits POLY (yl_crc ?s) (bits_of (8 * ?t) ?w) \<and> out_bits (snd tail) = ddr (bits_of (8 * ?t) ?w)"
      using tx_tail_10_100_bits [of ?t "yl_crc ?s" ?w] mod_less_divisor [of 4 n]
      by (cases "?t = 0") (auto simp: tail_def bits_of_def [of 0] prod_eq_iff)
    then show "fst tail = crc_bits POLY CRC_PRELOAD ?bs" "out_bits (snd tail) = ddr (bits_of (8 * ?t) ?w)"
      unfolding bits crc_bits_append s(3) by simp_all
  qed
  have e: "rgmii_10_100_master_tx_pins buf clk m =
      (yl_out ?s @ snd tail @ out_zipped (crc32 (fst tail) (NOT 0) POLY), ?m, clk (1 + n div 4) + 364 + of_nat (8 * ?t))"
    using s(1,2) by (simp add: rgmii_10_100_master_tx_pins_def n(1) unat_and_3 unat_drop_2 Let_def tail_def
        RGMII_ETHERNET_IFS_AS_REF_CLOCK_COUNT_def mult.commute split: prod.split)
  show "fst (snd (rgmii_10_100_master_tx_pins buf clk m)) = setf m buf timestamp_f (clk 1)"
    "snd (snd (rgmii_10_100_master_tx_pins buf clk m)) = clk (1 + n div 4) + 364 + of_nat (8 * (n mod 4))"
    by (simp_all add: e)
  have fcs: "crc32 (fst tail) (NOT 0) POLY = ieee_crc ?bs" unfolding tl(1) by (rule crc_fcs)
  have "out_bits (fst (rgmii_10_100_master_tx_pins buf clk m)) = ?pre @ ddr ?W @ ddr (bits_of (8 * ?t) ?w) @ ddr (bits_of 32 (ieee_crc ?bs))"
    unfolding e fst_conv out_bits_simps s(4) tl(2) out_zipped_bits fcs append.assoc by (rule refl)
  moreover have "ddr ?bs = ddr ?W @ ddr (bits_of (8 * ?t) ?w)" unfolding bits by (rule ddr_append) simp
  ultimately show "out_bits (fst (rgmii_10_100_master_tx_pins buf clk m)) =
      ddr (bytes_bits (replicate 7 0x55 @ [0xD5]) @ ?bs @ bits_of 32 (ieee_crc ?bs))"
    by (simp add: ddr_append)
qed

text \<open>
  C27. At 10 and 100 Mbit/s the transmitter puts on the wire an Ethernet frame with each group of four bits twice, once for each
  edge of the clock: seven preamble bytes, the delimiter, the bytes of the packet for every length from 4 on, and their check
  sequence. It writes nothing but the time of the start into the packet, and the next packet waits until 364 ticks, and
  8 for each odd byte, after the last full word.
\<close>

theorem rgmii_10_100_sends_frame:
  assumes "buf mod 4 = 0" "unat (getf m buf length_f) = n" "4 \<le> n"
  shows "\<exists>out. rgmii_10_100_master_tx_pins buf clk m =
      (out, setf m buf timestamp_f (clk 1), clk (1 + n div 4) + 364 + of_nat (8 * (n mod 4))) \<and>
    out_bits out = ddr (bytes_bits (replicate 7 0x55 @ [0xD5]) @ bytes_bits (packet_bytes m buf) @
      bits_of 32 (ieee_crc (bytes_bits (packet_bytes m buf))))"
  using rgmii_10_100_sends_bits [OF assms, of clk] by (metis prod.collapse)

text \<open>
  C24. End to end at 10 and 100 Mbit/s: a packet of 60 to 1518 bytes whose length field fits, sent by the transmitter and received
  without RX_ER, is accepted at once, and the buffer of the receiver holds exactly its bytes.
\<close>

theorem rgmii_10_100_roundtrip:
  assumes tx: "buf mod 4 = 0" "unat (getf m buf length_f) = n" "60 \<le> n" "n \<le> 1518" "eth_length_ok (packet_bytes m buf)"
    and wire: "out_bits (fst (rgmii_10_100_master_tx_pins buf clk m)) =
      ddr (bits_of 32 0x55555555 @ bits_of 32 (rx_sfd f) @ frame_bits f)"
    and rx: "port_frame f" "\<not> rx_er f" "buf' mod 4 = 0"
  shows "\<exists>m''. rgmii_10_100_master_rx_pins buf' (f # fs) m' = (True, fs, m'') \<and> packet_bytes m'' buf' = packet_bytes m buf \<and>
    getf m'' buf' timestamp_f = rx_time f"
proof -
  let ?bs = "packet_bytes m buf"
  have t: "unat (rx_taillen f) < 32" using rx(1) by (simp add: port_frame_def)
  have n: "length ?bs = n" by (simp add: packet_bytes_def tx(2))
  have four: "4 \<le> n" using tx(3) by simp
  have pre: "bytes_bits (replicate 7 0x55 @ [0xD5]) = bits_of 32 0x55555555 @ bits_of 32 0xD5555555" by code_simp
  have "ddr (bits_of 32 0x55555555 @ bits_of 32 0xD5555555 @ bytes_bits ?bs @ bits_of 32 (ieee_crc (bytes_bits ?bs))) =
      ddr (bits_of 32 0x55555555 @ bits_of 32 (rx_sfd f) @ frame_bits f)"
    using wire unfolding rgmii_10_100_sends_bits(1) [OF tx(1,2) four] pre by simp
  then have "bits_of 32 0x55555555 @ bits_of 32 0xD5555555 @ bytes_bits ?bs @ bits_of 32 (ieee_crc (bytes_bits ?bs)) =
      bits_of 32 0x55555555 @ bits_of 32 (rx_sfd f) @ frame_bits f"
    by (rule ddr_inj [rotated 2]) (simp_all add: length_frame_bits)
  then have b: "bits_of 32 0xD5555555 = bits_of 32 (rx_sfd f)"
    "bytes_bits (received f) = bytes_bits (?bs @ word_bytes (ieee_crc (bytes_bits ?bs)))"
    by (simp_all add: append_eq_append_conv received_bits(1) [OF t] bits_of_32_bytes)
  have sfd: "rx_sfd f = 0xD5555555"
    using b(1) bytes_bits_inj [of "word_bytes 0xD5555555" "word_bytes (rx_sfd f)"] word_bytes_inj by (simp add: bits_of_32_bytes)
  have r: "received f = ?bs @ word_bytes (ieee_crc (bytes_bits ?bs))"
    using arg_cong [OF b(2), of length] by (intro bytes_bits_inj b(2)) simp
  then have p: "payload f = ?bs" by (simp add: payload_def)
  have "drop_bit 24 (0xD5555555 :: u32) AND 0xFF = 0xD5" by code_simp
  then have "good_frame f" using r tx n rx(2) by (simp add: good_frame_def p sfd)
  then show ?thesis
    using rx_pins_10_100_good [of "[f]" buf' m'] rx_frame_10_100_good [OF rx(1), of buf' m'] rx p
    by (auto split: prod.split)
qed

text \<open>The packet of \<open>pin_frame_ex\<close> in the memory of the sender.\<close>

definition tx_mem_ex :: mem where
  "tx_mem_ex a = (if a = 4096 then 60 else if 4136 \<le> a \<and> a < 4196 then pin_words_ex ! nat ((a - 4136) div 4) else 0)"

lemma tx_mem_ex: "unat (getf tx_mem_ex 4096 length_f) = 60" "packet_bytes tx_mem_ex 4096 = pin_bytes_ex"
proof -
  show l: "unat (getf tx_mem_ex 4096 length_f) = 60" by (simp add: getf_def tx_mem_ex_def)
  have "map (\<lambda>i. tx_mem_ex (4136 + 4 * int i)) [0..<15] = pin_words_ex"
    by (intro nth_equalityI) (simp_all add: tx_mem_ex_def pin_words_ex_def)
  then show "packet_bytes tx_mem_ex 4096 = pin_bytes_ex"
    using ldbs_words [of 4136 60 15 tx_mem_ex] length_pin_bytes_ex
    by (simp add: packet_bytes_def l pkt_data_def pin_bytes_ex_def)
qed

lemma rgmii_10_100_sends_frame_witness:
  "\<exists>out. rgmii_10_100_master_tx_pins 4096 (\<lambda>i. of_nat (100 * i)) tx_mem_ex = (out, setf tx_mem_ex 4096 timestamp_f 100, 1964) \<and>
     out_bits out = ddr (bytes_bits (replicate 7 0x55 @ [0xD5]) @ bytes_bits pin_bytes_ex @ bits_of 32 (ieee_crc (bytes_bits pin_bytes_ex)))"
  using rgmii_10_100_sends_frame [of 4096 tx_mem_ex 60 "\<lambda>i. of_nat (100 * i)"] tx_mem_ex by simp

lemma rgmii_10_100_roundtrip_witness:
  "\<exists>m''. rgmii_10_100_master_rx_pins 8192 [pin_frame_ex] (\<lambda>_. 0) = (True, [], m'') \<and> packet_bytes m'' 8192 = packet_bytes tx_mem_ex 4096"
proof -
  have "bytes_bits (received pin_frame_ex) = frame_bits pin_frame_ex"
    using pin_frames_ex(1) by (intro received_bits(1)) (simp add: port_frame_def)
  then have f: "frame_bits pin_frame_ex = bytes_bits pin_bytes_ex @ bits_of 32 (ieee_crc (bytes_bits pin_bytes_ex))"
    by (simp add: pin_payload_ex(2) bits_of_32_bytes)
  have pre: "bytes_bits (replicate 7 0x55 @ [0xD5]) = bits_of 32 0x55555555 @ bits_of 32 (rx_sfd pin_frame_ex)"
    unfolding pin_frame_ex_def rx_frame.simps by code_simp
  have w: "out_bits (fst (rgmii_10_100_master_tx_pins 4096 (\<lambda>_. 0) tx_mem_ex)) =
      ddr (bits_of 32 0x55555555 @ bits_of 32 (rx_sfd pin_frame_ex) @ frame_bits pin_frame_ex)"
    using rgmii_10_100_sends_bits(1) [OF _ tx_mem_ex(1), of "\<lambda>_. 0"] unfolding tx_mem_ex(2) pre f by simp
  have "eth_length_ok (packet_bytes tx_mem_ex 4096)" "\<not> rx_er pin_frame_ex"
    using pin_good_ex(1) by (simp_all add: good_frame_def tx_mem_ex(2) pin_payload_ex(1))
  then show ?thesis
    using rgmii_10_100_roundtrip [OF _ tx_mem_ex(1) _ _ _ w, of 8192 "[]" "\<lambda>_. 0"] pin_frames_ex(1) by auto
qed

end
