(* ===== verification/Spec2Isabelle.thy ===== *)
theory Spec2Isabelle
  imports Ts_Queue Mii_Rx Rt_Send Macaddr_Hash Rt_Share_Examples Mii_Tx_Pins Mii_Mac_Props Smi_Props
    Rgmii_Examples Rgmii_Tx_Examples Rgmii_Pins_Tx
begin

text \<open>
  A verification of \<^verbatim>\<open>lib_ethernet\<close>, the Ethernet MACs of XMOS for the xCORE, written in XC, C and assembly. The
  library has three MACs, a driver for the MII pins and one for the management wires of the PHY. Each is a set of
  tasks that share memory and talk over channels and interfaces; here each task is a group of functions on an
  explicit state, and the interleavings of the tasks are step relations with invariants over all runs.

  \<^bold>\<open>Shared ground.\<close>
  \<^item> \<open>Prelude\<close>: the machine types (\<open>u8\<close>, \<open>u16\<close>, \<open>u32\<close> are words, an address is an integer), the index arithmetic of
    \<^verbatim>\<open>mii_buffering.h\<close> and facts on rings, collected in \<open>ring_simps\<close>.
  \<^item> \<open>Fifo\<close>: the contract of a queue, a locale; every ring interprets it: the packet queues twice (\<open>Packet_Queue\<close>, as the
    transmitter and as the server use them), the time stamps (\<open>Ts_Queue\<close>), the rings of the clients of 4
    (\<open>Rt_Receive\<close>) and of 16 entries (\<open>Rgmii_Inv\<close>), and the rings of the RGMII MAC (\<open>Rgmii_Buffers\<close>). The contract of a pool
    of buffers is in \<open>Rgmii_Buffers\<close>, with the stack of free buffers as its interpretation.
  \<^item> \<open>Memory\<close>: the words of a tile, byte access, and the fields of \<open>mii_packet_t\<close>. Buffers are addresses, so that aliasing
    is as in the code.
  \<^item> \<open>Crc\<close>: the \<^verbatim>\<open>crc32\<close> and \<^verbatim>\<open>crc8\<close> instructions, and the check sequence of IEEE 802.3 they compute.
  \<^item> \<open>Client_State\<close>, \<open>Client_Ring\<close>, \<open>Interfaces\<close>: \<^verbatim>\<open>client_state.xc\<close>, \<^verbatim>\<open>server_state.xc\<close>, and the calls of \<^verbatim>\<open>api/ethernet.h\<close> with
    the functions of \<^verbatim>\<open>ethernet.xc\<close>. Assertions, writes outside an array and loops that do not end are the values of \<open>fault\<close>.

  \<^bold>\<open>The 10/100 real-time MAC\<close> (\<^verbatim>\<open>mii_ethernet_rt_mac.xc\<close>, \<^verbatim>\<open>mii_master.xc\<close>, \<^verbatim>\<open>mii_filter.xc\<close>, \<^verbatim>\<open>mii_buffering.c\<close>).
  \<^item> \<open>Packet_Queue\<close>, \<open>Ts_Queue\<close>, \<open>Mempool\<close>, \<open>Packet_Copy\<close>: the queues of packet pointers, the queue of time stamps of
    \<^verbatim>\<open>mii_ts_queue.c\<close>, the circular packet memory, and the copies between it and arrays of bytes. The queues are FIFOs; a
    reservation is apart from live packets; a copy around the wrap reads back what was written.
  \<^item> \<open>Mii_Tx\<close>, \<open>Mii_Rx\<close>: \<open>mii_transmit_packet\<close> and \<open>mii_master_rx_pins\<close> on the words of a port. The frame on the wire is
    preamble, packet and check sequence; what is transmitted is received; receiving never writes into a live packet.
  \<^item> \<open>Mii_Tx_Pins\<close>: \<open>mii_master_tx_pins\<close> with the traffic shaper, whose credit bounds the high priority traffic.
  \<^item> \<open>Macaddr_Filter\<close>: the filter table of \<^verbatim>\<open>macaddr_filter.xc\<close> and \<open>ethernet_do_filtering\<close>, refined to a map from addresses.
  \<^item> \<open>Rt_Mac\<close>: the server and the filter task; \<open>Rt_Send\<close>: a packet of a client reaches the wire; \<open>Rt_Receive\<close>, \<open>Rt_Share\<close>,
    \<open>Rt_Share_Examples\<close>: a received packet is shared by the clients that want it, counted, and delivered, in every run.

  \<^bold>\<open>The MII driver and the 10/100 MAC without real-time features.\<close>
  \<^item> \<open>Mii_Lite\<close>: the two banks of buffers of \<^verbatim>\<open>mii_lite_driver.xc\<close>, with the interrupt handler and the interface of \<^verbatim>\<open>mii.xc\<close>.
    A bank is a chain of headers (\<open>Mii_Lite_Chain\<close>, \<open>Mii_Lite_Bank\<close>); the operations keep an invariant (\<open>Mii_Lite_Inv\<close>,
    \<open>Mii_Lite_Ops\<close>) in all runs (\<open>Mii_Lite_Run\<close>), from which the promises to the client follow (\<open>Mii_Lite_Props\<close>).
  \<^item> \<open>Mii_Mac\<close>: the server of \<^verbatim>\<open>mii_ethernet_mac.xc\<close> on that driver; \<open>Mii_Mac_Run\<close>, \<open>Mii_Mac_Props\<close>: it holds the one frame in
    delivery and each client gets its bytes.

  \<^bold>\<open>The 10/100/1000 MAC\<close> (\<^verbatim>\<open>rgmii_buffering.xc\<close>, \<^verbatim>\<open>rgmii_ethernet_mac.xc\<close>, \<^verbatim>\<open>rgmii_10_100_master.xc\<close>,
  \<^verbatim>\<open>macaddr_filter_hash.c\<close>).
  \<^item> \<open>Macaddr_Hash\<close>: the cuckoo hash table of addresses with its back-up table, refined to a map.
  \<^item> \<open>Rgmii_Buffers\<close>: the stack of free buffers and the rings of buffers in use.
  \<^item> \<open>Rgmii_Rx\<close>: buffer managers, receive server, configuration, restart. \<open>Rgmii_Inv\<close>, \<open>Rgmii_Clients\<close>: each operation
    keeps every buffer in one place, with those in the hand of the operation in a multiset beside the state. \<open>Rgmii_Run\<close>:
    the steps of the tasks and the frames queued for each client. \<open>Rgmii_Props\<close>, \<open>Rgmii_Examples\<close>: the promises.
  \<^item> \<open>Rgmii_Tx\<close>, \<open>Rgmii_Tx_Inv\<close>, \<open>Rgmii_Tx_Props\<close>, \<open>Rgmii_Tx_Examples\<close>: the transmit server in the same way.
  \<^item> \<open>Rgmii_Pins_Rx\<close>, \<open>Rgmii_Pins_Tx\<close>: the pin loops at 10 and 100 Mbit/s. Which frames the receiver accepts is stated on their
    bytes; it meets the contract of a low level receiver (a locale), under which its calls are runs of the receive path. The
    transmitter sends each group of four bits twice, and what it sends is received.

  \<^bold>\<open>Management of the PHY.\<close> \<open>Smi\<close>: the pin operations of both components of \<^verbatim>\<open>smi.xc\<close> and the functions of
  \<^verbatim>\<open>api/smi.h\<close>; \<open>Smi_Props\<close>: the bits the PHY sees are the frames of clause 22 of IEEE 802.3.

  \<^bold>\<open>Bounds and loops.\<close> Words wrap as on the machine. Sizes are those of the code: 32 packet pointers, 4 or 16 entries for
  a client, 32 receive and 8 + 8 transmit buffers of 1568 bytes, 256 hash slots. Loops are structural or have a measure; loops
  that may run forever are \<^theory_text>\<open>partial_function\<close>s whose result \<open>None\<close> is a loop that does not end, and that they
  return, or when they do not, is a theorem. No model uses fuel.

  \<^bold>\<open>Hypotheses.\<close> What is not in the source appears as a hypothesis of a step: a low level receiver writes only into a buffer it
  holds and sends back frames of at most \<^verbatim>\<open>MII_PACKET_DATA_BYTES\<close> (proved of the one in XC); the answers of the filter threads to a swap of the hash
  tables and the words sampled on a port are parameters. Operations under a lock, and the turns of a server, are single steps.

  \<^bold>\<open>Faults found\<close> are theorems too, where the behaviour is one of the model: overruns of arrays when a tag is stripped or a
  long packet is sent, a full time stamp queue, shared send buffers, a hash table that never accepts, a shaper credit that
  overflows, a stale read pointer of the driver, buffers of the RGMII MAC shared after a change of speed, an
  egress latency counted twice, a gap between frames that does not depend on the speed.

  \<^bold>\<open>Not modelled.\<close> The assembly of the low level drivers (\<^verbatim>\<open>*_lld.S\<close>, \<^verbatim>\<open>rgmii_speed_handlers.S\<close>), which is code on ports and
  clock cycles; the set-up of ports and clocks; the emptying of channels when a
  task stops; and the test benches and examples of the repository.
\<close>

end
